(* ===== verification/Zeos_Prelude.thy ===== *)
theory Zeos_Prelude
  imports Main "HOL-Library.Word"
begin

text \<open>
  Shared vocabulary of the development: the machine types of the 32-bit kernel
  (\<open>include/types.h\<close>), C's signed \<open>int\<close> kept at its width, the error numbers of
  \<open>include/errno.h\<close> the kernel returns, the paging constants of
  \<open>include/mm_address.h\<close>, and generic lemmas on words, lists and function updates.
\<close>

unbundle bit_operations_syntax

named_theorems frame_simps \<open>what an operation leaves unchanged\<close>
named_theorems addr_simps \<open>equalities between addresses of kernel objects\<close>

section \<open>Machine types\<close>

text \<open>\<open>Byte\<close>, \<open>Word\<close> and \<open>DWord\<close> of \<open>include/types.h\<close>; a pointer is a 32-bit word.\<close>

type_synonym Byte = "8 word"
type_synonym Word16 = "16 word"
type_synonym DWord = "32 word"
type_synonym ptr = "32 word"

text \<open>
  A C \<open>int\<close> is an HOL integer in the two's complement range. An operation that can leave
  the range is followed by \<open>wrap32\<close>, which is what the machine instruction does.
\<close>

definition wrap32 :: "int \<Rightarrow> int" where
  "wrap32 k = signed_take_bit 31 k"

definition int32 :: "int \<Rightarrow> bool" where
  "int32 k \<longleftrightarrow> - (2 ^ 31) \<le> k \<and> k < 2 ^ 31"

lemma wrap32_id [simp]: "int32 k \<Longrightarrow> wrap32 k = k"
  by (simp add: wrap32_def int32_def signed_take_bit_int_eq_self)

lemma int32_wrap32 [simp]: "int32 (wrap32 k)"
  using signed_take_bit_int_greater_eq_minus_exp [of 31 k] signed_take_bit_int_less_exp [of 31 k]
  by (simp add: wrap32_def int32_def)

lemma wrap32_sint [simp]: "wrap32 (sint (w :: 32 word)) = sint w"
  using sint_lt [of w] sint_ge [of w] by (simp add: wrap32_id int32_def)

text \<open>The conversion \<open>(int) u\<close> of an unsigned value, and \<open>(unsigned) k\<close> back.\<close>

definition int_of_dword :: "DWord \<Rightarrow> int" where
  "int_of_dword u = sint u"

definition dword_of_int :: "int \<Rightarrow> DWord" where
  "dword_of_int k = word_of_int k"

lemma dword_of_int_of_dword [simp]: "dword_of_int (int_of_dword u) = u"
  by (simp add: dword_of_int_def int_of_dword_def)

lemma int_of_dword_of_int [simp]: "int32 k \<Longrightarrow> int_of_dword (dword_of_int k) = k"
  by (simp add: dword_of_int_def int_of_dword_def int32_def sint_sbintrunc'
      signed_take_bit_int_eq_self)

section \<open>Constants of the kernel\<close>

text \<open>The error numbers of \<open>include/errno.h\<close> that the system calls use.\<close>

definition ESRCH :: int where "ESRCH = 3"
definition EBADF :: int where "EBADF = 9"
definition EAGAIN :: int where "EAGAIN = 11"
definition ENOMEM :: int where "ENOMEM = 12"
definition EACCES :: int where "EACCES = 13"
definition EFAULT :: int where "EFAULT = 14"
definition EINVAL :: int where "EINVAL = 22"
definition ENOSYS :: int where "ENOSYS = 38"

lemmas errno_defs =
  ESRCH_def EBADF_def EAGAIN_def ENOMEM_def EACCES_def EFAULT_def EINVAL_def ENOSYS_def

text \<open>The address-space layout of \<open>include/mm_address.h\<close>.\<close>

definition TOTAL_PAGES :: nat where "TOTAL_PAGES = 1024"
definition NUM_PAG_KERNEL :: nat where "NUM_PAG_KERNEL = 256"
definition NUM_PAG_CODE :: nat where "NUM_PAG_CODE = 8"
definition NUM_PAG_DATA :: nat where "NUM_PAG_DATA = 20"
definition PAGE_SIZE :: nat where "PAGE_SIZE = 0x1000"
definition L_USER_START :: nat where "L_USER_START = 0x100000"
definition PAG_LOG_INIT_CODE :: nat where "PAG_LOG_INIT_CODE = L_USER_START div 2 ^ 12"
definition PAG_LOG_INIT_DATA :: nat where "PAG_LOG_INIT_DATA = PAG_LOG_INIT_CODE + NUM_PAG_CODE"
definition USER_FIRST_PAGE :: nat where "USER_FIRST_PAGE = L_USER_START div 2 ^ 12"
definition DATA_START :: nat where "DATA_START = L_USER_START + NUM_PAG_CODE * PAGE_SIZE"
definition DATA_END :: nat where "DATA_END = DATA_START + NUM_PAG_DATA * PAGE_SIZE"
definition INIT_HEAP :: nat where "INIT_HEAP = DATA_END + NUM_PAG_DATA * PAGE_SIZE"

lemmas layout_consts =
  TOTAL_PAGES_def NUM_PAG_KERNEL_def NUM_PAG_CODE_def NUM_PAG_DATA_def PAGE_SIZE_def
  L_USER_START_def PAG_LOG_INIT_CODE_def PAG_LOG_INIT_DATA_def USER_FIRST_PAGE_def
  DATA_START_def DATA_END_def INIT_HEAP_def

definition NR_TASKS :: nat where "NR_TASKS = 10"
definition NUM_SEM :: nat where "NUM_SEM = 10"
definition KERNEL_STACK_SIZE :: nat where "KERNEL_STACK_SIZE = 1024"

section \<open>Words as addresses\<close>

lemma unat_word32_less: "unat (a :: 32 word) < 2 ^ 32"
proof -
  have "(unsigned a :: nat) < 2 ^ LENGTH(32)" by (rule unsigned_less)
  then show ?thesis by simp
qed

lemma unat_of_nat_word32 [simp]: "n < 2 ^ 32 \<Longrightarrow> unat (of_nat n :: 32 word) = n"
  by (simp add: unat_of_nat)

lemma of_nat_word32_inject:
  fixes m n :: nat
  assumes "m < 2 ^ 32" and "n < 2 ^ 32"
  shows "(of_nat m :: 32 word) = of_nat n \<longleftrightarrow> m = n"
  using assms by (metis unat_of_nat_word32)

text \<open>No wrap-around: the sum of two addresses read as naturals.\<close>

lemma unat_plus_word32:
  fixes a b :: "32 word"
  assumes "unat a + unat b < 2 ^ 32"
  shows "unat (a + b) = unat a + unat b"
  using assms by (simp add: unat_word_ariths)

lemma take_bit20_of_nat:
  assumes "n < 2 ^ 20"
  shows "take_bit 20 (of_nat n :: 32 word) = of_nat n"
proof (rule word_unat_eq_iff [THEN iffD2])
  have "n < 2 ^ 32" using assms by simp
  with assms show "unat (take_bit 20 (of_nat n :: 32 word)) = unat (of_nat n :: 32 word)"
    by (simp add: take_bit_eq_mod unat_mod)
qed

text \<open>Clearing the low twelve bits of an address: the start of its page.\<close>

lemma page_mask_eq: "(a :: 32 word) AND 0xfffff000 = push_bit 12 (drop_bit 12 a)"
proof -
  have m: "(0xfffff000 :: 32 word) = NOT (mask 12)"
    by (simp add: mask_eq_exp_minus_1)
  show ?thesis
    unfolding m by (rule bit_word_eqI) (auto simp: bit_simps)
qed

lemma unat_page_mask: "unat ((a :: 32 word) AND 0xfffff000) = unat a div 4096 * 4096"
proof -
  have "unat a div 4096 * 4096 \<le> unat a" by simp
  also have "unat a < 2 ^ 32" by (rule unat_word32_less)
  finally have "unat a div 4096 * 4096 < 2 ^ 32" .
  then show ?thesis
    by (simp add: page_mask_eq push_bit_eq_mult drop_bit_eq_div unat_word_ariths unat_div)
qed

lemma page_mask_offset:
  fixes a :: "32 word"
  assumes al: "unat a mod 4096 = 0" and k: "k < 4096"
  shows "(a + of_nat k) AND 0xfffff000 = a"
proof -
  have "unat a < 2 ^ 32" by (rule unat_word32_less)
  then have "unat a div 4096 < 1048576" by (intro less_mult_imp_div_less) simp
  moreover have e: "unat a = unat a div 4096 * 4096"
    using al div_mult_mod_eq [of "unat a" 4096] by simp
  ultimately have "unat a + 4096 \<le> 4294967296" by linarith
  with k have sum: "unat (a + of_nat k) = unat a + k"
    by (subst unat_plus_word32) (simp_all add: unat_of_nat)
  obtain q where "unat a = q * 4096" using e by blast
  then have "(unat a + k) div 4096 * 4096 = unat a" using k by simp
  with sum show ?thesis
    by (metis unat_page_mask word_unat_eq_iff)
qed

section \<open>Writing a family of cells\<close>

lemma fold_upd_out: "k \<notin> f ` set xs \<Longrightarrow> fold (\<lambda>x m. m(f x := v x)) xs m k = m k"
  by (induction xs arbitrary: m) auto

lemma fold_upd_in:
  "inj_on f (set xs) \<Longrightarrow> x \<in> set xs \<Longrightarrow> fold (\<lambda>x m. m(f x := v x)) xs m (f x) = v x"
proof (induction xs rule: rev_induct)
  case (snoc y ys)
  then show ?case by (auto simp: inj_on_def)
qed simp

lemma fold_upd_some:
  "k \<in> f ` set xs \<Longrightarrow> \<exists>x \<in> set xs. f x = k \<and> fold (\<lambda>x m. m(f x := v x)) xs m k = v x"
proof (induction xs rule: rev_induct)
  case (snoc y ys)
  then show ?case by (cases "f y = k") auto
qed simp

section \<open>Where the linker puts the kernel's objects\<close>

text \<open>
  The addresses of the global objects are chosen by the linker and are parameters of the
  model. \<open>symtab_ok\<close> states what \<open>system.lds\<close> and the C types promise of them: the task
  array and the page tables start on page boundaries (section \<open>.data.task\<close> follows
  \<open>ALIGN(4096)\<close> and their element sizes are 4096), everything lies between
  \<open>KERNEL_START\<close> and the first user address, and different objects do not overlap.
\<close>

record symtab =
  sym_protected_tasks :: ptr
  sym_dir_pages :: ptr
  sym_pagusr_table :: ptr
  sym_freequeue :: ptr
  sym_readyqueue :: ptr
  sym_semafor_proces :: ptr
  sym_cpu_idle :: ptr
  sym_ret_from_fork :: ptr

definition disjoint_objs :: "ptr \<Rightarrow> nat \<Rightarrow> ptr \<Rightarrow> nat \<Rightarrow> bool" where
  "disjoint_objs a m b n \<longleftrightarrow> unat a + m \<le> unat b \<or> unat b + n \<le> unat a"

definition kernel_obj :: "ptr \<Rightarrow> nat \<Rightarrow> bool" where
  "kernel_obj a n \<longleftrightarrow> 0x10000 \<le> unat a \<and> unat a + n \<le> L_USER_START"

text \<open>The objects and their sizes in bytes; a \<open>struct list_head\<close> has 8, a \<open>struct sem_t\<close> 20.\<close>

definition sym_objs :: "symtab \<Rightarrow> (ptr \<times> nat) list" where
  "sym_objs L = [(sym_protected_tasks L, (NR_TASKS + 2) * PAGE_SIZE),
     (sym_dir_pages L, NR_TASKS * PAGE_SIZE), (sym_pagusr_table L, NR_TASKS * PAGE_SIZE),
     (sym_freequeue L, 8), (sym_readyqueue L, 8), (sym_semafor_proces L, NUM_SEM * 20)]"

definition symtab_ok :: "symtab \<Rightarrow> bool" where
  "symtab_ok L \<longleftrightarrow>
     unat (sym_protected_tasks L) mod PAGE_SIZE = 0 \<and>
     unat (sym_dir_pages L) mod PAGE_SIZE = 0 \<and>
     unat (sym_pagusr_table L) mod PAGE_SIZE = 0 \<and>
     (\<forall>(a, n) \<in> set (sym_objs L). kernel_obj a n) \<and>
     sorted_wrt (\<lambda>(a, m) (b, n). disjoint_objs a m b n) (sym_objs L)"

text \<open>A layout the linker could choose, used to evaluate the model.\<close>

definition example_symtab :: symtab where
  "example_symtab = \<lparr>sym_protected_tasks = 0x20000, sym_dir_pages = 0x2C000,
     sym_pagusr_table = 0x36000, sym_freequeue = 0x18000, sym_readyqueue = 0x18008,
     sym_semafor_proces = 0x18010, sym_cpu_idle = 0x11000, sym_ret_from_fork = 0x11100\<rparr>"

lemma example_symtab_ok: "symtab_ok example_symtab"
  by (simp add: symtab_ok_def example_symtab_def sym_objs_def kernel_obj_def disjoint_objs_def
      layout_consts NR_TASKS_def NUM_SEM_def)

end
