(* ===== verification/Zeos_List.thy ===== *)
theory Zeos_List
  imports Zeos_Prelude
begin

text \<open>
  The circular doubly linked lists of \<open>list.c\<close> and \<open>include/list.h\<close>, the only container
  of the kernel. All \<open>struct list_head\<close> objects live in one store from addresses to
  nodes, and every operation writes the pointers in the order of the code. The predicate
  \<open>dlist\<close> says which sequence of entries a head represents; the lemmas show what each
  operation does to that sequence and that disjoint lists are left alone. The locale
  \<open>linked_queue\<close> is the contract the scheduler and the semaphores rely on.
\<close>

section \<open>Nodes and operations\<close>

record list_head =
  lh_next :: ptr
  lh_prev :: ptr

type_synonym links = "ptr \<Rightarrow> list_head"

text \<open>The assignments \<open>p->next = v\<close> and \<open>p->prev = v\<close>.\<close>

definition set_next :: "ptr \<Rightarrow> ptr \<Rightarrow> links \<Rightarrow> links" where
  "set_next p v h = h(p := (h p)\<lparr>lh_next := v\<rparr>)"

definition set_prev :: "ptr \<Rightarrow> ptr \<Rightarrow> links \<Rightarrow> links" where
  "set_prev p v h = h(p := (h p)\<lparr>lh_prev := v\<rparr>)"

definition INIT_LIST_HEAD :: "ptr \<Rightarrow> links \<Rightarrow> links" where
  "INIT_LIST_HEAD l h = set_prev l l (set_next l l h)"

definition raw_list_add :: "ptr \<Rightarrow> ptr \<Rightarrow> ptr \<Rightarrow> links \<Rightarrow> links" where
  "raw_list_add new prv nxt h =
     (let h1 = set_prev nxt new h;
          h2 = set_next new nxt h1;
          h3 = set_prev new prv h2
      in set_next prv new h3)"

definition list_add :: "ptr \<Rightarrow> ptr \<Rightarrow> links \<Rightarrow> links" where
  "list_add new head h = raw_list_add new head (lh_next (h head)) h"

definition list_add_tail :: "ptr \<Rightarrow> ptr \<Rightarrow> links \<Rightarrow> links" where
  "list_add_tail new head h = raw_list_add new (lh_prev (h head)) head h"

definition raw_list_del :: "ptr \<Rightarrow> ptr \<Rightarrow> links \<Rightarrow> links" where
  "raw_list_del prv nxt h = (let h1 = set_prev nxt prv h in set_next prv nxt h1)"

definition list_del :: "ptr \<Rightarrow> links \<Rightarrow> links" where
  "list_del e h =
     (let h1 = raw_list_del (lh_prev (h e)) (lh_next (h e)) h;
          h2 = set_next e 0 h1
      in set_prev e 0 h2)"

definition list_is_last :: "ptr \<Rightarrow> ptr \<Rightarrow> links \<Rightarrow> bool" where
  "list_is_last l head h \<longleftrightarrow> lh_next (h l) = head"

definition list_empty :: "ptr \<Rightarrow> links \<Rightarrow> bool" where
  "list_empty head h \<longleftrightarrow> lh_next (h head) = head"

definition list_first :: "ptr \<Rightarrow> links \<Rightarrow> ptr" where
  "list_first head h = lh_next (h head)"

text \<open>
  The macro \<open>list_for_each\<close>: the entries the cursor visits until it is back at the head.
  On a corrupt list the loop need not end, hence the option.
\<close>

partial_function (option) list_walk :: "links \<Rightarrow> ptr \<Rightarrow> ptr \<Rightarrow> ptr list option" where
  "list_walk h pos head =
     (if pos = head then Some []
      else Option.bind (list_walk h (lh_next (h pos)) head) (\<lambda>ps. Some (pos # ps)))"

definition list_for_each :: "ptr \<Rightarrow> links \<Rightarrow> ptr list option" where
  "list_for_each head h = list_walk h (lh_next (h head)) head"

section \<open>The sequence a head represents\<close>

text \<open>\<open>seg h a xs b\<close>: following the links from \<open>a\<close> visits \<open>xs\<close> and reaches \<open>b\<close>, and the
  back links agree.\<close>

primrec seg :: "links \<Rightarrow> ptr \<Rightarrow> ptr list \<Rightarrow> ptr \<Rightarrow> bool" where
  "seg h a [] b \<longleftrightarrow> lh_next (h a) = b \<and> lh_prev (h b) = a"
| "seg h a (x # xs) b \<longleftrightarrow> lh_next (h a) = x \<and> lh_prev (h x) = a \<and> seg h x xs b"

definition dlist :: "links \<Rightarrow> ptr \<Rightarrow> ptr list \<Rightarrow> bool" where
  "dlist h head xs \<longleftrightarrow> distinct (head # xs) \<and> seg h head xs head"

lemma lh_next_set_next [simp]: "lh_next (set_next p v h q) = (if q = p then v else lh_next (h q))"
  by (simp add: set_next_def)

lemma lh_prev_set_next [simp]: "lh_prev (set_next p v h q) = lh_prev (h q)"
  by (simp add: set_next_def)

lemma lh_next_set_prev [simp]: "lh_next (set_prev p v h q) = lh_next (h q)"
  by (simp add: set_prev_def)

lemma lh_prev_set_prev [simp]: "lh_prev (set_prev p v h q) = (if q = p then v else lh_prev (h q))"
  by (simp add: set_prev_def)

lemma seg_append [simp]: "seg h a (xs @ y # ys) b \<longleftrightarrow> seg h a xs y \<and> seg h y ys b"
  by (induction xs arbitrary: a) auto

lemma seg_set_next [simp]: "p \<notin> set (a # xs) \<Longrightarrow> seg (set_next p v h) a xs b = seg h a xs b"
  by (induction xs arbitrary: a) auto

lemma seg_set_prev [simp]: "p \<notin> set xs \<Longrightarrow> p \<noteq> b \<Longrightarrow> seg (set_prev p v h) a xs b = seg h a xs b"
  by (induction xs arbitrary: a) auto

lemma seg_cong:
  "(\<And>p. p \<in> set (a # xs) \<Longrightarrow> lh_next (h' p) = lh_next (h p)) \<Longrightarrow>
   (\<And>p. p \<in> set (xs @ [b]) \<Longrightarrow> lh_prev (h' p) = lh_prev (h p)) \<Longrightarrow> seg h' a xs b = seg h a xs b"
  by (induction xs arbitrary: a) auto

lemma seg_last: "seg h a xs b \<Longrightarrow> lh_prev (h b) = last (a # xs)"
  by (induction xs arbitrary: a) auto

lemma seg_first: "seg h a xs b \<Longrightarrow> lh_next (h a) = hd (xs @ [b])"
  by (cases xs) auto

lemma seg_unique:
  "seg h a xs b \<Longrightarrow> seg h a ys b \<Longrightarrow> b \<notin> set xs \<Longrightarrow> b \<notin> set ys \<Longrightarrow> xs = ys"
proof (induction xs arbitrary: a ys)
  case Nil
  then show ?case by (cases ys) auto
next
  case (Cons x xs)
  then show ?case by (cases ys) auto
qed

lemma dlist_unique: "dlist h q xs \<Longrightarrow> dlist h q ys \<Longrightarrow> xs = ys"
  by (auto simp: dlist_def intro: seg_unique)

lemma dlist_distinct: "dlist h q xs \<Longrightarrow> distinct xs \<and> q \<notin> set xs"
  by (simp add: dlist_def)

section \<open>What the operations do\<close>

lemma dlist_init: "dlist (INIT_LIST_HEAD q h) q []"
  by (simp add: dlist_def INIT_LIST_HEAD_def)

lemma list_empty_dlist: "dlist h q xs \<Longrightarrow> list_empty q h \<longleftrightarrow> xs = []"
  by (cases xs) (auto simp: dlist_def list_empty_def)

lemma list_first_dlist: "dlist h q (x # xs) \<Longrightarrow> list_first q h = x"
  by (simp add: dlist_def list_first_def)

lemma list_is_last_dlist:
  "dlist h q (xs @ [x]) \<Longrightarrow> y \<in> set (xs @ [x]) \<Longrightarrow> list_is_last y q h \<longleftrightarrow> y = x"
proof -
  assume d: "dlist h q (xs @ [x])" and y: "y \<in> set (xs @ [x])"
  show ?thesis
  proof (cases "y = x")
    case True
    with d show ?thesis by (simp add: dlist_def list_is_last_def)
  next
    case False
    with y obtain us vs where xs: "xs = us @ y # vs" by (auto simp: in_set_conv_decomp)
    with d have "seg h y (vs @ [x]) q" and "q \<notin> set (vs @ [x])"
      by (auto simp: dlist_def)
    with False show ?thesis by (cases vs) (auto simp: list_is_last_def)
  qed
qed

text \<open>The store outside the touched nodes: the frame of each operation.\<close>

lemma set_next_other [simp]: "q \<noteq> p \<Longrightarrow> set_next p v h q = h q"
  by (simp add: set_next_def)

lemma set_prev_other [simp]: "q \<noteq> p \<Longrightarrow> set_prev p v h q = h q"
  by (simp add: set_prev_def)

lemma dlist_cong: "(\<And>p. p \<in> set (q # xs) \<Longrightarrow> h' p = h p) \<Longrightarrow> dlist h' q xs = dlist h q xs"
proof -
  assume eq: "\<And>p. p \<in> set (q # xs) \<Longrightarrow> h' p = h p"
  have "seg h' q xs q = seg h q xs q" by (rule seg_cong) (auto simp: eq)
  then show ?thesis by (simp add: dlist_def)
qed

lemma INIT_LIST_HEAD_other [frame_simps]: "p \<noteq> q \<Longrightarrow> INIT_LIST_HEAD q h p = h p"
  by (simp add: INIT_LIST_HEAD_def)

lemma raw_list_add_other [frame_simps]:
  "p \<noteq> new \<Longrightarrow> p \<noteq> prv \<Longrightarrow> p \<noteq> nxt \<Longrightarrow> raw_list_add new prv nxt h p = h p"
  by (simp add: raw_list_add_def)

lemma dlist_neighbours:
  "dlist h q xs \<Longrightarrow> lh_next (h q) \<in> set (q # xs) \<and> lh_prev (h q) \<in> set (q # xs)"
proof -
  assume "dlist h q xs"
  then have s: "seg h q xs q" by (simp add: dlist_def)
  have "hd (xs @ [q]) \<in> set (xs @ [q])" and "last (q # xs) \<in> set (q # xs)"
    by (rule hd_in_set last_in_set, simp)+
  with seg_first [OF s] seg_last [OF s] show ?thesis by auto
qed

lemma list_add_other [frame_simps]:
  "dlist h q xs \<Longrightarrow> p \<notin> set (new # q # xs) \<Longrightarrow> list_add new q h p = h p"
  using dlist_neighbours [of h q xs] by (auto simp: list_add_def intro!: raw_list_add_other)

lemma list_add_tail_other [frame_simps]:
  "dlist h q xs \<Longrightarrow> p \<notin> set (new # q # xs) \<Longrightarrow> list_add_tail new q h p = h p"
  using dlist_neighbours [of h q xs] by (auto simp: list_add_tail_def intro!: raw_list_add_other)

lemma dlist_entry_neighbours:
  assumes "dlist h q (us @ e # vs)"
  shows "lh_prev (h e) = last (q # us)" and "lh_next (h e) = hd (vs @ [q])"
  using assms seg_last [of h q us e] seg_first [of h e vs q] by (auto simp: dlist_def)

lemma list_del_other [frame_simps]:
  assumes "dlist h q xs" and "e \<in> set xs" and "p \<notin> set (q # xs)"
  shows "list_del e h p = h p"
proof -
  from \<open>e \<in> set xs\<close> obtain us vs where xs: "xs = us @ e # vs" by (auto simp: in_set_conv_decomp)
  have "last (q # us) \<in> set (q # us)" by (rule last_in_set) simp
  moreover have "hd (vs @ [q]) \<in> set (vs @ [q])" by (rule hd_in_set) simp
  ultimately have "p \<noteq> lh_prev (h e)" "p \<noteq> lh_next (h e)" "p \<noteq> e"
    using assms dlist_entry_neighbours [of h q us e vs] by (auto simp: xs)
  then show ?thesis by (simp add: list_del_def raw_list_del_def)
qed

text \<open>The represented sequence after each operation.\<close>

lemma dlist_list_add:
  assumes "dlist h q xs" and "new \<notin> set (q # xs)"
  shows "dlist (list_add new q h) q (new # xs)"
  using assms by (cases xs) (auto simp: dlist_def list_add_def raw_list_add_def)

lemma dlist_list_add_tail:
  assumes "dlist h q xs" and "new \<notin> set (q # xs)"
  shows "dlist (list_add_tail new q h) q (xs @ [new])"
  using assms
  by (cases xs rule: rev_cases) (auto simp: dlist_def list_add_tail_def raw_list_add_def)

lemma dlist_list_del:
  assumes d: "dlist h q (us @ e # vs)"
  shows "dlist (list_del e h) q (us @ vs)"
proof -
  have nb: "lh_prev (h e) = last (q # us)" "lh_next (h e) = hd (vs @ [q])"
    using dlist_entry_neighbours [OF d] by auto
  show ?thesis
  proof (cases us rule: rev_cases)
    case Nil
    with d nb show ?thesis
      by (cases vs) (auto simp: dlist_def list_del_def raw_list_del_def)
  next
    case (snoc us' u)
    with d nb show ?thesis
      by (cases vs) (auto simp: dlist_def list_del_def raw_list_del_def)
  qed
qed

lemma list_del_entry [simp]: "list_del e h e = \<lparr>lh_next = 0, lh_prev = 0\<rparr>"
  by (simp add: list_del_def set_next_def set_prev_def Let_def)

lemma list_walk_dlist: "seg h a xs q \<Longrightarrow> q \<notin> set xs \<Longrightarrow> list_walk h (lh_next (h a)) q = Some xs"
proof (induction xs arbitrary: a)
  case Nil
  then show ?case by (subst list_walk.simps) simp
next
  case (Cons x xs)
  then have "list_walk h (lh_next (h x)) q = Some xs" by simp
  with Cons.prems show ?case by (subst list_walk.simps) auto
qed

section \<open>The contract of the queues\<close>

text \<open>
  What the scheduler and the semaphores use: a store \<open>'h\<close> of linked queues, each named by
  its head. An operation on one queue keeps every queue whose head and entries are
  disjoint from those of the first.
\<close>

locale linked_queue =
  fixes repr :: "'h \<Rightarrow> 'p \<Rightarrow> 'p list \<Rightarrow> bool"
    and init :: "'p \<Rightarrow> 'h \<Rightarrow> 'h"
    and push :: "'p \<Rightarrow> 'p \<Rightarrow> 'h \<Rightarrow> 'h"
    and enq :: "'p \<Rightarrow> 'p \<Rightarrow> 'h \<Rightarrow> 'h"
    and del :: "'p \<Rightarrow> 'h \<Rightarrow> 'h"
    and first :: "'p \<Rightarrow> 'h \<Rightarrow> 'p"
    and is_empty :: "'p \<Rightarrow> 'h \<Rightarrow> bool"
  assumes repr_distinct: "repr h q xs \<Longrightarrow> distinct (q # xs)"
    and repr_init: "repr (init q h) q []"
    and repr_push: "repr h q xs \<Longrightarrow> n \<notin> set (q # xs) \<Longrightarrow> repr (push n q h) q (n # xs)"
    and repr_enq: "repr h q xs \<Longrightarrow> n \<notin> set (q # xs) \<Longrightarrow> repr (enq n q h) q (xs @ [n])"
    and repr_del: "repr h q (us @ e # vs) \<Longrightarrow> repr (del e h) q (us @ vs)"
    and first_repr: "repr h q (x # xs) \<Longrightarrow> first q h = x"
    and is_empty_repr: "repr h q xs \<Longrightarrow> is_empty q h \<longleftrightarrow> xs = []"
    and init_frame: "repr h r ys \<Longrightarrow> q \<notin> set (r # ys) \<Longrightarrow> repr (init q h) r ys"
    and push_frame: "repr h q xs \<Longrightarrow> repr h r ys \<Longrightarrow> set (n # q # xs) \<inter> set (r # ys) = {} \<Longrightarrow>
      repr (push n q h) r ys"
    and enq_frame: "repr h q xs \<Longrightarrow> repr h r ys \<Longrightarrow> set (n # q # xs) \<inter> set (r # ys) = {} \<Longrightarrow>
      repr (enq n q h) r ys"
    and del_frame: "repr h q xs \<Longrightarrow> e \<in> set xs \<Longrightarrow> repr h r ys \<Longrightarrow>
      set (q # xs) \<inter> set (r # ys) = {} \<Longrightarrow> repr (del e h) r ys"
begin

text \<open>Taking the first entry off a queue, the step of every dispatcher.\<close>

lemma take_first:
  assumes "repr h q (x # xs)"
  shows "first q h = x" and "repr (del (first q h) h) q xs"
  using assms first_repr repr_del [of h q "[]" x xs] by auto

text \<open>Taking it off one queue and appending it to another, the step of every hand-over.\<close>

lemma transfer_tail:
  assumes q: "repr h q (x # xs)" and r: "repr h r ys"
    and disj: "set (q # x # xs) \<inter> set (r # ys) = {}"
  shows "repr (enq x r (del x h)) q xs" and "repr (enq x r (del x h)) r (ys @ [x])"
proof -
  have q': "repr (del x h) q xs" using repr_del [of h q "[]" x xs] q by simp
  have r': "repr (del x h) r ys" using del_frame [OF q _ r disj] by simp
  have "x \<notin> set (q # xs)" using repr_distinct [OF q] by auto
  with disj have "set (x # r # ys) \<inter> set (q # xs) = {}" by auto
  with r' q' show "repr (enq x r (del x h)) q xs" by (rule enq_frame)
  show "repr (enq x r (del x h)) r (ys @ [x])" using repr_enq [OF r'] disj by auto
qed

lemma transfer_head:
  assumes q: "repr h q (x # xs)" and r: "repr h r ys"
    and disj: "set (q # x # xs) \<inter> set (r # ys) = {}"
  shows "repr (push x r (del x h)) q xs" and "repr (push x r (del x h)) r (x # ys)"
proof -
  have q': "repr (del x h) q xs" using repr_del [of h q "[]" x xs] q by simp
  have r': "repr (del x h) r ys" using del_frame [OF q _ r disj] by simp
  have "x \<notin> set (q # xs)" using repr_distinct [OF q] by auto
  with disj have "set (x # r # ys) \<inter> set (q # xs) = {}" by auto
  with r' q' show "repr (push x r (del x h)) q xs" by (rule push_frame)
  show "repr (push x r (del x h)) r (x # ys)" using repr_push [OF r'] disj by auto
qed

text \<open>Appending a sequence of new entries one by one keeps their order.\<close>

lemma enq_all:
  assumes "repr h q xs" and "distinct ns" and "set ns \<inter> set (q # xs) = {}"
  shows "repr (fold (\<lambda>n. enq n q) ns h) q (xs @ ns)"
  using assms
proof (induction ns arbitrary: h xs)
  case Nil
  then show ?case by simp
next
  case (Cons n ns)
  then have "repr (enq n q h) q (xs @ [n])" by (intro repr_enq) auto
  with Cons.prems Cons.IH [of "enq n q h" "xs @ [n]"] show ?case by auto
qed

text \<open>Taking the first entry and appending it again rotates the queue: one round-robin turn.\<close>

lemma rotate_first:
  assumes q: "repr h q (x # xs)"
  shows "repr (enq x q (del x h)) q (xs @ [x])"
proof -
  have "repr (del x h) q xs" using repr_del [of h q "[]" x xs] q by simp
  then show ?thesis using repr_distinct [OF q] by (intro repr_enq) auto
qed

end

interpretation lq: linked_queue dlist INIT_LIST_HEAD list_add list_add_tail list_del
  list_first list_empty
proof (unfold_locales, goal_cases)
  case (1 h q xs) then show ?case by (simp add: dlist_def)
next
  case (2 q h) show ?case by (rule dlist_init)
next
  case (3 h q xs n) then show ?case by (rule dlist_list_add)
next
  case (4 h q xs n) then show ?case by (rule dlist_list_add_tail)
next
  case (5 h q us e vs) then show ?case by (rule dlist_list_del)
next
  case (6 h q x xs) then show ?case by (rule list_first_dlist)
next
  case (7 h q xs) then show ?case by (rule list_empty_dlist)
next
  case (8 h r ys q)
  then have "\<And>p. p \<in> set (r # ys) \<Longrightarrow> INIT_LIST_HEAD q h p = h p"
    by (intro INIT_LIST_HEAD_other) auto
  with 8 show ?case using dlist_cong [of r ys "INIT_LIST_HEAD q h" h] by blast
next
  case (9 h q xs r ys n)
  then have "\<And>p. p \<in> set (r # ys) \<Longrightarrow> list_add n q h p = h p" by (intro list_add_other) auto
  with 9 show ?case using dlist_cong [of r ys "list_add n q h" h] by blast
next
  case (10 h q xs r ys n)
  then have "\<And>p. p \<in> set (r # ys) \<Longrightarrow> list_add_tail n q h p = h p"
    by (intro list_add_tail_other) auto
  with 10 show ?case using dlist_cong [of r ys "list_add_tail n q h" h] by blast
next
  case (11 h q xs e r ys)
  then have "\<And>p. p \<in> set (r # ys) \<Longrightarrow> list_del e h p = h p" by (intro list_del_other) auto
  with 11 show ?case using dlist_cong [of r ys "list_del e h" h] by blast
qed

text \<open>The links of an entry lead to entries or to the head.\<close>

lemma dlist_links:
  assumes "dlist h q xs" "p \<in> set xs"
  shows "lh_next (h p) \<in> set (q # xs)" "lh_prev (h p) \<in> set (q # xs)"
proof -
  obtain us vs where x: "xs = us @ p # vs" using assms(2) by (meson split_list)
  then have s: "seg h q us p" "seg h p vs q" using assms(1) by (simp_all add: dlist_def)
  have "hd (vs @ [q]) \<in> set (vs @ [q])" "last (q # us) \<in> set (q # us)" by (rule hd_in_set last_in_set, simp)+
  then show "lh_next (h p) \<in> set (q # xs)" "lh_prev (h p) \<in> set (q # xs)"
    using seg_first [OF s(2)] seg_last [OF s(1)] x by auto
qed

text \<open>A traversal that enters a set of nodes closed under \<open>next\<close> without the head never ends.\<close>

lemma list_walk_visits:
  assumes "list_walk h pos head = Some ps"
  shows "pos \<in> C \<longrightarrow> (\<forall>p \<in> C. lh_next (h p) \<in> C) \<longrightarrow> head \<in> C"
proof (rule list_walk.raw_induct [where P = "\<lambda>h pos head ps. pos \<in> C \<longrightarrow> (\<forall>p \<in> C. lh_next (h p) \<in> C) \<longrightarrow> head \<in> C", OF _ assms],
    goal_cases)
  case (1 f h pos head ps)
  show ?case
  proof (cases "pos = head")
    case False
    then obtain qs where "f h (lh_next (h pos)) head = Some qs" using 1(2) by (auto split: bind_splits)
    then show ?thesis using 1(1) by blast
  qed simp
qed

lemma list_walk_diverges:
  assumes "pos \<in> C" "\<And>p. p \<in> C \<Longrightarrow> lh_next (h p) \<in> C" "head \<notin> C"
  shows "list_walk h pos head = None"
  using list_walk_visits [of h pos head _ C] assms by (cases "list_walk h pos head") blast+

lemma list_for_each_dlist: "dlist h q xs \<Longrightarrow> list_for_each q h = Some xs"
  by (simp add: dlist_def list_for_each_def list_walk_dlist)

section \<open>Properties\<close>

text \<open>C7: Inserting a fresh entry: \<open>list_add\<close> puts it right after the head and \<open>list_add_tail\<close> at the
  end. The traversal \<open>list_for_each\<close> ends and visits exactly the entries in that order, forward
  and backward links agree, and every list with other nodes is untouched.\<close>

theorem list_insert_spec:
  assumes "dlist h q xs" and "n \<notin> set (q # xs)"
  shows "list_for_each q (list_add n q h) = Some (n # xs) \<and> dlist (list_add n q h) q (n # xs) \<and>
    list_for_each q (list_add_tail n q h) = Some (xs @ [n]) \<and>
    dlist (list_add_tail n q h) q (xs @ [n]) \<and>
    (\<forall>r ys. dlist h r ys \<and> set (n # q # xs) \<inter> set (r # ys) = {} \<longrightarrow>
       dlist (list_add n q h) r ys \<and> dlist (list_add_tail n q h) r ys)"
  using lq.repr_push [OF assms] lq.repr_enq [OF assms] list_for_each_dlist
    lq.push_frame [OF assms(1)] lq.enq_frame [OF assms(1)] by blast

theorem list_insert_spec_witness:
  "list_for_each 1 (list_add_tail 3 1 (list_add_tail 2 1 (INIT_LIST_HEAD 1 (\<lambda>_. \<lparr>lh_next = 0, lh_prev = 0\<rparr>)))) = Some [2, 3]"
proof -
  have d: "dlist (list_add_tail 2 1 (INIT_LIST_HEAD 1 h)) 1 [2]" for h
    using lq.repr_enq [OF dlist_init, of 2 1 h] by simp
  show ?thesis using list_insert_spec [OF d, of 3] by simp
qed

text \<open>C8: Deleting an entry takes exactly that entry out of its list, leaves the entry with null
  links, and every list with other nodes is untouched.\<close>

theorem list_del_spec:
  assumes "dlist h q (us @ e # vs)"
  shows "list_for_each q (list_del e h) = Some (us @ vs) \<and> dlist (list_del e h) q (us @ vs) \<and>
    list_del e h e = \<lparr>lh_next = 0, lh_prev = 0\<rparr> \<and>
    (\<forall>r ys. dlist h r ys \<and> set (q # us @ e # vs) \<inter> set (r # ys) = {} \<longrightarrow> dlist (list_del e h) r ys)"
  using lq.repr_del [OF assms] list_for_each_dlist lq.del_frame [OF assms] list_del_entry by auto

theorem list_del_spec_witness:
  "list_for_each 1 (list_del 2 (list_add 3 1 (list_add 2 1 (INIT_LIST_HEAD 1 (\<lambda>_. \<lparr>lh_next = 0, lh_prev = 0\<rparr>))))) = Some [3]"
proof -
  have "dlist (list_add 3 1 (list_add 2 1 (INIT_LIST_HEAD 1 h))) 1 ([3] @ 2 # [])" for h
    using lq.repr_push [OF lq.repr_push [OF dlist_init, of 2 1 h], of 3] by simp
  from list_del_spec [OF this] show ?thesis by simp
qed

end
