(* ===== verification/Zeos_Utils.thy ===== *)
theory Zeos_Utils
  imports Zeos_Prelude
begin

text \<open>
  \<open>utils.c\<close> and \<open>p_stats.c\<close>: the copy loops between kernel and user space, the check of
  user pointers, the 64-bit division behind the tick counter, \<open>memset\<close>, and the
  accounting step \<open>update_stats\<close>. The copy loops are written over any byte-addressed
  memory given by a read and a write; the locale \<open>byte_memory\<close> states what such a memory
  promises and proves the loops correct once, for a flat memory and for memory seen
  through page tables.
\<close>

section \<open>Copying memory\<close>

text \<open>A little-endian 32-bit load and store made of byte accesses.\<close>

definition rd32 :: "('m \<Rightarrow> ptr \<Rightarrow> Byte) \<Rightarrow> 'm \<Rightarrow> ptr \<Rightarrow> DWord" where
  "rd32 rd m p = ucast (rd m p) OR push_bit 8 (ucast (rd m (p + 1)))
     OR push_bit 16 (ucast (rd m (p + 2))) OR push_bit 24 (ucast (rd m (p + 3)))"

definition wr32 :: "(ptr \<Rightarrow> Byte \<Rightarrow> 'm \<Rightarrow> 'm) \<Rightarrow> ptr \<Rightarrow> DWord \<Rightarrow> 'm \<Rightarrow> 'm" where
  "wr32 wr q v m =
     wr (q + 3) (ucast (drop_bit 24 v)) (wr (q + 2) (ucast (drop_bit 16 v))
       (wr (q + 1) (ucast (drop_bit 8 v)) (wr q (ucast v) m)))"

text \<open>
  The two loops shared by \<open>copy_data\<close>, \<open>copy_from_user\<close> and \<open>copy_to_user\<close>:
  \<open>while (size > 4)\<close> moves a double word, \<open>while (size > 0)\<close> moves a byte.
\<close>

function copy_dwords :: "('m \<Rightarrow> ptr \<Rightarrow> Byte) \<Rightarrow> (ptr \<Rightarrow> Byte \<Rightarrow> 'm \<Rightarrow> 'm) \<Rightarrow>
    ptr \<Rightarrow> ptr \<Rightarrow> int \<Rightarrow> 'm \<Rightarrow> ptr \<times> ptr \<times> int \<times> 'm" where
  "copy_dwords rd wr p q sz m =
     (if sz > 4 then copy_dwords rd wr (p + 4) (q + 4) (sz - 4) (wr32 wr q (rd32 rd m p) m)
      else (p, q, sz, m))"
  by pat_completeness auto
termination
  by (relation "measure (\<lambda>(rd, wr, p, q, sz, m). nat sz)") auto

function copy_bytes :: "('m \<Rightarrow> ptr \<Rightarrow> Byte) \<Rightarrow> (ptr \<Rightarrow> Byte \<Rightarrow> 'm \<Rightarrow> 'm) \<Rightarrow>
    ptr \<Rightarrow> ptr \<Rightarrow> int \<Rightarrow> 'm \<Rightarrow> 'm" where
  "copy_bytes rd wr p1 q1 sz m =
     (if sz > 0 then copy_bytes rd wr (p1 + 1) (q1 + 1) (sz - 1) (wr q1 (rd m p1) m) else m)"
  by pat_completeness auto
termination
  by (relation "measure (\<lambda>(rd, wr, p, q, sz, m). nat sz)") auto

declare copy_dwords.simps [simp del] copy_bytes.simps [simp del]

definition copy_data :: "('m \<Rightarrow> ptr \<Rightarrow> Byte) \<Rightarrow> (ptr \<Rightarrow> Byte \<Rightarrow> 'm \<Rightarrow> 'm) \<Rightarrow>
    ptr \<Rightarrow> ptr \<Rightarrow> int \<Rightarrow> 'm \<Rightarrow> 'm" where
  "copy_data rd wr start dest sz m =
     (case copy_dwords rd wr start dest sz m of
        (p1, q1, sz', m') \<Rightarrow> copy_bytes rd wr p1 q1 sz' m')"

definition copy_from_user :: "('m \<Rightarrow> ptr \<Rightarrow> Byte) \<Rightarrow> (ptr \<Rightarrow> Byte \<Rightarrow> 'm \<Rightarrow> 'm) \<Rightarrow>
    ptr \<Rightarrow> ptr \<Rightarrow> int \<Rightarrow> 'm \<Rightarrow> int \<times> 'm" where
  "copy_from_user rd wr start dest sz m =
     (case copy_dwords rd wr start dest sz m of
        (p1, q1, sz', m') \<Rightarrow> (0, copy_bytes rd wr p1 q1 sz' m'))"

definition copy_to_user :: "('m \<Rightarrow> ptr \<Rightarrow> Byte) \<Rightarrow> (ptr \<Rightarrow> Byte \<Rightarrow> 'm \<Rightarrow> 'm) \<Rightarrow>
    ptr \<Rightarrow> ptr \<Rightarrow> int \<Rightarrow> 'm \<Rightarrow> int \<times> 'm" where
  "copy_to_user rd wr start dest sz m =
     (case copy_dwords rd wr start dest sz m of
        (p1, q1, sz', m') \<Rightarrow> (0, copy_bytes rd wr p1 q1 sz' m'))"

text \<open>\<open>memset\<close>: the loop index counts up to \<open>size\<close>.\<close>

function memset_loop :: "(ptr \<Rightarrow> Byte \<Rightarrow> 'm \<Rightarrow> 'm) \<Rightarrow> ptr \<Rightarrow> Byte \<Rightarrow> int \<Rightarrow> int \<Rightarrow> 'm \<Rightarrow> 'm" where
  "memset_loop wr s c sz i m =
     (if i < sz then memset_loop wr s c sz (i + 1) (wr (s + word_of_int i) c m) else m)"
  by pat_completeness auto
termination
  by (relation "measure (\<lambda>(wr, s, c, sz, i, m). nat (sz - i))") auto

declare memset_loop.simps [simp del]

definition memset :: "(ptr \<Rightarrow> Byte \<Rightarrow> 'm \<Rightarrow> 'm) \<Rightarrow> ptr \<Rightarrow> Byte \<Rightarrow> int \<Rightarrow> 'm \<Rightarrow> 'm" where
  "memset wr s c sz m = memset_loop wr s c sz 0 m"

section \<open>Checking user pointers\<close>

definition VERIFY_READ :: int where "VERIFY_READ = 0"
definition VERIFY_WRITE :: int where "VERIFY_WRITE = 1"

text \<open>
  \<open>access_ok\<close>: the last argument is \<open>None\<close> for a null \<open>task\<close> and otherwise holds the
  \<open>heap_start_proc\<close> and \<open>heap_end_proc\<close> of the task. The \<open>VERIFY_WRITE\<close> case of the
  switch has no \<open>break\<close>, so it falls through into the default case.
\<close>

definition access_ok :: "int \<Rightarrow> ptr \<Rightarrow> DWord \<Rightarrow> (ptr \<times> ptr) option \<Rightarrow> bool" where
  "access_ok type addr sz task =
     (let addr_ini = drop_bit 12 addr;
          addr_fin = drop_bit 12 (addr + sz)
      in if addr_fin < addr_ini then False
         else if type = VERIFY_WRITE \<and>
           addr_ini \<ge> of_nat (USER_FIRST_PAGE + NUM_PAG_CODE) \<and>
           addr_fin \<le> of_nat (USER_FIRST_PAGE + NUM_PAG_CODE + NUM_PAG_DATA) then True
         else if addr_ini \<ge> of_nat USER_FIRST_PAGE \<and>
           addr_fin \<le> of_nat (USER_FIRST_PAGE + NUM_PAG_CODE + NUM_PAG_DATA) then True
         else (case task of
             None \<Rightarrow> False
           | Some (heap_start_proc, heap_end_proc) \<Rightarrow>
               addr_ini \<ge> drop_bit 12 heap_start_proc \<and>
               addr_fin \<le> drop_bit 12 heap_end_proc))"

section \<open>The tick counter\<close>

text \<open>
  The instruction \<open>divl\<close>: divides \<open>edx:eax\<close>, faults (\<open>None\<close>) when the divisor is zero or
  the quotient does not fit in 32 bits.
\<close>

definition divl :: "DWord \<Rightarrow> DWord \<Rightarrow> DWord \<Rightarrow> (DWord \<times> DWord) option" where
  "divl edx eax d =
     (let n = unat edx * 2 ^ 32 + unat eax in
      if d = 0 \<or> n div unat d \<ge> 2 ^ 32 then None
      else Some (of_nat (n div unat d), of_nat (n mod unat d)))"

text \<open>The macro \<open>do_div\<close>: the updated dividend and the remainder.\<close>

definition do_div :: "64 word \<Rightarrow> DWord \<Rightarrow> (64 word \<times> DWord) option" where
  "do_div n b =
     (let low = ucast n;
          high = ucast (drop_bit 32 n);
          upper = (if high \<noteq> 0 then high mod b else high);
          high' = (if high \<noteq> 0 then high div b else high)
      in case divl upper low b of
           None \<Rightarrow> None
         | Some (low', m) \<Rightarrow> Some (push_bit 32 (ucast high') OR ucast low', m))"

definition CYCLESPERTICK :: DWord where "CYCLESPERTICK = 109000"

text \<open>\<open>get_ticks\<close>, with the value \<open>rdtsc\<close> puts into \<open>edx:eax\<close> as its argument.\<close>

definition get_ticks :: "64 word \<Rightarrow> DWord" where
  "get_ticks tsc =
     (let eax = ucast tsc :: DWord;
          edx = ucast (drop_bit 32 tsc) :: DWord;
          ticks = push_bit 32 (ucast edx) + ucast eax
      in case do_div ticks CYCLESPERTICK of None \<Rightarrow> 0 | Some (ticks', _) \<Rightarrow> ucast ticks')"

text \<open>\<open>update_stats\<close>: the two counters it points to, before and after.\<close>

definition update_stats :: "DWord \<Rightarrow> DWord \<times> DWord \<Rightarrow> DWord \<times> DWord" where
  "update_stats current_ticks ve =
     (case ve of (v, elapsed) \<Rightarrow> (v + (current_ticks - elapsed), current_ticks))"

section \<open>Copying is correct\<close>

lemma ucast_rd32 [simp]:
  "(ucast (rd32 rd m p) :: Byte) = rd m p"
  "(ucast (drop_bit 8 (rd32 rd m p)) :: Byte) = rd m (p + 1)"
  "(ucast (drop_bit 16 (rd32 rd m p)) :: Byte) = rd m (p + 2)"
  "(ucast (drop_bit 24 (rd32 rd m p)) :: Byte) = rd m (p + 3)"
  unfolding rd32_def by (rule bit_word_eqI, force simp: bit_simps dest: bit_imp_le_length)+

lemma copy_data_unfold:
  "copy_data rd wr p q sz m =
     (if sz > 4 then copy_data rd wr (p + 4) (q + 4) (sz - 4) (wr32 wr q (rd32 rd m p) m)
      else copy_bytes rd wr p q sz m)"
  by (simp add: copy_data_def copy_dwords.simps [of rd wr p q sz m])

text \<open>
  A memory: reads and writes of bytes at addresses, where \<open>loc\<close> is the physical location
  an address denotes. Two addresses may denote the same location.
\<close>

locale byte_memory =
  fixes rd :: "'m \<Rightarrow> ptr \<Rightarrow> Byte"
    and wr :: "ptr \<Rightarrow> Byte \<Rightarrow> 'm \<Rightarrow> 'm"
    and loc :: "ptr \<Rightarrow> 'l"
  assumes rd_wr: "rd (wr a v m) b = (if loc b = loc a then v else rd m b)"
begin

text \<open>\<open>apart p q n\<close>: the \<open>n\<close> bytes at \<open>q\<close> are different locations, none of them among the
  \<open>n\<close> bytes at \<open>p\<close>.\<close>

definition apart :: "ptr \<Rightarrow> ptr \<Rightarrow> nat \<Rightarrow> bool" where
  "apart p q n \<longleftrightarrow>
     (\<forall>i<n. \<forall>j<n. loc (q + of_nat i) = loc (q + of_nat j) \<longrightarrow> i = j) \<and>
     (\<forall>i<n. \<forall>j<n. loc (q + of_nat i) \<noteq> loc (p + of_nat j))"

text \<open>\<open>copied p q n m m'\<close>: \<open>m'\<close> is \<open>m\<close> with the \<open>n\<close> bytes at \<open>p\<close> copied to \<open>q\<close>.\<close>

definition copied :: "ptr \<Rightarrow> ptr \<Rightarrow> nat \<Rightarrow> 'm \<Rightarrow> 'm \<Rightarrow> bool" where
  "copied p q n m m' \<longleftrightarrow>
     (\<forall>i<n. rd m' (q + of_nat i) = rd m (p + of_nat i)) \<and>
     (\<forall>a. (\<forall>i<n. loc a \<noteq> loc (q + of_nat i)) \<longrightarrow> rd m' a = rd m a)"

lemma apart_split:
  assumes "apart p q (k + n)"
  shows "apart p q k" and "apart (p + of_nat k) (q + of_nat k) n"
proof -
  show "apart p q k" using assms by (auto simp: apart_def)
  have *: "\<And>(a::ptr) i. a + of_nat k + of_nat i = a + of_nat (k + i)" by (simp add: add.assoc)
  show "apart (p + of_nat k) (q + of_nat k) n"
    using assms unfolding apart_def * by (metis add_left_cancel nat_add_left_cancel_less)
qed

lemma copied_trans:
  assumes ap: "apart p q (k + n)"
    and 1: "copied p q k m m1" and 2: "copied (p + of_nat k) (q + of_nat k) n m1 m2"
  shows "copied p q (k + n) m m2"
proof -
  have sh: "\<And>(a::ptr) i. a + of_nat k + of_nat i = a + of_nat (k + i)" by (simp add: add.assoc)
  have "rd m2 (q + of_nat i) = rd m (p + of_nat i)" if i: "i < k + n" for i
  proof (cases "i < k")
    case True
    have "loc (q + of_nat i) \<noteq> loc (q + of_nat k + of_nat j)" if "j < n" for j
    proof
      assume "loc (q + of_nat i) = loc (q + of_nat k + of_nat j)"
      then have "i = k + j" using ap i that unfolding apart_def sh by (metis nat_add_left_cancel_less)
      with True show False by simp
    qed
    then show ?thesis using 1 2 True by (simp add: copied_def)
  next
    case False
    then obtain j where j: "i = k + j" "j < n" using i by (metis le_Suc_ex linorder_not_less nat_add_left_cancel_less)
    have "loc (p + of_nat i) \<noteq> loc (q + of_nat u)" if "u < k" for u
      using ap i that by (force simp: apart_def dest: sym)
    then have "rd m1 (p + of_nat i) = rd m (p + of_nat i)" using 1 by (simp add: copied_def)
    with 2 j show ?thesis by (simp add: copied_def sh)
  qed
  moreover have "rd m2 a = rd m a" if "\<forall>i<k + n. loc a \<noteq> loc (q + of_nat i)" for a
  proof -
    have "\<forall>i<n. loc a \<noteq> loc (q + of_nat k + of_nat i)"
      using that unfolding sh by (metis nat_add_left_cancel_less)
    then have "rd m2 a = rd m1 a" using 2 by (simp add: copied_def)
    also have "\<dots> = rd m a" using that 1 by (simp add: copied_def)
    finally show ?thesis .
  qed
  ultimately show ?thesis by (simp add: copied_def)
qed

lemma copied_0 [simp]: "copied p q 0 m m"
  by (simp add: copied_def)

lemma copied_1: "copied p q 1 m (wr q (rd m p) m)"
  by (simp add: copied_def rd_wr)

lemma copied_4:
  assumes "apart p q 4"
  shows "copied p q 4 m (wr32 wr q (rd32 rd m p) m)"
proof -
  have n4: "\<And>i. i < (4::nat) \<longleftrightarrow> i = 0 \<or> i = 1 \<or> i = 2 \<or> i = 3" by auto
  show ?thesis
    using assms unfolding copied_def wr32_def rd_wr n4 apart_def by (auto simp: n4)
qed

lemma copy_bytes_copied:
  "apart p q n \<Longrightarrow> copied p q n m (copy_bytes rd wr p q (int n) m)"
proof (induction n arbitrary: p q m)
  case 0
  then show ?case by (simp add: copy_bytes.simps)
next
  case (Suc n)
  have ap: "apart p q (1 + n)" using Suc.prems by simp
  have "copied (p + of_nat 1) (q + of_nat 1) n (wr q (rd m p) m)
      (copy_bytes rd wr (p + of_nat 1) (q + of_nat 1) (int n) (wr q (rd m p) m))"
    using apart_split(2) [OF ap] by (rule Suc.IH)
  then have "copied p q (1 + n) m
      (copy_bytes rd wr (p + of_nat 1) (q + of_nat 1) (int n) (wr q (rd m p) m))"
    by (rule copied_trans [OF ap copied_1])
  then show ?case by (subst copy_bytes.simps) simp
qed

lemma copy_data_copied:
  "apart p q n \<Longrightarrow> copied p q n m (copy_data rd wr p q (int n) m)"
proof (induction n arbitrary: p q m rule: less_induct)
  case (less n)
  show ?case
  proof (cases "n > 4")
    case True
    then obtain k where n: "n = 4 + k" by (metis less_imp_add_positive)
    have ap: "apart p q (4 + k)" using less.prems n by simp
    have "copied (p + of_nat 4) (q + of_nat 4) k (wr32 wr q (rd32 rd m p) m)
        (copy_data rd wr (p + of_nat 4) (q + of_nat 4) (int k) (wr32 wr q (rd32 rd m p) m))"
      using apart_split(2) [OF ap] n by (intro less.IH) auto
    then have "copied p q (4 + k) m
        (copy_data rd wr (p + of_nat 4) (q + of_nat 4) (int k) (wr32 wr q (rd32 rd m p) m))"
      by (rule copied_trans [OF ap copied_4 [OF apart_split(1) [OF ap]]])
    with True n show ?thesis by (subst copy_data_unfold) simp
  next
    case False
    with less.prems show ?thesis by (subst copy_data_unfold) (simp add: copy_bytes_copied)
  qed
qed

lemma copy_data_nonpos: "sz \<le> 0 \<Longrightarrow> copy_data rd wr p q sz m = m"
  by (subst copy_data_unfold) (simp add: copy_bytes.simps)

lemma rd_memset_loop:
  assumes "0 \<le> i" "i \<le> sz"
  shows "rd (memset_loop wr s c sz i m) a =
    (if \<exists>k. i \<le> k \<and> k < sz \<and> loc a = loc (s + word_of_int k) then c else rd m a)"
  using assms
proof (induction "nat (sz - i)" arbitrary: i m)
  case 0
  then show ?case by (subst memset_loop.simps) auto
next
  case (Suc n)
  then have lt: "i < sz" and IH: "rd (memset_loop wr s c sz (i + 1) (wr (s + word_of_int i) c m)) a =
    (if \<exists>k. i + 1 \<le> k \<and> k < sz \<and> loc a = loc (s + word_of_int k) then c
     else rd (wr (s + word_of_int i) c m) a)" by auto
  have "(\<exists>k. i \<le> k \<and> k < sz \<and> loc a = loc (s + word_of_int k)) \<longleftrightarrow>
      (\<exists>k. i + 1 \<le> k \<and> k < sz \<and> loc a = loc (s + word_of_int k)) \<or> loc a = loc (s + word_of_int i)"
    using lt by (metis add1_zle_eq order_le_less zless_imp_add1_zle)
  moreover have "memset_loop wr s c sz i m =
      memset_loop wr s c sz (i + 1) (wr (s + word_of_int i) c m)"
    using lt by (subst memset_loop.simps) simp
  ultimately show ?case by (simp only: IH rd_wr) auto
qed

end

text \<open>Flat memory: every address is its own location.\<close>

definition flat_rd :: "(ptr \<Rightarrow> Byte) \<Rightarrow> ptr \<Rightarrow> Byte" where
  "flat_rd m a = m a"

definition flat_wr :: "ptr \<Rightarrow> Byte \<Rightarrow> (ptr \<Rightarrow> Byte) \<Rightarrow> ptr \<Rightarrow> Byte" where
  "flat_wr a v m = m(a := v)"

interpretation flat: byte_memory flat_rd flat_wr "\<lambda>a. a"
  by unfold_locales (simp add: flat_rd_def flat_wr_def)

lemma flat_apart:
  assumes "unat p + n \<le> 2 ^ 32" and "unat q + n \<le> 2 ^ 32"
    and "unat p + n \<le> unat q \<or> unat q + n \<le> unat p"
  shows "flat.apart p q n"
proof -
  have u: "unat (a + of_nat i) = unat a + i" if "unat a + n \<le> 2 ^ 32" "i < n" for a :: ptr and i
    using that by (subst unat_plus_word32) (simp_all add: unat_of_nat)
  show ?thesis
    unfolding flat.apart_def
    using assms by (auto simp: u dest!: arg_cong [where f = unat])
qed

section \<open>Pointer checks are what they are\<close>

lemma drop_bit_12_le_iff:
  fixes a b :: "32 word"
  shows "drop_bit 12 a \<le> drop_bit 12 b \<longleftrightarrow> unat a div 4096 \<le> unat b div 4096"
  by (simp add: word_le_nat_alt unsigned_drop_bit_eq drop_bit_eq_div unat_div)

lemma drop_bit_12_le_of_nat:
  fixes a :: "32 word"
  assumes "n < 2 ^ 32"
  shows "drop_bit 12 a \<le> of_nat n \<longleftrightarrow> unat a div 4096 \<le> n"
    and "of_nat n \<le> drop_bit 12 a \<longleftrightarrow> n \<le> unat a div 4096"
  using assms by (simp_all add: word_le_nat_alt unsigned_drop_bit_eq drop_bit_eq_div unat_div unat_of_nat)

lemma access_ok_iff:
  assumes nw: "unat a + unat n < 2 ^ 32"
  shows "access_ok ty a n t \<longleftrightarrow>
     L_USER_START \<le> unat a \<and> unat a + unat n < DATA_END + PAGE_SIZE \<or>
     (case t of None \<Rightarrow> False
      | Some (hs, he) \<Rightarrow> unat hs div 4096 \<le> unat a div 4096 \<and>
          (unat a + unat n) div 4096 \<le> unat he div 4096)"
proof -
  have s: "unat (a + n) = unat a + unat n" using nw by (rule unat_plus_word32)
  have mono: "unat a div 4096 \<le> unat (a + n) div 4096" by (simp add: s div_le_mono)
  have lo: "256 \<le> unat a div 4096 \<longleftrightarrow> 0x100000 \<le> unat a" by linarith
  have hi: "unat (a + n) div 4096 \<le> 284 \<longleftrightarrow> unat a + unat n < 0x11D000" unfolding s by linarith
  have "\<not> drop_bit 12 (a + n) < drop_bit 12 a"
    using mono by (simp add: not_less drop_bit_12_le_iff)
  then show ?thesis
    using lo hi
    by (auto simp: access_ok_def Let_def layout_consts drop_bit_12_le_iff s
        drop_bit_12_le_of_nat [where n = 256, simplified] drop_bit_12_le_of_nat [where n = 264, simplified]
        drop_bit_12_le_of_nat [where n = 284, simplified] split: option.splits)
qed

section \<open>The tick counter is a division\<close>

lemma unat_word64_less: "unat (a :: 64 word) < 2 ^ 64"
proof -
  have "(unsigned a :: nat) < 2 ^ LENGTH(64)" by (rule unsigned_less)
  then show ?thesis by simp
qed

lemma unat_ucast_64_32: "unat (ucast (n :: 64 word) :: 32 word) = unat n mod 2 ^ 32"
  by (simp add: unsigned_ucast_eq take_bit_eq_mod)

lemma unat_ucast_32_64: "unat (ucast (n :: 32 word) :: 64 word) = unat n"
  using unat_word32_less [of n] by (simp add: unsigned_ucast_eq take_bit_nat_eq_self_iff)

lemma split64:
  "unat (n :: 64 word) = unat (ucast (drop_bit 32 n) :: 32 word) * 2 ^ 32 + unat (ucast n :: 32 word)"
proof -
  have "unat n div 2 ^ 32 < 2 ^ 32"
    using unat_word64_less [of n] by (intro less_mult_imp_div_less) (simp flip: power_add)
  then show ?thesis
    by (simp add: unat_ucast_64_32 unat_drop_bit_eq drop_bit_eq_div unat_div)
qed

lemma join64:
  "unat (push_bit 32 (ucast (h :: 32 word)) OR ucast (l :: 32 word) :: 64 word) = unat h * 2 ^ 32 + unat l"
proof -
  have "unat h * 2 ^ 32 \<le> (2 ^ 32 - 1) * 2 ^ 32" using unat_word32_less [of h] by (intro mult_right_mono) simp_all
  then have lt: "unat h * 2 ^ 32 + unat l < 2 ^ 64" using unat_word32_less [of l] by simp
  have "push_bit 32 (ucast h) AND ucast l = (0 :: 64 word)"
    by (rule bit_word_eqI) (auto simp: bit_simps dest: bit_imp_le_length)
  then have "push_bit 32 (ucast h) OR ucast l = (push_bit 32 (ucast h) + ucast l :: 64 word)"
    by (simp add: disjunctive_add_eq_or)
  also have "unat \<dots> = unat h * 2 ^ 32 + unat l"
    using lt unat_word32_less [of h] by (simp add: push_bit_eq_mult unat_word_ariths unat_ucast_32_64)
  finally show ?thesis .
qed

text \<open>Schoolbook division of two digits: the remainder of the high one goes in front of the low one.\<close>

lemma two_digit_division:
  fixes H L B :: nat
  assumes "0 < B" "L < 2 ^ 32"
  shows "(H mod B * 2 ^ 32 + L) div B < 2 ^ 32" and "H * 2 ^ 32 + L = (H div B * 2 ^ 32) * B + (H mod B * 2 ^ 32 + L)"
proof -
  have "H mod B + 1 \<le> B" using assms(1) by (simp add: Suc_leI)
  then have "(H mod B + 1) * 2 ^ 32 \<le> B * 2 ^ 32" by (rule mult_right_mono) simp
  with assms(2) have "H mod B * 2 ^ 32 + L < B * 2 ^ 32" by simp
  then show "(H mod B * 2 ^ 32 + L) div B < 2 ^ 32" by (simp add: less_mult_imp_div_less mult.commute)
  obtain q r where qr: "q = H div B" "r = H mod B" by blast
  then have "H = q * B + r" by simp
  then have "H * 2 ^ 32 + L = (q * 2 ^ 32) * B + (r * 2 ^ 32 + L)" by (simp add: algebra_simps)
  then show "H * 2 ^ 32 + L = (H div B * 2 ^ 32) * B + (H mod B * 2 ^ 32 + L)" by (simp only: qr)
qed

lemma do_div_correct:
  assumes "b \<noteq> 0"
  shows "do_div n b = Some (n div ucast b, ucast (n mod ucast b))"
proof -
  define high low where "high = (ucast (drop_bit 32 n) :: DWord)" and "low = (ucast n :: DWord)"
  define H L B where "H = unat high" and "L = unat low" and "B = unat b"
  have B: "0 < B" using assms by (simp add: B_def unat_gt_0)
  have L: "L < 2 ^ 32" by (simp add: L_def unat_word32_less [simplified])
  have n: "unat n = H * 2 ^ 32 + L" unfolding H_def L_def high_def low_def by (rule split64)
  have up: "unat (if high \<noteq> 0 then high mod b else high) = H mod B"
    and hi: "unat (if high \<noteq> 0 then high div b else high) = H div B"
    by (simp_all add: H_def B_def unat_mod unat_div)
  define D where "D = H mod B * 2 ^ 32 + L"
  have q: "D div B < 2 ^ 32" and nD: "H * 2 ^ 32 + L = (H div B * 2 ^ 32) * B + D"
    unfolding D_def by (rule two_digit_division [OF B L])+
  have dv: "unat n div B = H div B * 2 ^ 32 + D div B" and md: "unat n mod B = D mod B"
    using B unfolding n nD by simp_all
  have "divl (if high \<noteq> 0 then high mod b else high) low b = Some (of_nat (D div B), of_nat (D mod B))"
    using assms q by (simp add: divl_def up Let_def flip: D_def L_def B_def) (simp add: D_def)
  then have "do_div n b = Some (push_bit 32 (ucast (if high \<noteq> 0 then high div b else high))
      OR ucast (of_nat (D div B) :: DWord), of_nat (D mod B))"
    by (simp add: do_div_def Let_def flip: high_def low_def)
  moreover have "push_bit 32 (ucast (if high \<noteq> 0 then high div b else high))
      OR ucast (of_nat (D div B) :: DWord) = n div ucast b"
    by (rule word_unat_eq_iff [THEN iffD2])
      (simp only: join64 hi unat_div unat_ucast_32_64 B_def [symmetric] dv unat_of_nat_word32 [OF q])
  moreover have "(of_nat (D mod B) :: DWord) = ucast (n mod ucast b)"
  proof (rule word_unat_eq_iff [THEN iffD2])
    have "D mod B < 2 ^ 32" using B unat_word32_less [of b] mod_less_divisor [of B D] unfolding B_def by linarith
    then show "unat (of_nat (D mod B) :: DWord) = unat (ucast (n mod ucast b) :: DWord)"
      by (simp add: unat_ucast_64_32 unat_mod unat_ucast_32_64 md flip: B_def)
  qed
  ultimately show ?thesis by simp
qed

lemma get_ticks_eq: "get_ticks tsc = of_nat (unat tsc div 109000)"
proof -
  have t: "push_bit 32 (ucast (ucast (drop_bit 32 tsc) :: DWord)) + ucast (ucast tsc :: DWord) = tsc"
    (is "?a + ?b = _")
  proof -
    have "?a AND ?b = 0"
      by (rule bit_word_eqI) (auto simp: bit_simps dest: bit_imp_le_length)
    then have "?a + ?b = ?a OR ?b" by (simp add: disjunctive_add_eq_or)
    also have "\<dots> = tsc"
      by (rule word_unat_eq_iff [THEN iffD2]) (simp only: join64 split64 [of tsc])
    finally show ?thesis .
  qed
  have "get_ticks tsc = ucast (tsc div ucast (109000 :: DWord))"
    by (simp add: get_ticks_def Let_def t CYCLESPERTICK_def do_div_correct)
  also have "\<dots> = of_nat (unat tsc div 109000)"
    by (rule word_unat_eq_iff [THEN iffD2])
      (simp add: unat_ucast_64_32 unat_div unat_ucast_32_64 unat_of_nat)
  finally show ?thesis .
qed

section \<open>Properties\<close>

text \<open>C12: \<open>copy_data\<close>, and with it \<open>copy_from_user\<close> and \<open>copy_to_user\<close>, which return 0, copy exactly
  the \<open>n\<close> bytes of the source range to the destination range and change no other byte, for
  ranges that do not wrap around and do not overlap, although most of the work is done four
  bytes at a time.\<close>

theorem copy_data_spec:
  assumes "unat p + n \<le> 2 ^ 32" and "unat q + n \<le> 2 ^ 32"
    and "unat p + n \<le> unat q \<or> unat q + n \<le> unat p"
  shows "copy_data flat_rd flat_wr p q (int n) m =
      (\<lambda>a. if unat q \<le> unat a \<and> unat a < unat q + n then m (p + (a - q)) else m a) \<and>
    copy_from_user flat_rd flat_wr p q (int n) m = (0, copy_data flat_rd flat_wr p q (int n) m) \<and>
    copy_to_user flat_rd flat_wr p q (int n) m = (0, copy_data flat_rd flat_wr p q (int n) m)"
proof (intro conjI ext)
  fix a
  have c: "flat.copied p q n m (copy_data flat_rd flat_wr p q (int n) m)"
    using flat.copy_data_copied [OF flat_apart [OF assms]] .
  show "copy_data flat_rd flat_wr p q (int n) m a =
      (if unat q \<le> unat a \<and> unat a < unat q + n then m (p + (a - q)) else m a)"
  proof (cases "unat q \<le> unat a \<and> unat a < unat q + n")
    case True
    define i where "i = unat (a - q)"
    have "i = unat a - unat q" using True by (simp add: i_def unat_sub word_le_nat_alt)
    then have "i < n" using True by auto
    then have "copy_data flat_rd flat_wr p q (int n) m (q + of_nat i) = m (p + of_nat i)"
      using c by (simp add: flat.copied_def flat_rd_def)
    with True show ?thesis by (simp add: i_def)
  next
    case False
    have "a \<noteq> q + of_nat i" if "i < n" for i
    proof
      assume "a = q + of_nat i"
      moreover have "unat (q + of_nat i) = unat q + i"
        using assms(2) that by (subst unat_plus_word32) (simp_all add: unat_of_nat)
      ultimately show False using False that by simp
    qed
    then have "copy_data flat_rd flat_wr p q (int n) m a = m a"
      using c by (simp add: flat.copied_def flat_rd_def)
    with False show ?thesis by auto
  qed
qed (simp_all add: copy_from_user_def copy_to_user_def copy_data_def split: prod.splits)

theorem copy_data_spec_witness:
  "copy_data flat_rd flat_wr 0x1000 0x2000 (int 7) (\<lambda>a. ucast a) 0x2005 = 5 \<and>
   copy_data flat_rd flat_wr 0x1000 0x2000 (int 7) (\<lambda>a. ucast a) 0x2007 = 7"
  using copy_data_spec [of "0x1000" 7 "0x2000" "\<lambda>a. ucast a"] by simp

text \<open>C13: For a block that does not wrap around, \<open>access_ok\<close> accepts exactly the blocks that start
  at or after \<open>L_USER_START\<close> and end before \<open>DATA_END + PAGE_SIZE\<close>, or whose pages lie in the
  heap range of the given task. The page after the data region, which is not mapped, is
  accepted too.\<close>

theorem access_ok_exact:
  assumes "unat a + unat n < 2 ^ 32"
  shows "access_ok ty a n t \<longleftrightarrow>
     L_USER_START \<le> unat a \<and> unat a + unat n < DATA_END + PAGE_SIZE \<or>
     (case t of None \<Rightarrow> False
      | Some (hs, he) \<Rightarrow> unat hs div 4096 \<le> unat a div 4096 \<and>
          (unat a + unat n) div 4096 \<le> unat he div 4096)"
  using assms by (rule access_ok_iff)

theorem access_ok_exact_witness:
  "access_ok VERIFY_READ 0x11C000 0xFFF None \<and> \<not> access_ok VERIFY_READ 0x11C000 0x1000 None"
  using access_ok_exact [of "0x11C000" "0xFFF" VERIFY_READ None]
    access_ok_exact [of "0x11C000" "0x1000" VERIFY_READ None] by (simp add: layout_consts)

text \<open>Because the \<open>VERIFY_WRITE\<close> case of \<open>access_ok\<close> falls through, a write check succeeds
  exactly when a read check does: user pointers into the code pages pass as writable.\<close>

theorem access_ok_write_is_read:
  "access_ok VERIFY_WRITE addr sz task = access_ok VERIFY_READ addr sz task"
proof -
  have "of_nat USER_FIRST_PAGE \<le> a" if "of_nat (USER_FIRST_PAGE + NUM_PAG_CODE) \<le> a" for a :: DWord
    using order_trans [OF _ that] by (simp add: layout_consts)
  then show ?thesis
    unfolding access_ok_def Let_def VERIFY_READ_def VERIFY_WRITE_def by auto
qed

text \<open>C14: The macro \<open>do_div\<close> never faults for a non-zero divisor, although it chains two 32-bit
  divisions: it leaves the full 64-bit quotient in the dividend and returns the remainder.
  Hence \<open>get_ticks\<close> is the time stamp counter divided by \<open>CYCLESPERTICK\<close>, modulo \<open>2^32\<close>.\<close>

theorem do_div_get_ticks:
  assumes "b \<noteq> 0"
  shows "do_div n b = Some (n div ucast b, ucast (n mod ucast b)) \<and>
    get_ticks tsc = of_nat (unat tsc div 109000)"
  using do_div_correct [OF assms] get_ticks_eq by auto

theorem do_div_get_ticks_witness:
  "do_div 0x500000007 0x10 = Some (0x50000000, 7)"
  using do_div_get_ticks [of "0x10" "0x500000007"] by simp

end
