(* ===== verification/Zeos_Mm.thy ===== *)
theory Zeos_Mm
  imports Zeos_Prelude
begin

text \<open>
  \<open>mm.c\<close>: page-table entries as the bit fields of \<open>include/types.h\<close>, the page directories
  and page tables of the tasks, and the byte map of physical frames. Page-table entries
  are kept by address, so \<open>PT[page]\<close> is the entry at \<open>PT + 4 * page\<close> also when the index is
  out of range, as in the code.
\<close>

section \<open>Page-table entries\<close>

type_synonym page_table_entry = DWord

definition pte_present :: "page_table_entry \<Rightarrow> bool" where "pte_present e = bit e 0"
definition pte_rw :: "page_table_entry \<Rightarrow> bool" where "pte_rw e = bit e 1"
definition pte_user :: "page_table_entry \<Rightarrow> bool" where "pte_user e = bit e 2"
definition pbase_addr :: "page_table_entry \<Rightarrow> DWord" where "pbase_addr e = drop_bit 12 e"

text \<open>The assignments \<open>bits.present = 1\<close>, \<open>bits.present = 0\<close>, \<open>bits.rw = 1\<close>, \<open>bits.user = 1\<close> and
  \<open>bits.pbase_addr = f\<close>; the last one keeps the low 20 bits of \<open>f\<close>.\<close>

definition set_present :: "page_table_entry \<Rightarrow> page_table_entry" where
  "set_present e = set_bit 0 e"

definition clear_present :: "page_table_entry \<Rightarrow> page_table_entry" where
  "clear_present e = unset_bit 0 e"

definition set_rw :: "page_table_entry \<Rightarrow> page_table_entry" where
  "set_rw e = set_bit 1 e"

definition set_user :: "page_table_entry \<Rightarrow> page_table_entry" where
  "set_user e = set_bit 2 e"

definition set_pbase_addr :: "DWord \<Rightarrow> page_table_entry \<Rightarrow> page_table_entry" where
  "set_pbase_addr f e = take_bit 12 e OR push_bit 12 f"

lemmas pte_defs = pte_present_def pte_rw_def pte_user_def pbase_addr_def set_present_def
  clear_present_def set_rw_def set_user_def set_pbase_addr_def

section \<open>State\<close>

record mm_state =
  phys_mem :: "Byte list"
  ptes :: "ptr \<Rightarrow> page_table_entry"
  cr3 :: ptr
  cr0 :: DWord

definition FREE_FRAME :: Byte where "FREE_FRAME = 0"
definition USED_FRAME :: Byte where "USED_FRAME = 1"

text \<open>\<open>PT[page]\<close>, and the assignment of one of its fields.\<close>

definition pt_slot :: "ptr \<Rightarrow> DWord \<Rightarrow> ptr" where
  "pt_slot PT page = PT + 4 * page"

definition pte_upd :: "ptr \<Rightarrow> (page_table_entry \<Rightarrow> page_table_entry) \<Rightarrow> mm_state \<Rightarrow> mm_state" where
  "pte_upd a f m = m\<lparr>ptes := (ptes m)(a := f (ptes m a))\<rparr>"

text \<open>The arrays \<open>dir_pages[i]\<close> and \<open>pagusr_table[i]\<close>.\<close>

definition dir_pages :: "symtab \<Rightarrow> nat \<Rightarrow> ptr" where
  "dir_pages L i = sym_dir_pages L + of_nat (i * PAGE_SIZE)"

definition pagusr_table :: "symtab \<Rightarrow> nat \<Rightarrow> ptr" where
  "pagusr_table L i = sym_pagusr_table L + of_nat (i * PAGE_SIZE)"

definition protected_tasks :: "symtab \<Rightarrow> nat \<Rightarrow> ptr" where
  "protected_tasks L i = sym_protected_tasks L + of_nat (i * PAGE_SIZE)"

section \<open>Paging\<close>

definition init_dir_pages :: "symtab \<Rightarrow> mm_state \<Rightarrow> mm_state" where
  "init_dir_pages L m =
     fold (\<lambda>i m.
         let a = pt_slot (dir_pages L i) 0;
             m = pte_upd a (\<lambda>_. 0) m;
             m = pte_upd a (set_pbase_addr (drop_bit 12 (pagusr_table L i))) m;
             m = pte_upd a set_user m;
             m = pte_upd a set_rw m
         in pte_upd a set_present m) [0..<NR_TASKS] m"

definition init_table_pages :: "symtab \<Rightarrow> mm_state \<Rightarrow> mm_state" where
  "init_table_pages L m =
     fold (\<lambda>j m.
         let m = fold (\<lambda>i. pte_upd (pt_slot (pagusr_table L j) (of_nat i)) (\<lambda>_. 0))
                   [0..<TOTAL_PAGES] m;
             m = fold (\<lambda>i m.
                   let a = pt_slot (pagusr_table L j) (of_nat i);
                       m = pte_upd a (set_pbase_addr (of_nat i)) m;
                       m = pte_upd a set_rw m
                   in pte_upd a set_present m) [1..<NUM_PAG_KERNEL] m;
             m = pte_upd (pt_slot (pagusr_table L j) (drop_bit 12 (protected_tasks L 0)))
                   clear_present m
         in pte_upd (pt_slot (pagusr_table L j) (drop_bit 12 (protected_tasks L 11)))
              clear_present m) [0..<NR_TASKS] m"

definition set_cr3 :: "ptr \<Rightarrow> mm_state \<Rightarrow> mm_state" where
  "set_cr3 dir m = m\<lparr>cr3 := dir\<rparr>"

definition set_pe_flag :: "mm_state \<Rightarrow> mm_state" where
  "set_pe_flag m = m\<lparr>cr0 := cr0 m OR 0x80000000\<rparr>"

section \<open>Frames\<close>

definition init_frames :: "mm_state \<Rightarrow> mm_state" where
  "init_frames m =
     (let m = fold (\<lambda>i m. m\<lparr>phys_mem := (phys_mem m)[i := FREE_FRAME]\<rparr>) [0..<TOTAL_PAGES] m
      in fold (\<lambda>i m. m\<lparr>phys_mem := (phys_mem m)[i := USED_FRAME]\<rparr>) [0..<NUM_PAG_KERNEL] m)"

text \<open>The search loop of \<open>alloc_frame\<close>, which looks at every second frame.\<close>

function alloc_frame_from :: "nat \<Rightarrow> mm_state \<Rightarrow> int \<times> mm_state" where
  "alloc_frame_from i m =
     (if i < TOTAL_PAGES then
        if phys_mem m ! i = FREE_FRAME
        then (int i, m\<lparr>phys_mem := (phys_mem m)[i := USED_FRAME]\<rparr>)
        else alloc_frame_from (i + 2) m
      else (-1, m))"
  by pat_completeness auto
termination
  by (relation "measure (\<lambda>(i, m). TOTAL_PAGES - i)") auto

declare alloc_frame_from.simps [simp del]

definition alloc_frame :: "mm_state \<Rightarrow> int \<times> mm_state" where
  "alloc_frame m = alloc_frame_from NUM_PAG_KERNEL m"

definition free_frame :: "DWord \<Rightarrow> mm_state \<Rightarrow> mm_state" where
  "free_frame frame m =
     (if frame > of_nat NUM_PAG_KERNEL \<and> frame < of_nat TOTAL_PAGES
      then m\<lparr>phys_mem := (phys_mem m)[unat frame := FREE_FRAME]\<rparr> else m)"

definition set_ss_pag :: "ptr \<Rightarrow> DWord \<Rightarrow> DWord \<Rightarrow> mm_state \<Rightarrow> mm_state" where
  "set_ss_pag PT page frame m =
     (let a = pt_slot PT page;
          m = pte_upd a (\<lambda>_. 0) m;
          m = pte_upd a (set_pbase_addr frame) m;
          m = pte_upd a set_user m;
          m = pte_upd a set_rw m
      in pte_upd a set_present m)"

definition del_ss_pag :: "ptr \<Rightarrow> DWord \<Rightarrow> mm_state \<Rightarrow> mm_state" where
  "del_ss_pag PT logical_page m = pte_upd (pt_slot PT logical_page) (\<lambda>_. 0) m"

definition get_frame :: "ptr \<Rightarrow> DWord \<Rightarrow> mm_state \<Rightarrow> DWord" where
  "get_frame PT logical_page m = pbase_addr (ptes m (pt_slot PT logical_page))"

text \<open>\<open>set_user_pages\<close> and \<open>free_user_pages\<close>, given the page table \<open>get_PT\<close> returns for the task.
  The frame number is stored unchecked: \<open>-1\<close> becomes the 20-bit frame \<open>0xfffff\<close>.\<close>

definition set_user_pages :: "ptr \<Rightarrow> mm_state \<Rightarrow> mm_state" where
  "set_user_pages process_PT m =
     (let m = fold (\<lambda>pag m.
                case alloc_frame m of (new_ph_pag, m) \<Rightarrow>
                  let a = pt_slot process_PT (of_nat (PAG_LOG_INIT_CODE + pag));
                      m = pte_upd a (\<lambda>_. 0) m;
                      m = pte_upd a (set_pbase_addr (dword_of_int new_ph_pag)) m;
                      m = pte_upd a set_user m
                  in pte_upd a set_present m) [0..<NUM_PAG_CODE] m
      in fold (\<lambda>pag m.
                case alloc_frame m of (new_ph_pag, m) \<Rightarrow>
                  let a = pt_slot process_PT (of_nat (PAG_LOG_INIT_DATA + pag));
                      m = pte_upd a (\<lambda>_. 0) m;
                      m = pte_upd a (set_pbase_addr (dword_of_int new_ph_pag)) m;
                      m = pte_upd a set_user m;
                      m = pte_upd a set_rw m
                  in pte_upd a set_present m) [0..<NUM_PAG_DATA] m)"

definition free_user_pages :: "ptr \<Rightarrow> mm_state \<Rightarrow> mm_state" where
  "free_user_pages process_PT m =
     fold (\<lambda>pag m.
         let a = pt_slot process_PT (of_nat (PAG_LOG_INIT_DATA + pag));
             m = free_frame (pbase_addr (ptes m a)) m
         in pte_upd a (\<lambda>_. 0) m) [0..<NUM_PAG_DATA] m"

section \<open>Lemmas on entries\<close>

lemma pbase_addr_set [simp]: "pbase_addr (set_pbase_addr f e) = take_bit 20 f"
  by (rule bit_word_eqI) (auto simp: pte_defs bit_simps)

lemma pbase_addr_flags [simp]:
  "pbase_addr (set_present e) = pbase_addr e" "pbase_addr (clear_present e) = pbase_addr e"
  "pbase_addr (set_rw e) = pbase_addr e" "pbase_addr (set_user e) = pbase_addr e"
  by (rule bit_word_eqI; auto simp: pte_defs bit_simps)+

lemma pte_flags_set [simp]:
  "pte_present (set_present e)" "\<not> pte_present (clear_present e)"
  "pte_rw (set_rw e)" "pte_user (set_user e)"
  by (simp_all add: pte_defs bit_simps)

lemma pte_flags_other [simp]:
  "pte_present (set_rw e) = pte_present e" "pte_present (set_user e) = pte_present e"
  "pte_present (set_pbase_addr f e) = pte_present e"
  "pte_rw (set_present e) = pte_rw e" "pte_rw (clear_present e) = pte_rw e"
  "pte_rw (set_user e) = pte_rw e" "pte_rw (set_pbase_addr f e) = pte_rw e"
  "pte_user (set_present e) = pte_user e" "pte_user (clear_present e) = pte_user e"
  "pte_user (set_rw e) = pte_user e" "pte_user (set_pbase_addr f e) = pte_user e"
  by (simp_all add: pte_defs bit_simps)

lemma pte_zero [simp]:
  "\<not> pte_present 0" "\<not> pte_rw 0" "\<not> pte_user 0" "pbase_addr 0 = 0"
  by (simp_all add: pte_defs)

lemma clear_present_idem [simp]: "clear_present (clear_present e) = clear_present e"
  by (rule bit_word_eqI) (auto simp: pte_defs bit_simps)

lemma ptes_pte_upd [simp]: "ptes (pte_upd a f m) b = (if b = a then f (ptes m b) else ptes m b)"
  by (simp add: pte_upd_def)

lemma pte_upd_frame [simp]:
  "phys_mem (pte_upd a f m) = phys_mem m" "cr3 (pte_upd a f m) = cr3 m"
  "cr0 (pte_upd a f m) = cr0 m"
  by (simp_all add: pte_upd_def)

lemma pte_upd_twice [simp]: "pte_upd a g (pte_upd a f m) = pte_upd a (\<lambda>e. g (f e)) m"
  by (simp add: pte_upd_def)

lemma ptes_fold_pte_upd:
  "ptes (fold (\<lambda>i. pte_upd (f i) (g i)) xs m) a =
     fold (\<lambda>i e. if a = f i then g i e else e) xs (ptes m a)"
  by (induction xs arbitrary: m) auto

lemma fold_if_none: "(\<And>i. i \<in> set xs \<Longrightarrow> \<not> P i) \<Longrightarrow> fold (\<lambda>i e. if P i then g i e else e) xs e = e"
  by (induction xs arbitrary: e) auto

lemma fold_if_one:
  assumes "distinct xs" and "k \<in> set xs" and "\<And>i. i \<in> set xs \<Longrightarrow> P i \<longleftrightarrow> i = k"
  shows "fold (\<lambda>i e. if P i then g i e else e) xs e = g k e"
proof -
  from assms(2) obtain us vs where xs: "xs = us @ k # vs" by (auto simp: in_set_conv_decomp)
  have "fold (\<lambda>i e. if P i then g i e else e) us e = e"
    by (rule fold_if_none) (use assms xs in auto)
  moreover have "fold (\<lambda>i e. if P i then g i e else e) vs (g k e) = g k e"
    by (rule fold_if_none) (use assms xs in auto)
  ultimately show ?thesis using assms(3) by (simp add: xs)
qed

lemma fold_if_at:
  assumes "distinct xs" and "\<And>i. i \<in> set xs \<Longrightarrow> P i \<longleftrightarrow> Q \<and> i = k"
  shows "fold (\<lambda>i e. if P i then g i e else e) xs e = (if Q \<and> k \<in> set xs then g k e else e)"
  using fold_if_one [of xs k P g e] fold_if_none [of xs P g e] assms
  by (cases "Q \<and> k \<in> set xs") auto

lemma set_ss_pag_eq: "set_ss_pag PT page frame m =
    pte_upd (pt_slot PT page) (\<lambda>_. set_present (set_rw (set_user (set_pbase_addr frame 0)))) m"
  by (simp add: set_ss_pag_def Let_def)

lemma phys_mem_paging [simp]:
  "phys_mem (set_ss_pag PT page frame m) = phys_mem m" "phys_mem (del_ss_pag PT page m) = phys_mem m"
  by (simp_all add: set_ss_pag_eq del_ss_pag_def)

lemma ptes_free_frame [simp]: "ptes (free_frame f m) = ptes m"
  by (simp add: free_frame_def)

lemma get_frame_set_ss_pag:
  "get_frame PT p (set_ss_pag PT q f m) =
     (if pt_slot PT p = pt_slot PT q then take_bit 20 f else get_frame PT p m)"
  by (simp add: get_frame_def set_ss_pag_eq)

lemma pt_slot_inject:
  assumes "unat p < 2 ^ 30" and "unat q < 2 ^ 30"
  shows "pt_slot PT p = pt_slot PT q \<longleftrightarrow> p = q"
proof
  assume "pt_slot PT p = pt_slot PT q"
  then have "unat (4 * p) = unat (4 * q)" by (simp add: pt_slot_def)
  with assms show "p = q" by (simp add: unat_word_ariths word_unat_eq_iff)
qed simp

section \<open>Lemmas on frames\<close>

text \<open>The byte map is well formed: one byte per frame, kernel frames are never free.\<close>

definition frames_wf :: "mm_state \<Rightarrow> bool" where
  "frames_wf m \<longleftrightarrow> length (phys_mem m) = TOTAL_PAGES \<and> set (phys_mem m) \<subseteq> {FREE_FRAME, USED_FRAME} \<and>
     (\<forall>i<NUM_PAG_KERNEL. phys_mem m ! i = USED_FRAME)"

text \<open>The frames a search from \<open>i\<close> looks at before \<open>n\<close>: those of the parity of \<open>i\<close>.\<close>

definition no_free_between :: "nat \<Rightarrow> nat \<Rightarrow> mm_state \<Rightarrow> bool" where
  "no_free_between i n m \<longleftrightarrow>
     (\<forall>j. i \<le> j \<and> j < n \<and> even j = even i \<longrightarrow> phys_mem m ! j \<noteq> FREE_FRAME)"

lemma no_free_between_step:
  assumes "phys_mem m ! i \<noteq> FREE_FRAME" and "no_free_between (i + 2) n m"
  shows "no_free_between i n m"
  unfolding no_free_between_def
proof (intro allI impI)
  fix j assume j: "i \<le> j \<and> j < n \<and> even j = even i"
  then have "j \<noteq> i + 1" by auto
  with j have "j = i \<or> i + 2 \<le> j" by linarith
  with j assms show "phys_mem m ! j \<noteq> FREE_FRAME" by (auto simp: no_free_between_def)
qed

lemma alloc_frame_from_cases:
  "(\<exists>k. i \<le> k \<and> k < TOTAL_PAGES \<and> even k = even i \<and> phys_mem m ! k = FREE_FRAME \<and>
      no_free_between i k m \<and>
      alloc_frame_from i m = (int k, m\<lparr>phys_mem := (phys_mem m)[k := USED_FRAME]\<rparr>)) \<or>
   no_free_between i TOTAL_PAGES m \<and> alloc_frame_from i m = (-1, m)"
proof (induction i m rule: alloc_frame_from.induct)
  case (1 i m)
  show ?case
  proof (cases "i < TOTAL_PAGES \<and> phys_mem m ! i \<noteq> FREE_FRAME")
    case False
    then show ?thesis
      by (cases "i < TOTAL_PAGES")
        (auto simp: alloc_frame_from.simps [of i m] no_free_between_def)
  next
    case True
    have step: "alloc_frame_from i m = alloc_frame_from (i + 2) m"
      using True by (simp add: alloc_frame_from.simps [of i m])
    from 1 True have "(\<exists>k. i + 2 \<le> k \<and> k < TOTAL_PAGES \<and> even k = even (i + 2) \<and>
        phys_mem m ! k = FREE_FRAME \<and> no_free_between (i + 2) k m \<and>
        alloc_frame_from (i + 2) m = (int k, m\<lparr>phys_mem := (phys_mem m)[k := USED_FRAME]\<rparr>)) \<or>
      no_free_between (i + 2) TOTAL_PAGES m \<and> alloc_frame_from (i + 2) m = (-1, m)" by blast
    then show ?thesis
      using step True no_free_between_step [of m i] by (elim disjE exE conjE) auto
  qed
qed

lemma alloc_frame_cases:
  obtains (found) k where "NUM_PAG_KERNEL \<le> k" "k < TOTAL_PAGES" "even k" "phys_mem m ! k = FREE_FRAME"
      "no_free_between NUM_PAG_KERNEL k m"
      "alloc_frame m = (int k, m\<lparr>phys_mem := (phys_mem m)[k := USED_FRAME]\<rparr>)"
    | (none) "no_free_between NUM_PAG_KERNEL TOTAL_PAGES m" "alloc_frame m = (-1, m)"
proof -
  have "even NUM_PAG_KERNEL" by (simp add: NUM_PAG_KERNEL_def)
  then show thesis
    using alloc_frame_from_cases [of NUM_PAG_KERNEL m] found none
    unfolding alloc_frame_def by blast
qed

lemma alloc_frame_frame [simp]:
  "ptes (snd (alloc_frame m)) = ptes m" "cr3 (snd (alloc_frame m)) = cr3 m"
  "cr0 (snd (alloc_frame m)) = cr0 m" "length (phys_mem (snd (alloc_frame m))) = length (phys_mem m)"
  by (cases m rule: alloc_frame_cases, simp_all)+

lemma frames_wf_alloc: "frames_wf m \<Longrightarrow> frames_wf (snd (alloc_frame m))"
proof (cases m rule: alloc_frame_cases)
  case (found k)
  assume wf: "frames_wf m"
  have "set ((phys_mem m)[k := USED_FRAME]) \<subseteq> insert USED_FRAME (set (phys_mem m))"
    by (rule set_update_subset_insert)
  with wf found show ?thesis by (auto simp: frames_wf_def nth_list_update)
qed simp

lemma frames_wf_free: "frames_wf m \<Longrightarrow> frames_wf (free_frame f m)"
proof -
  assume wf: "frames_wf m"
  have "set ((phys_mem m)[unat f := FREE_FRAME]) \<subseteq> insert FREE_FRAME (set (phys_mem m))"
    by (rule set_update_subset_insert)
  with wf show ?thesis
    by (auto simp: frames_wf_def free_frame_def nth_list_update word_less_nat_alt layout_consts)
qed

lemma frames_wf_init:
  assumes "length (phys_mem m) = TOTAL_PAGES"
  shows "frames_wf (init_frames m)"
    and "\<And>i. NUM_PAG_KERNEL \<le> i \<Longrightarrow> i < TOTAL_PAGES \<Longrightarrow> phys_mem (init_frames m) ! i = FREE_FRAME"
proof -
  have fill: "phys_mem (fold (\<lambda>i m. m\<lparr>phys_mem := (phys_mem m)[i := v]\<rparr>) [0..<n] m) =
      replicate n v @ drop n (phys_mem m)" if "n \<le> length (phys_mem m)" for n v and m :: mm_state
    using that
  proof (induction n)
    case (Suc n)
    then have "(replicate n v @ drop n (phys_mem m))[n := v] = replicate (Suc n) v @ drop (Suc n) (phys_mem m)"
      by (simp add: list_update_append Cons_nth_drop_Suc [symmetric] replicate_append_same)
    with Suc show ?case by simp
  qed simp
  have eq: "phys_mem (init_frames m) =
      replicate NUM_PAG_KERNEL USED_FRAME @ replicate (TOTAL_PAGES - NUM_PAG_KERNEL) FREE_FRAME"
    using assms by (simp add: init_frames_def Let_def fill layout_consts drop_replicate)
  show "frames_wf (init_frames m)" by (auto simp: frames_wf_def eq nth_append layout_consts)
  show "\<And>i. NUM_PAG_KERNEL \<le> i \<Longrightarrow> i < TOTAL_PAGES \<Longrightarrow> phys_mem (init_frames m) ! i = FREE_FRAME"
    by (simp add: eq nth_append)
qed

text \<open>A pool of frames as its clients see it: what an allocation returns and what it keeps.\<close>

locale frame_pool =
  fixes alloc :: "'s \<Rightarrow> int \<times> 's"
    and is_free :: "'s \<Rightarrow> nat \<Rightarrow> bool"
    and inv :: "'s \<Rightarrow> bool"
  assumes alloc_some: "inv s \<Longrightarrow> alloc s = (r, s') \<Longrightarrow> r \<noteq> -1 \<Longrightarrow>
      0 \<le> r \<and> is_free s (nat r) \<and> (\<forall>k. is_free s' k \<longleftrightarrow> is_free s k \<and> k \<noteq> nat r)"
    and alloc_none: "alloc s = (-1, s') \<Longrightarrow> s' = s"
    and alloc_inv: "inv s \<Longrightarrow> alloc s = (r, s') \<Longrightarrow> inv s'"
begin

text \<open>Allocating several frames one after the other.\<close>

primrec alloc_n :: "nat \<Rightarrow> 's \<Rightarrow> int list \<times> 's" where
  "alloc_n 0 s = ([], s)"
| "alloc_n (Suc n) s = (case alloc s of (r, s') \<Rightarrow> case alloc_n n s' of (rs, s'') \<Rightarrow> (r # rs, s''))"

lemma alloc_n_fresh:
  "inv s \<Longrightarrow> alloc_n n s = (rs, s') \<Longrightarrow> -1 \<notin> set rs \<Longrightarrow>
     inv s' \<and> length rs = n \<and> distinct rs \<and> (\<forall>r \<in> set rs. 0 \<le> r \<and> is_free s (nat r)) \<and>
     (\<forall>k. is_free s' k \<longleftrightarrow> is_free s k \<and> int k \<notin> set rs)"
proof (induction n arbitrary: s rs)
  case 0
  then show ?case by simp
next
  case (Suc n)
  obtain r s1 where a: "alloc s = (r, s1)" by (cases "alloc s")
  obtain rs1 s2 where b: "alloc_n n s1 = (rs1, s2)" by (cases "alloc_n n s1")
  from Suc.prems a b have rs: "rs = r # rs1" and s2: "s2 = s'" by auto
  from rs Suc.prems(3) have ne: "r \<noteq> -1" and ne1: "-1 \<notin> set rs1" by auto
  have A: "0 \<le> r" "is_free s (nat r)" "\<And>k. is_free s1 k \<longleftrightarrow> is_free s k \<and> k \<noteq> nat r"
    using alloc_some [OF Suc.prems(1) a ne] by simp_all
  have B: "inv s'" "length rs1 = n" "distinct rs1" "\<And>x. x \<in> set rs1 \<Longrightarrow> 0 \<le> x \<and> is_free s1 (nat x)"
    "\<And>k. is_free s' k \<longleftrightarrow> is_free s1 k \<and> int k \<notin> set rs1"
    using Suc.IH [OF alloc_inv [OF Suc.prems(1) a] b [unfolded s2] ne1] by simp_all
  have r: "\<And>k. int k = r \<longleftrightarrow> k = nat r" using A(1) by auto
  have "r \<notin> set rs1" using A(3) B(4) [of r] by auto
  moreover have "\<forall>x \<in> set rs1. 0 \<le> x \<and> is_free s (nat x)" using A(3) B(4) by auto
  moreover have "is_free s' k \<longleftrightarrow> is_free s k \<and> int k \<notin> set (r # rs1)" for k
    using A(3) B(5) by (auto simp: r)
  ultimately show ?case unfolding rs using A B by simp
qed

end

definition frame_is_free :: "mm_state \<Rightarrow> nat \<Rightarrow> bool" where
  "frame_is_free m k \<longleftrightarrow> k < length (phys_mem m) \<and> phys_mem m ! k = FREE_FRAME"

interpretation fp: frame_pool alloc_frame frame_is_free frames_wf
proof (unfold_locales, goal_cases)
  case (1 m r m')
  then have "length (phys_mem m) = TOTAL_PAGES" by (simp add: frames_wf_def)
  with 1 show ?case
    by (cases m rule: alloc_frame_cases)
      (auto simp: frame_is_free_def nth_list_update FREE_FRAME_def USED_FRAME_def split: if_splits)
next
  case (2 m m')
  then show ?case by (cases m rule: alloc_frame_cases) auto
next
  case (3 m r m')
  then show ?case using frames_wf_alloc [of m] by simp
qed

section \<open>The tables after initialisation\<close>

lemma symtab_tables:
  assumes "symtab_ok L"
  shows "unat (sym_pagusr_table L) + NR_TASKS * PAGE_SIZE \<le> L_USER_START"
    and "unat (sym_dir_pages L) + NR_TASKS * PAGE_SIZE \<le> L_USER_START"
    and "unat (sym_protected_tasks L) + (NR_TASKS + 2) * PAGE_SIZE \<le> L_USER_START"
    and "disjoint_objs (sym_dir_pages L) (NR_TASKS * PAGE_SIZE) (sym_pagusr_table L) (NR_TASKS * PAGE_SIZE)"
  using assms by (auto simp: symtab_ok_def sym_objs_def kernel_obj_def)

lemma unat_table_base:
  assumes "symtab_ok L" and "j < NR_TASKS"
  shows "unat (pagusr_table L j) = unat (sym_pagusr_table L) + j * PAGE_SIZE"
    and "unat (dir_pages L j) = unat (sym_dir_pages L) + j * PAGE_SIZE"
proof -
  have "j * PAGE_SIZE \<le> NR_TASKS * PAGE_SIZE" using assms(2) by simp
  moreover have "NR_TASKS * PAGE_SIZE < 2 ^ 32" and "L_USER_START < 2 ^ 32"
    by (simp_all add: NR_TASKS_def layout_consts)
  ultimately have lt: "j * PAGE_SIZE < 2 ^ 32"
    "unat (sym_pagusr_table L) + j * PAGE_SIZE < 2 ^ 32" "unat (sym_dir_pages L) + j * PAGE_SIZE < 2 ^ 32"
    using symtab_tables [OF assms(1)] by linarith+
  note u = unat_of_nat_word32 [OF lt(1)]
  show "unat (pagusr_table L j) = unat (sym_pagusr_table L) + j * PAGE_SIZE"
    and "unat (dir_pages L j) = unat (sym_dir_pages L) + j * PAGE_SIZE"
    unfolding pagusr_table_def dir_pages_def using lt
    by (simp_all only: u unat_plus_word32 [of _ "of_nat (j * PAGE_SIZE)", unfolded u])
qed

lemma unat_table_slot:
  assumes "symtab_ok L" and "j < NR_TASKS" and "p < TOTAL_PAGES"
  shows "unat (pt_slot (pagusr_table L j) (of_nat p)) = unat (sym_pagusr_table L) + j * PAGE_SIZE + 4 * p"
proof -
  have "unat (4 * of_nat p :: 32 word) = 4 * p"
    using assms(3) by (simp add: unat_word_ariths unat_of_nat layout_consts)
  then show ?thesis
    unfolding pt_slot_def using symtab_tables [OF assms(1)] assms unat_table_base [OF assms(1,2)]
    by (subst unat_plus_word32) (simp_all add: layout_consts NR_TASKS_def)
qed

lemma table_slot_inject [addr_simps]:
  assumes "symtab_ok L" and "i < NR_TASKS" "p < TOTAL_PAGES" and "j < NR_TASKS" "q < TOTAL_PAGES"
  shows "pt_slot (pagusr_table L i) (of_nat p) = pt_slot (pagusr_table L j) (of_nat q) \<longleftrightarrow> i = j \<and> p = q"
proof
  assume "pt_slot (pagusr_table L i) (of_nat p) = pt_slot (pagusr_table L j) (of_nat q)"
  then have "i * 1024 + p = j * 1024 + q"
    using unat_table_slot [OF assms(1,2,3)] unat_table_slot [OF assms(1,4,5)]
    by (simp add: PAGE_SIZE_def)
  moreover have "p < 1024" "q < 1024" using assms by (simp_all add: layout_consts)
  moreover have "(i * 1024 + p) div 1024 = i" if "p < 1024" for i p :: nat using that by simp
  ultimately show "i = j \<and> p = q" by (metis add_left_cancel)
qed simp

lemma dir_slot_not_table [addr_simps]:
  assumes "symtab_ok L" and "i < NR_TASKS" and "j < NR_TASKS" "q < TOTAL_PAGES"
  shows "pt_slot (dir_pages L i) 0 \<noteq> pt_slot (pagusr_table L j) (of_nat q)"
proof
  assume "pt_slot (dir_pages L i) 0 = pt_slot (pagusr_table L j) (of_nat q)"
  then have "unat (sym_dir_pages L) + i * PAGE_SIZE = unat (sym_pagusr_table L) + j * PAGE_SIZE + 4 * q"
    using unat_table_slot [OF assms(1,3,4)] unat_table_base(2) [OF assms(1,2)]
    by (simp add: pt_slot_def)
  then show False
    using symtab_tables(4) [OF assms(1)] assms(2-4)
    by (auto simp: disjoint_objs_def layout_consts NR_TASKS_def)
qed

text \<open>The entry a kernel page gets, and the guard pages around the task array.\<close>

definition kernel_pte :: "nat \<Rightarrow> page_table_entry" where
  "kernel_pte p = set_present (set_rw (set_pbase_addr (of_nat p) 0))"

definition guard_page :: "symtab \<Rightarrow> nat \<Rightarrow> bool" where
  "guard_page L p \<longleftrightarrow> of_nat p = drop_bit 12 (protected_tasks L 0) \<or>
     of_nat p = drop_bit 12 (protected_tasks L 11)"

text \<open>A loop whose body, for one index only, fixes the value of an entry.\<close>

lemma ptes_fold_body:
  assumes "\<And>i m. i \<in> set xs \<Longrightarrow> ptes (F i m) a = (if i = k then E else ptes m a)"
    and "distinct xs" and "k \<in> set xs"
  shows "ptes (fold F xs m) a = E"
proof -
  have "ptes (fold F xs m) a = fold (\<lambda>i e. if i = k then E else e) xs (ptes m a)"
    using assms(1) by (induction xs arbitrary: m) auto
  also have "\<dots> = E" using assms(2,3) by (intro fold_if_one) auto
  finally show ?thesis .
qed

lemma guard_page_number:
  assumes "symtab_ok L" and "i < NR_TASKS + 2"
  obtains g where "g < TOTAL_PAGES" and "drop_bit 12 (protected_tasks L i) = of_nat g"
    and "g = unat (protected_tasks L i) div PAGE_SIZE"
proof
  let ?g = "unat (protected_tasks L i) div PAGE_SIZE"
  have "i * PAGE_SIZE \<le> (NR_TASKS + 2) * PAGE_SIZE" using assms(2) by (intro mult_le_mono1) simp
  moreover have "(NR_TASKS + 2) * PAGE_SIZE < 2 ^ 32" by (simp add: NR_TASKS_def PAGE_SIZE_def)
  ultimately have lt: "i * PAGE_SIZE < 2 ^ 32" "unat (sym_protected_tasks L) + i * PAGE_SIZE < 2 ^ 32"
    "unat (sym_protected_tasks L) + i * PAGE_SIZE \<le> L_USER_START"
    using symtab_tables(3) [OF assms(1)] by (auto simp: L_USER_START_def)
  note u = unat_of_nat_word32 [OF lt(1)]
  have "unat (protected_tasks L i) = unat (sym_protected_tasks L) + i * PAGE_SIZE"
    unfolding protected_tasks_def using lt by (subst unat_plus_word32) (simp_all only: u)
  with lt show "?g < TOTAL_PAGES" by (simp add: layout_consts)
  show "drop_bit 12 (protected_tasks L i) = of_nat ?g"
    by (rule word_unat_eq_iff [THEN iffD2])
      (use \<open>?g < TOTAL_PAGES\<close> in
        \<open>simp add: unat_drop_bit_eq drop_bit_eq_div unat_div unat_of_nat layout_consts\<close>)
qed simp

lemma init_table_pages_entry:
  assumes ok: "symtab_ok L" and j: "j < NR_TASKS" and p: "p < TOTAL_PAGES"
  shows "ptes (init_table_pages L m) (pt_slot (pagusr_table L j) (of_nat p)) =
    (let e = (if 1 \<le> p \<and> p < NUM_PAG_KERNEL then kernel_pte p else 0)
     in if guard_page L p then clear_present e else e)"
    (is "_ = ?E")
proof -
  obtain g0 where g0: "g0 < TOTAL_PAGES" "drop_bit 12 (protected_tasks L 0) = of_nat g0"
    using guard_page_number [OF ok, of 0] by (auto simp: NR_TASKS_def)
  obtain g1 where g1: "g1 < TOTAL_PAGES" "drop_bit 12 (protected_tasks L 11) = of_nat g1"
    using guard_page_number [OF ok, of 11] by (auto simp: NR_TASKS_def)
  have guard: "guard_page L p \<longleftrightarrow> p = g0 \<or> p = g1"
    using p g0 g1 unfolding guard_page_def
    by (simp add: of_nat_word32_inject layout_consts)
  note inj = table_slot_inject [OF ok j p]
  have kern: "NUM_PAG_KERNEL \<le> TOTAL_PAGES" by (simp add: layout_consts)
  show ?thesis
    unfolding init_table_pages_def
  proof (rule ptes_fold_body [where k = j])
    fix i m assume "i \<in> set [0..<NR_TASKS]"
    then have i: "i < NR_TASKS" by simp
    have z: "fold (\<lambda>q e. if pt_slot (pagusr_table L j) (of_nat p) = pt_slot (pagusr_table L i) (of_nat q)
        then 0 else e) [0..<TOTAL_PAGES] e = (if i = j then 0 else e)" for e :: page_table_entry
      by (subst fold_if_at [where Q = "i = j" and k = p]) (use p i in \<open>auto simp: inj\<close>)
    have k: "fold (\<lambda>q e. if pt_slot (pagusr_table L j) (of_nat p) = pt_slot (pagusr_table L i) (of_nat q)
        then set_present (set_rw (set_pbase_addr (of_nat q) e)) else e) [1..<NUM_PAG_KERNEL] e =
        (if i = j \<and> 1 \<le> p \<and> p < NUM_PAG_KERNEL then set_present (set_rw (set_pbase_addr (of_nat p) e)) else e)"
      for e :: page_table_entry
      by (subst fold_if_at [where Q = "i = j" and k = p]) (use p i kern in \<open>auto simp: inj\<close>)
    show "ptes (let m = fold (\<lambda>i'. pte_upd (pt_slot (pagusr_table L i) (of_nat i')) (\<lambda>_. 0)) [0..<TOTAL_PAGES] m;
           m = fold (\<lambda>i' m. let a = pt_slot (pagusr_table L i) (of_nat i');
                                m = pte_upd a (set_pbase_addr (of_nat i')) m;
                                m = pte_upd a set_rw m
                            in pte_upd a set_present m) [1..<NUM_PAG_KERNEL] m;
           m = pte_upd (pt_slot (pagusr_table L i) (drop_bit 12 (protected_tasks L 0))) clear_present m
         in pte_upd (pt_slot (pagusr_table L i) (drop_bit 12 (protected_tasks L 11))) clear_present m)
        (pt_slot (pagusr_table L j) (of_nat p)) = (if i = j then ?E else ptes m (pt_slot (pagusr_table L j) (of_nat p)))"
      unfolding Let_def g0(2) g1(2) pte_upd_twice ptes_pte_upd ptes_fold_pte_upd z k
      unfolding inj [OF i g0(1)] inj [OF i g1(1)] guard kernel_pte_def
      by (cases "i = j"; cases "p = g0"; cases "p = g1") simp_all
  qed (use j in auto)
qed

lemma dir_slot_inject [addr_simps]:
  assumes "symtab_ok L" and "i < NR_TASKS" and "j < NR_TASKS"
  shows "pt_slot (dir_pages L i) 0 = pt_slot (dir_pages L j) 0 \<longleftrightarrow> i = j"
proof
  assume "pt_slot (dir_pages L i) 0 = pt_slot (dir_pages L j) 0"
  then have "unat (dir_pages L i) = unat (dir_pages L j)" by (simp add: pt_slot_def)
  then show "i = j"
    unfolding unat_table_base(2) [OF assms(1,2)] unat_table_base(2) [OF assms(1,3)]
    by (simp add: PAGE_SIZE_def)
qed simp

lemma init_dir_pages_entry:
  assumes ok: "symtab_ok L" and i: "i < NR_TASKS"
  shows "ptes (init_dir_pages L m) (pt_slot (dir_pages L i) 0) =
    set_present (set_rw (set_user (set_pbase_addr (drop_bit 12 (pagusr_table L i)) 0)))"
  unfolding init_dir_pages_def Let_def pte_upd_twice ptes_fold_pte_upd
  by (subst fold_if_at [where Q = True and k = i]) (use i in \<open>auto simp: dir_slot_inject [OF ok]\<close>)

lemma init_dir_pages_table:
  assumes ok: "symtab_ok L" and j: "j < NR_TASKS" "p < TOTAL_PAGES"
  shows "ptes (init_dir_pages L m) (pt_slot (pagusr_table L j) (of_nat p)) =
    ptes m (pt_slot (pagusr_table L j) (of_nat p))"
  unfolding init_dir_pages_def Let_def pte_upd_twice ptes_fold_pte_upd
  by (rule fold_if_none) (use dir_slot_not_table [OF ok _ j] in \<open>auto dest: sym\<close>)

lemma pagusr_table_aligned:
  assumes "symtab_ok L" and "i < NR_TASKS"
  shows "push_bit 12 (take_bit 20 (drop_bit 12 (pagusr_table L i))) = pagusr_table L i"
proof -
  have "unat (pagusr_table L i) mod 4096 = 0"
    using unat_table_base(1) [OF assms] assms(1) by (simp add: symtab_ok_def PAGE_SIZE_def)
  then have "pagusr_table L i AND 0xfffff000 = pagusr_table L i"
    using page_mask_offset [of "pagusr_table L i" 0] by simp
  moreover have "push_bit 12 (take_bit 20 (drop_bit 12 a)) = a AND 0xfffff000" for a :: "32 word"
    unfolding page_mask_eq by (rule bit_word_eqI) (auto simp: bit_simps)
  ultimately show ?thesis by simp
qed

text \<open>Allocation does not look at the page tables.\<close>

lemma alloc_frame_pte_upd:
  "alloc_frame (pte_upd a f m) = (case alloc_frame m of (r, m') \<Rightarrow> (r, pte_upd a f m'))"
proof -
  have "alloc_frame_from i (pte_upd a f m) = (case alloc_frame_from i m of (r, m') \<Rightarrow> (r, pte_upd a f m'))" for i
  proof (induction i m rule: alloc_frame_from.induct)
    case (1 i m)
    then show ?case
      by (simp add: alloc_frame_from.simps [of i m] alloc_frame_from.simps [of i "pte_upd a f m"])
        (simp add: pte_upd_def)
  qed
  then show ?thesis by (simp add: alloc_frame_def)
qed

text \<open>At boot the frames are handed out in the order of their numbers.\<close>

definition boot_frames :: "nat \<Rightarrow> mm_state \<Rightarrow> bool" where
  "boot_frames k m \<longleftrightarrow> length (phys_mem m) = TOTAL_PAGES \<and>
     (\<forall>j. NUM_PAG_KERNEL \<le> j \<and> j < TOTAL_PAGES \<and> even j \<longrightarrow>
        (phys_mem m ! j = FREE_FRAME \<longleftrightarrow> NUM_PAG_KERNEL + 2 * k \<le> j))"

lemma boot_frames_init: "length (phys_mem m) = TOTAL_PAGES \<Longrightarrow> boot_frames 0 (init_frames m)"
  using frames_wf_init [of m] by (simp add: boot_frames_def frames_wf_def)

lemma boot_frames_pte_upd [simp]: "boot_frames k (pte_upd a f m) = boot_frames k m"
  by (simp add: boot_frames_def)

lemma alloc_frame_boot:
  assumes "boot_frames k m" and "NUM_PAG_KERNEL + 2 * k < TOTAL_PAGES"
  shows "alloc_frame m = (int (NUM_PAG_KERNEL + 2 * k),
      m\<lparr>phys_mem := (phys_mem m)[NUM_PAG_KERNEL + 2 * k := USED_FRAME]\<rparr>)"
    and "boot_frames (Suc k) (snd (alloc_frame m))"
proof -
  have ev: "even (NUM_PAG_KERNEL + 2 * k)" by (simp add: NUM_PAG_KERNEL_def)
  have fr: "phys_mem m ! (NUM_PAG_KERNEL + 2 * k) = FREE_FRAME"
    using assms ev by (simp add: boot_frames_def)
  show 1: "alloc_frame m = (int (NUM_PAG_KERNEL + 2 * k),
      m\<lparr>phys_mem := (phys_mem m)[NUM_PAG_KERNEL + 2 * k := USED_FRAME]\<rparr>)"
  proof (cases m rule: alloc_frame_cases)
    case (found f)
    then have "NUM_PAG_KERNEL + 2 * k \<le> f" using assms(1) by (simp add: boot_frames_def)
    moreover have "\<not> NUM_PAG_KERNEL + 2 * k < f"
      using found(5) fr ev assms(2) by (auto simp: no_free_between_def NUM_PAG_KERNEL_def)
    ultimately have "f = NUM_PAG_KERNEL + 2 * k" by simp
    with found show ?thesis by simp
  next
    case none
    then show ?thesis using fr ev assms(2) by (auto simp: no_free_between_def NUM_PAG_KERNEL_def)
  qed
  have gt: "NUM_PAG_KERNEL + 2 * k \<le> j \<and> j \<noteq> NUM_PAG_KERNEL + 2 * k \<longleftrightarrow> NUM_PAG_KERNEL + 2 * Suc k \<le> j"
    if "even j" for j
  proof -
    have "j \<noteq> Suc (NUM_PAG_KERNEL + 2 * k)" using that ev by auto
    then show ?thesis by auto
  qed
  show "boot_frames (Suc k) (snd (alloc_frame m))"
    unfolding 1 boot_frames_def using assms gt
    by (auto simp: boot_frames_def nth_list_update FREE_FRAME_def USED_FRAME_def)
qed

definition map_new_frame :: "ptr \<Rightarrow> nat \<Rightarrow> (int \<Rightarrow> page_table_entry) \<Rightarrow> nat \<Rightarrow> mm_state \<Rightarrow> mm_state" where
  "map_new_frame PT base G pag m =
     (case alloc_frame m of (f, m) \<Rightarrow> pte_upd (pt_slot PT (of_nat (base + pag))) (\<lambda>_. G f) m)"

lemma map_new_frame_loop:
  assumes "boot_frames k m" and "NUM_PAG_KERNEL + 2 * (k + n) \<le> TOTAL_PAGES" and "base + n \<le> TOTAL_PAGES"
  shows "boot_frames (k + n) (fold (map_new_frame PT base G) [0..<n] m) \<and>
    (\<forall>q<TOTAL_PAGES. ptes (fold (map_new_frame PT base G) [0..<n] m) (pt_slot PT (of_nat q)) =
       (if base \<le> q \<and> q < base + n then G (int (NUM_PAG_KERNEL + 2 * (k + (q - base))))
        else ptes m (pt_slot PT (of_nat q))))"
  using assms
proof (induction n)
  case 0
  then show ?case by auto
next
  case (Suc n)
  let ?m = "fold (map_new_frame PT base G) [0..<n] m"
  have IH: "boot_frames (k + n) ?m" "\<And>q. q < TOTAL_PAGES \<Longrightarrow> ptes ?m (pt_slot PT (of_nat q)) =
       (if base \<le> q \<and> q < base + n then G (int (NUM_PAG_KERNEL + 2 * (k + (q - base))))
        else ptes m (pt_slot PT (of_nat q)))"
    using Suc by auto
  have lt: "NUM_PAG_KERNEL + 2 * (k + n) < TOTAL_PAGES" using Suc.prems(2) by simp
  note A = alloc_frame_boot [OF IH(1) lt]
  have slot: "pt_slot PT (of_nat q) = pt_slot PT (of_nat (base + n)) \<longleftrightarrow> q = base + n"
    if "q < TOTAL_PAGES" for q
  proof -
    have "q < 2 ^ 30" "base + n < 2 ^ 30" using that Suc.prems(3) by (simp_all add: TOTAL_PAGES_def)
    then show ?thesis
      by (subst pt_slot_inject) (simp_all add: of_nat_word32_inject unat_of_nat del: of_nat_add)
  qed
  define f M' where "f = int (NUM_PAG_KERNEL + 2 * (k + n))" and "M' = snd (alloc_frame ?m)"
  have al: "alloc_frame ?m = (f, M')" unfolding f_def M'_def using A(1) by simp
  then have eq: "fold (map_new_frame PT base G) [0..<Suc n] m =
      pte_upd (pt_slot PT (of_nat (base + n))) (\<lambda>_. G f) M'"
    by (simp add: map_new_frame_def [of PT base G n])
  have pt: "ptes M' = ptes ?m" and bf: "boot_frames (k + Suc n) M'"
    using A(2) by (simp_all add: M'_def)
  have "ptes (pte_upd (pt_slot PT (of_nat (base + n))) (\<lambda>_. G f) M') (pt_slot PT (of_nat q)) =
       (if base \<le> q \<and> q < base + Suc n then G (int (NUM_PAG_KERNEL + 2 * (k + (q - base))))
        else ptes m (pt_slot PT (of_nat q)))" if q: "q < TOTAL_PAGES" for q
    unfolding ptes_pte_upd slot [OF q] pt IH(2) [OF q] by (auto simp: f_def)
  then show ?case unfolding eq using bf by simp
qed

lemma set_user_pages_eq:
  "set_user_pages PT m =
     fold (map_new_frame PT PAG_LOG_INIT_DATA
         (\<lambda>f. set_present (set_rw (set_user (set_pbase_addr (dword_of_int f) 0))))) [0..<NUM_PAG_DATA]
       (fold (map_new_frame PT PAG_LOG_INIT_CODE
         (\<lambda>f. set_present (set_user (set_pbase_addr (dword_of_int f) 0)))) [0..<NUM_PAG_CODE] m)"
  by (simp add: set_user_pages_def map_new_frame_def [abs_def] Let_def)

text \<open>The entries \<open>set_user_pages\<close> writes at boot, code pages without and data pages with the write bit.\<close>

lemma set_user_pages_entry:
  fixes i :: nat
  assumes "length (phys_mem m) = TOTAL_PAGES" and "i < NUM_PAG_CODE + NUM_PAG_DATA"
  defines "C \<equiv> \<lambda>f. set_present (set_user (set_pbase_addr (dword_of_int f) 0))"
    and "D \<equiv> \<lambda>f. set_present (set_rw (set_user (set_pbase_addr (dword_of_int f) 0)))" and "q \<equiv> PAG_LOG_INIT_CODE + i"
  shows "ptes (set_user_pages PT (init_frames m)) (pt_slot PT (of_nat q)) =
    (if NUM_PAG_CODE \<le> i then D (int (NUM_PAG_KERNEL + 2 * i)) else C (int (NUM_PAG_KERNEL + 2 * i)))"
proof -
  let ?m1 = "fold (map_new_frame PT PAG_LOG_INIT_CODE C) [0..<NUM_PAG_CODE] (init_frames m)"
  have q: "q < TOTAL_PAGES" using assms(2) by (simp add: q_def layout_consts)
  have 1: "boot_frames NUM_PAG_CODE ?m1 \<and> (\<forall>q<TOTAL_PAGES. ptes ?m1 (pt_slot PT (of_nat q)) =
      (if PAG_LOG_INIT_CODE \<le> q \<and> q < PAG_LOG_INIT_CODE + NUM_PAG_CODE
       then C (int (NUM_PAG_KERNEL + 2 * (0 + (q - PAG_LOG_INIT_CODE))))
       else ptes (init_frames m) (pt_slot PT (of_nat q))))"
    using map_new_frame_loop [OF boot_frames_init [OF assms(1)], of NUM_PAG_CODE PAG_LOG_INIT_CODE PT C]
    by (simp add: layout_consts)
  have 2: "\<forall>q<TOTAL_PAGES. ptes (set_user_pages PT (init_frames m)) (pt_slot PT (of_nat q)) =
      (if PAG_LOG_INIT_DATA \<le> q \<and> q < PAG_LOG_INIT_DATA + NUM_PAG_DATA
       then D (int (NUM_PAG_KERNEL + 2 * (NUM_PAG_CODE + (q - PAG_LOG_INIT_DATA))))
       else ptes ?m1 (pt_slot PT (of_nat q)))"
    unfolding set_user_pages_eq C_def [symmetric] D_def [symmetric]
    by (rule map_new_frame_loop [OF conjunct1 [OF 1], of NUM_PAG_DATA PAG_LOG_INIT_DATA PT D, THEN conjunct2])
      (simp_all add: layout_consts)
  have i: "NUM_PAG_CODE \<le> i \<longleftrightarrow> PAG_LOG_INIT_DATA \<le> q" "q < PAG_LOG_INIT_DATA + NUM_PAG_DATA"
    "NUM_PAG_CODE \<le> i \<Longrightarrow> NUM_PAG_CODE + (q - PAG_LOG_INIT_DATA) = i"
    using assms(2) by (simp_all add: q_def PAG_LOG_INIT_DATA_def)
  show ?thesis
  proof (cases "NUM_PAG_CODE \<le> i")
    case True
    then have "PAG_LOG_INIT_DATA \<le> q" using i(1) by blast
    then show ?thesis
      unfolding 2 [rule_format, OF q] using True i(2) by (simp only: i(3) simp_thms if_True)
  next
    case False
    then have "\<not> PAG_LOG_INIT_DATA \<le> q" using i(1) by blast
    moreover have "PAG_LOG_INIT_CODE \<le> q" "q < PAG_LOG_INIT_CODE + NUM_PAG_CODE"
      "0 + (q - PAG_LOG_INIT_CODE) = i" using False by (simp_all add: q_def)
    ultimately show ?thesis
      unfolding 2 [rule_format, OF q] conjunct2 [OF 1, rule_format, OF q] using False
      by (simp only: simp_thms if_False if_True)
  qed
qed

section \<open>Properties\<close>

text \<open>C9: \<open>alloc_frame\<close> returns the lowest free frame of even number outside the kernel and marks
  it used, or returns \<open>-1\<close> and changes nothing when there is none; in both cases the byte map
  stays well formed.\<close>

theorem alloc_frame_spec:
  assumes "frames_wf m"
  shows "((\<exists>k. NUM_PAG_KERNEL \<le> k \<and> k < TOTAL_PAGES \<and> even k \<and> frame_is_free m k \<and>
        (\<forall>j. NUM_PAG_KERNEL \<le> j \<and> j < k \<and> even j \<longrightarrow> \<not> frame_is_free m j) \<and>
        alloc_frame m = (int k, m\<lparr>phys_mem := (phys_mem m)[k := USED_FRAME]\<rparr>)) \<or>
      (\<forall>j. NUM_PAG_KERNEL \<le> j \<and> even j \<longrightarrow> \<not> frame_is_free m j) \<and> alloc_frame m = (-1, m)) \<and>
    frames_wf (snd (alloc_frame m))"
proof -
  have l: "length (phys_mem m) = TOTAL_PAGES" and ev: "even NUM_PAG_KERNEL"
    using assms by (simp_all add: frames_wf_def NUM_PAG_KERNEL_def)
  show ?thesis
    by (rule conjI [OF _ frames_wf_alloc [OF assms]], cases m rule: alloc_frame_cases)
      (use l ev in \<open>auto simp: frame_is_free_def no_free_between_def\<close>)
qed

theorem alloc_frame_spec_witness:
  "frames_wf (snd (alloc_frame (init_frames
     \<lparr>phys_mem = replicate TOTAL_PAGES 0, ptes = \<lambda>_. 0, cr3 = 0, cr0 = 0\<rparr>)))"
proof -
  have "frames_wf (init_frames \<lparr>phys_mem = replicate TOTAL_PAGES 0, ptes = \<lambda>_. 0, cr3 = 0, cr0 = 0\<rparr>)"
    by (rule frames_wf_init) simp
  from alloc_frame_spec [OF this] show ?thesis by simp
qed

text \<open>C17: Releasing the frame just allocated gives back the byte map of before, except for frame 256,
  the first frame \<open>alloc_frame\<close> can return: \<open>free_frame\<close> tests \<open>frame > NUM_PAG_KERNEL\<close> and
  leaves it marked used for ever.\<close>

theorem free_frame_alloc_frame:
  assumes "frames_wf m" and "alloc_frame m = (f, m')" and "f \<noteq> -1"
  shows "free_frame (dword_of_int f) m' = (if f = int NUM_PAG_KERNEL then m' else m)"
proof (cases m rule: alloc_frame_cases)
  case (found k)
  have f: "f = int k" and m': "m' = m\<lparr>phys_mem := (phys_mem m)[k := USED_FRAME]\<rparr>"
    using found assms by auto
  have u: "unat (dword_of_int f) = k" using found by (simp add: f dword_of_int_def layout_consts)
  have "(phys_mem m)[k := FREE_FRAME] = phys_mem m" using found(4) by (metis list_update_id)
  then show ?thesis
    using found u by (simp add: free_frame_def word_less_nat_alt f m' layout_consts)
next
  case none
  with assms show ?thesis by simp
qed

theorem free_frame_alloc_frame_witness:
  "free_frame 256 (snd (alloc_frame (init_frames
     \<lparr>phys_mem = replicate TOTAL_PAGES 0, ptes = \<lambda>_. 0, cr3 = 0, cr0 = 0\<rparr>))) =
   snd (alloc_frame (init_frames \<lparr>phys_mem = replicate TOTAL_PAGES 0, ptes = \<lambda>_. 0, cr3 = 0, cr0 = 0\<rparr>))"
proof -
  let ?m = "\<lparr>phys_mem = replicate TOTAL_PAGES 0, ptes = \<lambda>_. 0, cr3 = 0, cr0 = 0\<rparr>"
  have l: "length (phys_mem ?m) = TOTAL_PAGES" by simp
  have a: "alloc_frame (init_frames ?m) = (256, snd (alloc_frame (init_frames ?m)))"
    using alloc_frame_boot(1) [OF boot_frames_init [OF l]] by (simp add: layout_consts)
  show ?thesis
    using free_frame_alloc_frame [OF frames_wf_init(1) [OF l] a]
    by (simp add: dword_of_int_def NUM_PAG_KERNEL_def)
qed

text \<open>After \<open>set_ss_pag(PT, q, f)\<close> the page \<open>q\<close> is present, writable and accessible from user mode
  and \<open>get_frame\<close> returns the low 20 bits of \<open>f\<close> for it; after \<open>del_ss_pag\<close> it is not present;
  every other page of the table keeps its entry.\<close>

theorem set_ss_pag_get_frame:
  assumes "unat p < TOTAL_PAGES" and "unat q < TOTAL_PAGES"
  shows "get_frame PT p (set_ss_pag PT q f m) = (if p = q then take_bit 20 f else get_frame PT p m) \<and>
    (let e = ptes (set_ss_pag PT q f m) (pt_slot PT q) in pte_present e \<and> pte_rw e \<and> pte_user e) \<and>
    \<not> pte_present (ptes (del_ss_pag PT q m) (pt_slot PT q)) \<and>
    (p \<noteq> q \<longrightarrow> ptes (set_ss_pag PT q f m) (pt_slot PT p) = ptes m (pt_slot PT p) \<and>
       ptes (del_ss_pag PT q m) (pt_slot PT p) = ptes m (pt_slot PT p))"
proof -
  have "pt_slot PT p = pt_slot PT q \<longleftrightarrow> p = q"
    using assms by (intro pt_slot_inject) (simp_all add: TOTAL_PAGES_def)
  then show ?thesis by (simp add: get_frame_def set_ss_pag_eq del_ss_pag_def Let_def)
qed

theorem set_ss_pag_get_frame_witness:
  "get_frame 0x36000 304 (set_ss_pag 0x36000 304 312 \<lparr>phys_mem = [], ptes = \<lambda>_. 0, cr3 = 0, cr0 = 0\<rparr>) = 312"
  using set_ss_pag_get_frame [of 304 304 "0x36000" 312 "\<lparr>phys_mem = [], ptes = \<lambda>_. 0, cr3 = 0, cr0 = 0\<rparr>"]
  by (simp add: TOTAL_PAGES_def take_bit_eq_mod)

text \<open>C11: After \<open>init_table_pages\<close> and \<open>init_dir_pages\<close>, in the address space of every task the pages
  1 to 255, and only those, map to the frame of the same number, writable and closed to user
  mode; page 0 and the two pages around the task array are not present; and the directory of
  each task points to its own page table.\<close>

theorem kernel_address_space:
  assumes "symtab_ok L" and "j < NR_TASKS" and "p < TOTAL_PAGES"
  shows "let m' = init_dir_pages L (init_table_pages L m);
             e = ptes m' (pt_slot (pagusr_table L j) (of_nat p));
             d = ptes m' (pt_slot (dir_pages L j) 0)
         in pte_present e = (1 \<le> p \<and> p < NUM_PAG_KERNEL \<and> \<not> guard_page L p) \<and>
            (pte_present e \<longrightarrow> pbase_addr e = of_nat p \<and> pte_rw e \<and> \<not> pte_user e) \<and>
            pte_present d \<and> pte_user d \<and> push_bit 12 (pbase_addr d) = pagusr_table L j"
proof -
  have "take_bit 20 (of_nat p :: 32 word) = of_nat p"
    using assms(3) by (simp add: take_bit20_of_nat TOTAL_PAGES_def)
  then show ?thesis
    using assms pagusr_table_aligned [OF assms(1,2)]
    by (simp add: Let_def init_dir_pages_table init_table_pages_entry init_dir_pages_entry kernel_pte_def)
qed

theorem kernel_address_space_witness:
  "pte_present (ptes (init_dir_pages example_symtab (init_table_pages example_symtab
     \<lparr>phys_mem = [], ptes = \<lambda>_. 0, cr3 = 0, cr0 = 0\<rparr>)) (pt_slot (pagusr_table example_symtab 3) (of_nat 184)))"
proof -
  have "\<not> guard_page example_symtab 184"
    by (simp add: guard_page_def protected_tasks_def example_symtab_def PAGE_SIZE_def)
  then show ?thesis
    using kernel_address_space [OF example_symtab_ok, of 3 184 "\<lparr>phys_mem = [], ptes = \<lambda>_. 0, cr3 = 0, cr0 = 0\<rparr>"]
    by (simp add: Let_def NR_TASKS_def layout_consts)
qed

text \<open>C10: At boot, \<open>set_user_pages\<close> maps the 8 code pages and 20 data pages of the first process to the
  frames 256, 258, ..., 310 in order, all accessible from user mode, the data pages writable and
  the code pages not.\<close>

theorem set_user_pages_boot:
  assumes "length (phys_mem m) = TOTAL_PAGES" and "i < NUM_PAG_CODE + NUM_PAG_DATA"
  shows "let e = ptes (set_user_pages PT (init_frames m)) (pt_slot PT (of_nat (PAG_LOG_INIT_CODE + i)))
    in pte_present e \<and> pte_user e \<and> pte_rw e = (NUM_PAG_CODE \<le> i) \<and>
       pbase_addr e = of_nat (NUM_PAG_KERNEL + 2 * i)"
proof -
  have "take_bit 20 (of_nat (NUM_PAG_KERNEL + 2 * i) :: 32 word) = of_nat (NUM_PAG_KERNEL + 2 * i)"
    using assms(2) by (intro take_bit20_of_nat) (simp add: layout_consts)
  then show ?thesis
    unfolding set_user_pages_entry [OF assms] Let_def by (simp add: dword_of_int_def)
qed

theorem set_user_pages_boot_witness:
  "pbase_addr (ptes (set_user_pages 0x36000 (init_frames
     \<lparr>phys_mem = replicate TOTAL_PAGES 0, ptes = \<lambda>_. 0, cr3 = 0, cr0 = 0\<rparr>))
     (pt_slot 0x36000 (of_nat (PAG_LOG_INIT_CODE + 27)))) = of_nat (NUM_PAG_KERNEL + 2 * 27)"
  using set_user_pages_boot [of "\<lparr>phys_mem = replicate TOTAL_PAGES 0, ptes = \<lambda>_. 0, cr3 = 0, cr0 = 0\<rparr>"
      27 "0x36000"]
  by (simp add: Let_def NUM_PAG_CODE_def NUM_PAG_DATA_def)

end
