(* ===== verification/Zeos_Io.thy ===== *)
theory Zeos_Io
  imports Zeos_Utils
begin

text \<open>
  \<open>io.c\<close> and \<open>devices.c\<close>: the text console. The state is the cursor, the colours, the cells of
  the video memory at \<open>0xb8000\<close> and what was sent to the debug port \<open>0xe9\<close>. The lemmas
  describe printing as writing consecutive cells of a screen of 25 rows and 80 columns that
  wraps around.
\<close>

section \<open>State and operations\<close>

record console =
  cur_x :: Byte
  cur_y :: Byte
  textColor :: int
  textBackground :: int
  screen :: "nat \<Rightarrow> Word16"
  port_e9 :: "Byte list"

definition NUM_COLUMNS :: nat where "NUM_COLUMNS = 80"
definition NUM_ROWS :: nat where "NUM_ROWS = 25"

text \<open>The initial values of the globals; the screen is as the boot loader left it.\<close>

definition io_init :: "(nat \<Rightarrow> Word16) \<Rightarrow> console" where
  "io_init scr = \<lparr>cur_x = 0, cur_y = 19, textColor = 2, textBackground = 0, screen = scr, port_e9 = []\<rparr>"

definition char_cell :: "console \<Rightarrow> Byte \<Rightarrow> Word16" where
  "char_cell s c = ucast c OR push_bit 8 (word_of_int (textColor s)) OR
     push_bit 12 (word_of_int (textBackground s))"

definition newline :: "console \<Rightarrow> console" where
  "newline s = s\<lparr>cur_x := 0, cur_y := of_nat ((unat (cur_y s) + 1) mod NUM_ROWS)\<rparr>"

definition printc :: "Byte \<Rightarrow> console \<Rightarrow> console" where
  "printc c s =
     (let s = s\<lparr>port_e9 := port_e9 s @ [c]\<rparr> in
      if c = 10 then newline s
      else
        let s = s\<lparr>screen := (screen s)(unat (cur_y s) * NUM_COLUMNS + unat (cur_x s) := char_cell s c)\<rparr>;
            s = s\<lparr>cur_x := cur_x s + 1\<rparr>
        in if unat (cur_x s) \<ge> NUM_COLUMNS then newline s else s)"

definition printc_xy :: "Byte \<Rightarrow> Byte \<Rightarrow> Byte \<Rightarrow> console \<Rightarrow> console" where
  "printc_xy mx my c s =
     (let cx = cur_x s; cy = cur_y s;
          s = printc c (s\<lparr>cur_x := mx, cur_y := my\<rparr>)
      in s\<lparr>cur_x := cx, cur_y := cy\<rparr>)"

text \<open>\<open>printk\<close> stops at the terminating zero of its string.\<close>

primrec printk :: "Byte list \<Rightarrow> console \<Rightarrow> console" where
  "printk [] s = s"
| "printk (c # cs) s = (if c = 0 then s else printk cs (printc c s))"

definition cursor_move :: "int \<Rightarrow> int \<Rightarrow> console \<Rightarrow> int \<times> console" where
  "cursor_move posX posY s =
     (if (posX \<ge> int NUM_ROWS \<or> posX < 0) \<or> (posY \<ge> int NUM_COLUMNS \<or> posY < 0) then (- EINVAL, s)
      else (0, s\<lparr>cur_x := word_of_int posY, cur_y := word_of_int posX\<rparr>))"

definition asthetic_change :: "int \<Rightarrow> int \<Rightarrow> console \<Rightarrow> int \<times> console" where
  "asthetic_change color background s =
     (if (color > 15 \<or> color < 0) \<or> (background > 15 \<or> background < 0) then (- EINVAL, s)
      else (0, s\<lparr>textColor := color, textBackground := background\<rparr>))"

text \<open>\<open>sys_write_console\<close>: the buffer is read through \<open>buf\<close>, \<open>i\<close> runs from 0 to \<open>size - 1\<close>.\<close>

definition sys_write_console :: "(int \<Rightarrow> Byte) \<Rightarrow> int \<Rightarrow> console \<Rightarrow> int \<times> console" where
  "sys_write_console buf sz s = (sz, fold (\<lambda>i. printc (buf i)) [0..sz - 1] s)"

text \<open>
  A \<open>Sprite\<close> in user memory \<open>um\<close>: its fields at offsets 0, 4 and 8. The two loops of
  \<open>spriteDraw\<close> visit the cells row by row and leave at the first empty one.
\<close>

definition sprite_x :: "(ptr \<Rightarrow> Byte) \<Rightarrow> ptr \<Rightarrow> int" where
  "sprite_x um sp = int_of_dword (rd32 flat_rd um sp)"

definition sprite_y :: "(ptr \<Rightarrow> Byte) \<Rightarrow> ptr \<Rightarrow> int" where
  "sprite_y um sp = int_of_dword (rd32 flat_rd um (sp + 4))"

definition sprite_content :: "(ptr \<Rightarrow> Byte) \<Rightarrow> ptr \<Rightarrow> ptr" where
  "sprite_content um sp = rd32 flat_rd um (sp + 8)"

primrec sprite_loop :: "(ptr \<Rightarrow> Byte) \<Rightarrow> ptr \<Rightarrow> int \<Rightarrow> int \<Rightarrow> (int \<times> int) list \<Rightarrow> console \<Rightarrow> int \<times> console" where
  "sprite_loop um sp posX posY [] s = (0, s)"
| "sprite_loop um sp posX posY (rc # rcs) s =
     (case rc of (row, col) \<Rightarrow>
        let k = row * sprite_y um sp + col;
            ch = um (sprite_content um sp + word_of_int k)
        in if k > sprite_x um sp * sprite_y um sp \<or> ch = 0 then (- EFAULT, s)
           else sprite_loop um sp posX posY rcs
                  (printc_xy (word_of_int (posX + col)) (word_of_int (posY + row)) ch s))"

definition spriteDraw :: "int \<Rightarrow> int \<Rightarrow> ptr \<Rightarrow> (ptr \<Rightarrow> Byte) \<Rightarrow> console \<Rightarrow> int \<times> console" where
  "spriteDraw posX posY sp um s =
     (if \<not> access_ok 0 sp 12 None then (- EINVAL, s)
      else if (posY \<ge> int NUM_ROWS \<or> posY < 0) \<or> (posX \<ge> int NUM_COLUMNS \<or> posX < 0) then (- EINVAL, s)
      else if sp = 0 \<or> sprite_content um sp = 0 then (- EFAULT, s)
      else if (sprite_x um sp \<le> 0 \<or> sprite_y um sp \<le> 0) \<or>
              (sprite_x um sp > int NUM_ROWS \<or> sprite_y um sp > int NUM_COLUMNS) then (- EINVAL, s)
      else sprite_loop um sp posX posY
             (List.product [0..sprite_x um sp - 1] [0..sprite_y um sp - 1]) s)"

section \<open>The cursor stays on the screen\<close>

definition cursor_ok :: "console \<Rightarrow> bool" where
  "cursor_ok s \<longleftrightarrow> unat (cur_x s) < NUM_COLUMNS \<and> unat (cur_y s) < NUM_ROWS"

definition cursor_pos :: "console \<Rightarrow> nat" where
  "cursor_pos s = unat (cur_y s) * NUM_COLUMNS + unat (cur_x s)"

definition SCREEN_CELLS :: nat where "SCREEN_CELLS = NUM_ROWS * NUM_COLUMNS"

lemmas screen_consts = NUM_COLUMNS_def NUM_ROWS_def SCREEN_CELLS_def

lemma screen_cells_eq: "SCREEN_CELLS = 2000"
  by (simp add: screen_consts)

lemma cursor_ok_newline [simp]: "cursor_ok (newline s)"
  by (simp add: cursor_ok_def newline_def screen_consts unat_of_nat)

lemma cursor_ok_printc: "cursor_ok s \<Longrightarrow> cursor_ok (printc c s)"
  by (auto simp: printc_def Let_def cursor_ok_def newline_def screen_consts unat_of_nat)

lemma cursor_pos_less: "cursor_ok s \<Longrightarrow> cursor_pos s < SCREEN_CELLS"
  by (simp add: cursor_ok_def cursor_pos_def screen_consts)

text \<open>One printed character fills the cell under the cursor and moves to the next cell.\<close>

lemma printc_cell:
  assumes "cursor_ok s" and "c \<noteq> 10"
  shows "screen (printc c s) = (screen s)(cursor_pos s := char_cell s c)"
    and "cursor_pos (printc c s) = (cursor_pos s + 1) mod SCREEN_CELLS"
    and "textColor (printc c s) = textColor s" and "textBackground (printc c s) = textBackground s"
proof -
  have x: "unat (cur_x s) < 80" and y: "unat (cur_y s) < 25"
    using assms(1) by (simp_all add: cursor_ok_def screen_consts)
  have x1: "unat (cur_x s + 1) = unat (cur_x s) + 1"
    using x by (simp add: unat_word_ariths)
  show "screen (printc c s) = (screen s)(cursor_pos s := char_cell s c)"
    using assms(2) by (simp add: printc_def Let_def newline_def cursor_pos_def char_cell_def)
  show "textColor (printc c s) = textColor s" and "textBackground (printc c s) = textBackground s"
    using assms(2) by (simp_all add: printc_def Let_def newline_def)
  show "cursor_pos (printc c s) = (cursor_pos s + 1) mod SCREEN_CELLS"
  proof (cases "unat (cur_x s) = 79")
    case True
    then have p: "cursor_pos s + 1 = (unat (cur_y s) + 1) * 80" by (simp add: cursor_pos_def screen_consts)
    have "(unat (cur_y s) + 1) * 80 mod (25 * 80) = (unat (cur_y s) + 1) mod 25 * 80"
      by (simp only: mod_mult_mult2)
    then show ?thesis
      using assms(2) True x1 p
      by (simp add: printc_def Let_def newline_def cursor_pos_def screen_consts unat_of_nat)
  next
    case False
    then have "unat (cur_x s) < 79" using x by simp
    then have "cursor_pos s + 1 < SCREEN_CELLS" using y by (simp add: cursor_pos_def screen_consts)
    with \<open>unat (cur_x s) < 79\<close> show ?thesis
      using assms(2) x1 by (simp add: printc_def Let_def cursor_pos_def screen_consts)
  qed
qed


lemma printc_port [simp]: "port_e9 (printc c s) = port_e9 s @ [c]"
  by (simp add: printc_def Let_def newline_def)

lemma char_cell_cong:
  "textColor s' = textColor s \<Longrightarrow> textBackground s' = textBackground s \<Longrightarrow> char_cell s' c = char_cell s c"
  by (simp add: char_cell_def)

lemma mod_shift_inject:
  assumes "(p + i) mod n = (p + j) mod n" and "i < n" and "j < (n::nat)"
  shows "i = j"
proof -
  have "j' = i'" if "(p + i') mod n = (p + j') mod n" "i' \<le> j'" "j' < n" for i' j'
  proof -
    have "n dvd j' - i'" using that mod_eq_dvd_iff_nat [of "p + i'" "p + j'" n] by simp
    moreover have "j' - i' < n" using that by simp
    ultimately have "j' - i' = 0" by (meson nat_dvd_not_less neq0_conv)
    with that show ?thesis by simp
  qed
  from this [of i j] this [of j i] assms show ?thesis by (metis nle_le)
qed

text \<open>\<open>printed s cs s'\<close>: the characters \<open>cs\<close> fill the cells from the cursor of \<open>s\<close> on, modulo the
  screen, and nothing else on the screen changes.\<close>

definition printed :: "console \<Rightarrow> Byte list \<Rightarrow> console \<Rightarrow> bool" where
  "printed s cs s' \<longleftrightarrow> cursor_ok s' \<and>
     cursor_pos s' = (cursor_pos s + length cs) mod SCREEN_CELLS \<and>
     textColor s' = textColor s \<and> textBackground s' = textBackground s \<and>
     port_e9 s' = port_e9 s @ cs \<and>
     (\<forall>i<length cs. screen s' ((cursor_pos s + i) mod SCREEN_CELLS) = char_cell s (cs ! i)) \<and>
     (\<forall>k. (\<forall>i<length cs. k \<noteq> (cursor_pos s + i) mod SCREEN_CELLS) \<longrightarrow> screen s' k = screen s k)"

lemma printed_run:
  assumes "cursor_ok s" and "10 \<notin> set cs" and "length cs \<le> SCREEN_CELLS"
  shows "printed s cs (fold printc cs s)"
  using assms
proof (induction cs rule: rev_induct)
  case Nil
  then show ?case by (simp add: printed_def cursor_pos_less)
next
  case (snoc c cs)
  let ?s = "fold printc cs s"
  have IH: "printed s cs ?s" using snoc by simp
  have ok: "cursor_ok ?s" and c: "c \<noteq> 10" using IH snoc.prems by (auto simp: printed_def)
  have p: "cursor_pos ?s = (cursor_pos s + length cs) mod SCREEN_CELLS" using IH by (simp add: printed_def)
  have cell: "char_cell ?s c = char_cell s c" using IH by (simp add: printed_def char_cell_def)
  have ne: "(cursor_pos s + i) mod SCREEN_CELLS \<noteq> cursor_pos ?s" if "i < length cs" for i
    using mod_shift_inject [of "cursor_pos s" i SCREEN_CELLS "length cs"] that snoc.prems(3) p by auto
  show ?case
    unfolding printed_def
  proof (intro conjI allI impI)
    show "cursor_pos (fold printc (cs @ [c]) s) = (cursor_pos s + length (cs @ [c])) mod SCREEN_CELLS"
      using printc_cell(2) [OF ok c] p by (simp add: mod_Suc_eq)
  next
    fix i assume i: "i < length (cs @ [c])"
    show "screen (fold printc (cs @ [c]) s) ((cursor_pos s + i) mod SCREEN_CELLS) = char_cell s ((cs @ [c]) ! i)"
      using IH i ne p printc_cell(1) [OF ok c]
      by (cases "i = length cs") (auto simp: nth_append cell printed_def)
  next
    fix k assume k: "\<forall>i<length (cs @ [c]). k \<noteq> (cursor_pos s + i) mod SCREEN_CELLS"
    then have "k \<noteq> cursor_pos ?s" "\<forall>i<length cs. k \<noteq> (cursor_pos s + i) mod SCREEN_CELLS"
      using p by (auto simp: less_Suc_eq)
    then show "screen (fold printc (cs @ [c]) s) k = screen s k"
      using IH printc_cell(1) [OF ok c] by (simp add: printed_def)
  qed (use IH printc_cell [OF ok c] cursor_ok_printc [OF ok] in \<open>simp_all add: printed_def\<close>)
qed

lemma sys_write_console_fold:
  "sys_write_console buf (int n) s = (int n, fold printc (map (\<lambda>i. buf (int i)) [0..<n]) s)"
proof -
  have "[0..int n - 1] = map int [0..<n]"
  proof (induction n)
    case (Suc n)
    have "[0..int n] = [0..int n - 1] @ [int n]" by (rule upto_rec2) simp
    with Suc show ?case by simp
  qed simp
  then show ?thesis by (simp add: sys_write_console_def fold_map comp_def)
qed

section \<open>The console as a state machine\<close>

text \<open>Every call that reaches the console, with arbitrary arguments.\<close>

inductive console_step :: "console \<Rightarrow> console \<Rightarrow> bool" where
  step_printc: "console_step s (printc c s)"
| step_printc_xy: "console_step s (printc_xy mx my c s)"
| step_printk: "console_step s (printk cs s)"
| step_cursor_move: "console_step s (snd (cursor_move px py s))"
| step_asthetic_change: "console_step s (snd (asthetic_change col bg s))"
| step_write: "console_step s (snd (sys_write_console buf n s))"
| step_spriteDraw: "console_step s (snd (spriteDraw px py sp um s))"

inductive console_reachable :: "console \<Rightarrow> bool" where
  reach_init: "console_reachable (io_init scr)"
| reach_step: "console_reachable s \<Longrightarrow> console_step s s' \<Longrightarrow> console_reachable s'"

definition console_inv :: "console \<Rightarrow> bool" where
  "console_inv s \<longleftrightarrow> cursor_ok s \<and> textColor s \<in> {0..15} \<and> textBackground s \<in> {0..15}"

lemma colours_printc [simp]:
  "textColor (printc c s) = textColor s" "textBackground (printc c s) = textBackground s"
  by (simp_all add: printc_def Let_def newline_def)

lemma inv_printc [simp]: "console_inv s \<Longrightarrow> console_inv (printc c s)"
  by (simp add: console_inv_def cursor_ok_printc)

lemma printc_xy_keeps [simp]:
  "cur_x (printc_xy mx my c s) = cur_x s" "cur_y (printc_xy mx my c s) = cur_y s"
  "textColor (printc_xy mx my c s) = textColor s"
  "textBackground (printc_xy mx my c s) = textBackground s"
  by (simp_all add: printc_xy_def Let_def)

lemma inv_printc_xy [simp]: "console_inv (printc_xy mx my c s) = console_inv s"
  by (simp add: console_inv_def cursor_ok_def)

lemma inv_printk [simp]: "console_inv s \<Longrightarrow> console_inv (printk cs s)"
  by (induction cs arbitrary: s) auto

lemma inv_fold_printc: "console_inv s \<Longrightarrow> console_inv (fold (\<lambda>i. printc (f i)) is s)"
  by (induction "is" arbitrary: s) auto

lemma inv_if_snd: "P (snd a) \<Longrightarrow> P (snd b) \<Longrightarrow> P (snd (if c then a else b))"
  by simp

lemma inv_sprite_loop:
  "console_inv s \<Longrightarrow> console_inv (snd (sprite_loop um sp px py rcs s))"
proof (induction rcs arbitrary: s)
  case (Cons rc rcs)
  show ?case
    unfolding sprite_loop.simps Let_def split_def
    by (rule inv_if_snd [of console_inv]) (use Cons in simp_all)
qed simp

lemma inv_spriteDraw:
  assumes "console_inv s"
  shows "console_inv (snd (spriteDraw px py sp um s))"
  unfolding spriteDraw_def
  by (intro inv_if_snd [of console_inv]) (simp_all only: inv_sprite_loop snd_conv assms)

lemma unat_of_byte_int: "0 \<le> k \<Longrightarrow> k < 256 \<Longrightarrow> unat (word_of_int k :: Byte) = nat k"
  by (simp add: unat_eq_nat_uint uint_word_of_int)

lemma inv_cursor_move: "console_inv s \<Longrightarrow> console_inv (snd (cursor_move px py s))"
  by (auto simp: console_inv_def cursor_move_def cursor_ok_def screen_consts unat_of_byte_int)

lemma inv_step: "console_step s s' \<Longrightarrow> console_inv s \<Longrightarrow> console_inv s'"
proof (induction rule: console_step.induct)
  case (step_write s buf n)
  then show ?case by (simp add: sys_write_console_def inv_fold_printc)
next
  case (step_asthetic_change s col bg)
  then show ?case by (auto simp: asthetic_change_def console_inv_def cursor_ok_def)
qed (simp_all add: inv_cursor_move inv_spriteDraw)

lemma inv_reachable: "console_reachable s \<Longrightarrow> console_inv s"
proof (induction rule: console_reachable.induct)
  case (reach_init scr)
  show ?case by (simp add: console_inv_def io_init_def cursor_ok_def screen_consts)
qed (rule inv_step)

section \<open>Sprites\<close>

text \<open>\<open>printc_xy\<close> writes one cell, on the screen or not, and puts the cursor back.\<close>

lemma printc_xy_cell:
  "c \<noteq> 10 \<Longrightarrow> screen (printc_xy mx my c s) = (screen s)(unat my * NUM_COLUMNS + unat mx := char_cell s c)"
  by (simp add: printc_xy_def printc_def newline_def Let_def char_cell_def)

text \<open>The character of a sprite at a row and column, and the cell it goes to.\<close>

definition sprite_char :: "(ptr \<Rightarrow> Byte) \<Rightarrow> ptr \<Rightarrow> int \<times> int \<Rightarrow> Byte" where
  "sprite_char um sp rc = um (sprite_content um sp + word_of_int (fst rc * sprite_y um sp + snd rc))"

definition sprite_cell :: "int \<Rightarrow> int \<Rightarrow> int \<times> int \<Rightarrow> nat" where
  "sprite_cell px py rc = nat (py + fst rc) * NUM_COLUMNS + nat (px + snd rc)"

definition sprite_area :: "(ptr \<Rightarrow> Byte) \<Rightarrow> ptr \<Rightarrow> (int \<times> int) set" where
  "sprite_area um sp = {0..<sprite_x um sp} \<times> {0..<sprite_y um sp}"

text \<open>A sprite that \<open>spriteDraw\<close> accepts at column \<open>px\<close> and row \<open>py\<close> and that is made of
  characters that fill a cell; it fits when all of it lies on the screen.\<close>

definition sprite_drawable :: "int \<Rightarrow> int \<Rightarrow> ptr \<Rightarrow> (ptr \<Rightarrow> Byte) \<Rightarrow> bool" where
  "sprite_drawable px py sp um \<longleftrightarrow> access_ok 0 sp 12 None \<and> sp \<noteq> 0 \<and> sprite_content um sp \<noteq> 0 \<and>
     0 \<le> px \<and> px < int NUM_COLUMNS \<and> 0 \<le> py \<and> py < int NUM_ROWS \<and>
     0 < sprite_x um sp \<and> sprite_x um sp \<le> int NUM_ROWS \<and>
     0 < sprite_y um sp \<and> sprite_y um sp \<le> int NUM_COLUMNS \<and>
     (\<forall>rc \<in> sprite_area um sp. sprite_char um sp rc \<notin> {0, 10})"

definition sprite_fits :: "int \<Rightarrow> int \<Rightarrow> ptr \<Rightarrow> (ptr \<Rightarrow> Byte) \<Rightarrow> bool" where
  "sprite_fits px py sp um \<longleftrightarrow> py + sprite_x um sp \<le> int NUM_ROWS \<and> px + sprite_y um sp \<le> int NUM_COLUMNS"

lemma sprite_index_bound:
  fixes r c X Y :: int
  assumes "0 \<le> r" "r < X" "0 \<le> c" "c < Y"
  shows "r * Y + c \<le> X * Y"
proof -
  have "(r + 1) * Y \<le> X * Y" using assms by (intro mult_right_mono) auto
  then show ?thesis using assms by (simp add: algebra_simps)
qed

lemma sprite_loop_draws:
  assumes "sprite_drawable px py sp um" and "set rcs \<subseteq> sprite_area um sp"
  shows "sprite_loop um sp px py rcs s =
    (0, fold (\<lambda>rc. printc_xy (word_of_int (px + snd rc)) (word_of_int (py + fst rc)) (sprite_char um sp rc)) rcs s)"
  using assms(2)
proof (induction rcs arbitrary: s)
  case (Cons rc rcs)
  obtain r c where rc: "rc = (r, c)" by fastforce
  then have "(r, c) \<in> sprite_area um sp" using Cons.prems by simp
  then have "sprite_char um sp (r, c) \<noteq> 0"
    and "\<not> r * sprite_y um sp + c > sprite_x um sp * sprite_y um sp"
    using assms(1) sprite_index_bound [of r "sprite_x um sp" c "sprite_y um sp"]
    by (auto simp: sprite_drawable_def sprite_area_def)
  then show ?case
    using Cons by (simp add: rc sprite_char_def Let_def)
qed simp

lemma sprite_cells_drawn:
  assumes "sprite_drawable px py sp um" and "set rcs \<subseteq> sprite_area um sp"
  defines "draw \<equiv> \<lambda>rc. printc_xy (word_of_int (px + snd rc)) (word_of_int (py + fst rc)) (sprite_char um sp rc)"
  shows "cur_x (fold draw rcs s) = cur_x s \<and> cur_y (fold draw rcs s) = cur_y s \<and>
    screen (fold draw rcs s) =
      fold (\<lambda>rc scr. scr(sprite_cell px py rc := char_cell s (sprite_char um sp rc))) rcs (screen s)"
  using assms(2)
proof (induction rcs arbitrary: s)
  case (Cons rc rcs)
  have a: "rc \<in> sprite_area um sp" using Cons.prems by simp
  then have n: "sprite_char um sp rc \<noteq> 10" "0 \<le> px + snd rc" "px + snd rc < 256" "0 \<le> py + fst rc" "py + fst rc < 256"
    using assms(1) by (auto simp: sprite_drawable_def sprite_area_def screen_consts)
  have "unat (word_of_int (px + snd rc) :: Byte) = nat (px + snd rc)"
    "unat (word_of_int (py + fst rc) :: Byte) = nat (py + fst rc)"
    by (rule unat_of_byte_int; use n in linarith)+
  then have "screen (draw rc s) = (screen s)(sprite_cell px py rc := char_cell s (sprite_char um sp rc))"
    using n(1) unfolding draw_def by (simp only: printc_xy_cell sprite_cell_def simp_thms)
  moreover have "char_cell (draw rc s) = char_cell s"
    by (rule ext, rule char_cell_cong) (simp_all add: draw_def)
  moreover have "cur_x (draw rc s) = cur_x s" "cur_y (draw rc s) = cur_y s" by (simp_all add: draw_def)
  ultimately show ?case using Cons.IH [of "draw rc s"] Cons.prems by simp
qed simp

lemma spriteDraw_screen:
  assumes "sprite_drawable px py sp um"
  shows "\<exists>rcs s'. set rcs = sprite_area um sp \<and> spriteDraw px py sp um s = (0, s') \<and>
    cur_x s' = cur_x s \<and> cur_y s' = cur_y s \<and>
    screen s' = fold (\<lambda>rc scr. scr(sprite_cell px py rc := char_cell s (sprite_char um sp rc))) rcs (screen s)"
proof -
  let ?rcs = "List.product [0..sprite_x um sp - 1] [0..sprite_y um sp - 1]"
  let ?draw = "\<lambda>rc. printc_xy (word_of_int (px + snd rc)) (word_of_int (py + fst rc)) (sprite_char um sp rc)"
  have rcs: "set ?rcs = sprite_area um sp" by (auto simp: sprite_area_def)
  have "sprite_loop um sp px py ?rcs s = (0, fold ?draw ?rcs s)"
    by (rule sprite_loop_draws [OF assms]) (simp only: rcs order_refl)
  then have d: "spriteDraw px py sp um s = (0, fold ?draw ?rcs s)"
    using assms unfolding spriteDraw_def sprite_drawable_def by (simp only:) auto
  show ?thesis
    by (rule exI [of _ ?rcs], rule exI [of _ "fold ?draw ?rcs s"])
      (use d rcs sprite_cells_drawn [OF assms, of ?rcs s] in \<open>simp only: order_refl simp_thms\<close>)
qed

lemma cell_coords: "(a::nat) * 80 + b = c * 80 + d \<Longrightarrow> b < 80 \<Longrightarrow> d < 80 \<Longrightarrow> a = c \<and> b = d"
proof -
  assume e: "a * 80 + b = c * 80 + d" and "b < 80" and "d < 80"
  then have "(a * 80 + b) div 80 = a" "(c * 80 + d) div 80 = c" by simp_all
  with e show ?thesis by simp
qed

lemma sprite_cell_inj:
  assumes "sprite_drawable px py sp um" and "sprite_fits px py sp um"
  shows "inj_on (sprite_cell px py) (sprite_area um sp)"
proof (rule inj_onI)
  fix a b assume a: "a \<in> sprite_area um sp" and b: "b \<in> sprite_area um sp"
    and eq: "sprite_cell px py a = sprite_cell px py b"
  have bd: "0 \<le> px + snd a" "px + snd a < 80" "0 \<le> px + snd b" "px + snd b < 80"
    "0 \<le> py + fst a" "0 \<le> py + fst b"
    using assms a b by (auto simp: sprite_drawable_def sprite_fits_def sprite_area_def screen_consts)
  then have "nat (py + fst a) = nat (py + fst b) \<and> nat (px + snd a) = nat (px + snd b)"
    using eq by (intro cell_coords) (simp_all add: sprite_cell_def screen_consts)
  with bd show "a = b" by (simp add: prod_eq_iff eq_nat_nat_iff)
qed

text \<open>A sprite of \<open>r\<close> rows and \<open>c\<close> columns of the letter \<open>A\<close>, in the data pages of a user.\<close>

definition example_sprite :: "Byte \<Rightarrow> Byte \<Rightarrow> ptr \<Rightarrow> Byte" where
  "example_sprite r c = (\<lambda>_. 65)(0x108000 := r, 0x108001 := 0, 0x108002 := 0, 0x108003 := 0,
     0x108004 := c, 0x108005 := 0, 0x108006 := 0, 0x108007 := 0,
     0x108008 := 0x00, 0x108009 := 0x90, 0x10800A := 0x10, 0x10800B := 0x00)"

lemma example_sprite_fields:
  "sprite_x (example_sprite r c) 0x108000 = uint r" "sprite_y (example_sprite r c) 0x108000 = uint c"
  "sprite_content (example_sprite r c) 0x108000 = 0x109000"
proof -
  have "sint (ucast b :: DWord) = uint b" for b :: Byte
  proof -
    have "uint b < 2 ^ 8" using uint_lt2p [of b] by simp
    then have "signed_take_bit 31 (uint b) = uint b"
      by (intro signed_take_bit_int_eq_self) (simp_all add: order_trans [OF _ uint_ge_0])
    then show ?thesis by (simp add: sint_uint uint_up_ucast is_up)
  qed
  then show "sprite_x (example_sprite r c) 0x108000 = uint r" "sprite_y (example_sprite r c) 0x108000 = uint c"
    "sprite_content (example_sprite r c) 0x108000 = 0x109000"
    by (simp_all add: sprite_x_def sprite_y_def sprite_content_def rd32_def flat_rd_def
        example_sprite_def int_of_dword_def)
qed

lemma example_sprite_drawable:
  assumes "0 \<le> px" "px < 80" "0 \<le> py" "py < 25" "0 < r" "r \<le> 25" "0 < c" "c \<le> 80"
  shows "sprite_drawable px py 0x108000 (example_sprite r c)"
proof -
  have far: "example_sprite r c a = 65" if "0x10800C \<le> a" for a
    using that by (auto simp: example_sprite_def)
  have rc: "0 < uint r" "uint r \<le> 25" "0 < uint c" "uint c \<le> 80"
    using assms(5-8) by (simp_all add: word_less_alt word_le_def)
  have "sprite_char (example_sprite r c) 0x108000 (i, j) = 65"
    if "0 \<le> i" "i < uint r" "0 \<le> j" "j < uint c" for i j
  proof -
    define k where "k = i * uint c + j"
    have "uint r * uint c \<le> 25 * 80" using rc by (intro mult_mono) auto
    then have k: "0 \<le> k" "k \<le> 2000"
      using sprite_index_bound [OF that] that rc by (auto simp: k_def)
    then have "unat (word_of_int k :: ptr) = nat k"
      by (simp add: unat_eq_nat_uint uint_word_of_int)
    then have "0x10800C \<le> 0x109000 + (word_of_int k :: ptr)"
      using k by (simp add: word_le_nat_alt unat_word_ariths)
    then show ?thesis unfolding sprite_char_def fst_conv snd_conv example_sprite_fields k_def [symmetric] by (rule far)
  qed
  moreover have "access_ok 0 0x108000 12 None" by (simp add: access_ok_def layout_consts Let_def)
  ultimately show ?thesis
    using assms(1-4) rc by (auto simp: sprite_drawable_def example_sprite_fields sprite_area_def screen_consts)
qed

lemma spriteDraw_cells:
  assumes "sprite_drawable px py sp um" and "sprite_fits px py sp um"
  shows "fst (spriteDraw px py sp um s) = 0 \<and>
    (let s' = snd (spriteDraw px py sp um s) in
       cur_x s' = cur_x s \<and> cur_y s' = cur_y s \<and>
       (\<forall>rc \<in> sprite_area um sp. screen s' (sprite_cell px py rc) = char_cell s (sprite_char um sp rc)) \<and>
       (\<forall>k. k \<notin> sprite_cell px py ` sprite_area um sp \<longrightarrow> screen s' k = screen s k))"
proof -
  obtain rcs s' where "set rcs = sprite_area um sp" "spriteDraw px py sp um s = (0, s')"
    "cur_x s' = cur_x s" "cur_y s' = cur_y s"
    "screen s' = fold (\<lambda>rc scr. scr(sprite_cell px py rc := char_cell s (sprite_char um sp rc))) rcs (screen s)"
    using spriteDraw_screen [OF assms(1)] by blast
  moreover have "fold (\<lambda>rc scr. scr(sprite_cell px py rc := char_cell s (sprite_char um sp rc))) rcs (screen s)
      (sprite_cell px py rc) = char_cell s (sprite_char um sp rc)" if "rc \<in> sprite_area um sp" for rc
    using that calculation(1) sprite_cell_inj [OF assms]
    by (intro fold_upd_in [of "sprite_cell px py" rcs rc "\<lambda>rc. char_cell s (sprite_char um sp rc)"]) auto
  ultimately show ?thesis by (simp add: fold_upd_out)
qed

section \<open>Properties\<close>

text \<open>C15: Writing a buffer of at most one screenful of characters other than newline: \<open>sys_write_console\<close>
  returns the size, puts the characters with the current colours into consecutive cells from the
  cursor on, going from the last cell of the screen to the first, leaves the cursor after the
  last one, and changes no other cell.\<close>

theorem sys_write_console_spec:
  assumes "cursor_ok s" and "n \<le> SCREEN_CELLS" and "\<forall>i<n. buf (int i) \<noteq> 10"
  shows "fst (sys_write_console buf (int n) s) = int n \<and>
    printed s (map (\<lambda>i. buf (int i)) [0..<n]) (snd (sys_write_console buf (int n) s))"
proof -
  have "10 \<notin> set (map (\<lambda>i. buf (int i)) [0..<n])" using assms(3) by force
  with assms show ?thesis by (simp add: sys_write_console_fold printed_run)
qed

theorem sys_write_console_spec_witness:
  "printed (io_init (\<lambda>_. 0)) [104, 105] (snd (sys_write_console (\<lambda>i. if i = 0 then 104 else 105) (int 2) (io_init (\<lambda>_. 0))))"
proof -
  have "cursor_ok (io_init (\<lambda>_. 0))" by (simp add: cursor_ok_def io_init_def screen_consts)
  from sys_write_console_spec [OF this, of 2 "\<lambda>i. if i = 0 then 104 else 105"]
  show ?thesis by (simp add: screen_consts upt_rec)
qed

text \<open>C16: Whatever sequence of console calls is made, with whatever arguments, the cursor stays inside the
  25 rows and 80 columns and the colours stay in the range the hardware cell has bits for.\<close>

theorem console_reachable_inv:
  assumes "console_reachable s"
  shows "unat (cur_x s) < NUM_COLUMNS \<and> unat (cur_y s) < NUM_ROWS \<and>
    textColor s \<in> {0..15} \<and> textBackground s \<in> {0..15}"
  using inv_reachable [OF assms] by (simp add: console_inv_def cursor_ok_def)

theorem console_reachable_inv_witness:
  "unat (cur_x (printc 65 (io_init (\<lambda>_. 0)))) < NUM_COLUMNS"
proof -
  have "console_reachable (printc 65 (io_init (\<lambda>_. 0)))"
    by (rule reach_step [OF reach_init]) (rule step_printc)
  from console_reachable_inv [OF this] show ?thesis by simp
qed

text \<open>\<open>spriteDraw\<close> of a sprite that fits at column \<open>px\<close> and row \<open>py\<close> returns 0, writes each
  character of the sprite to the cell at its row and column, writes no other cell and leaves the
  cursor where it was.\<close>

theorem spriteDraw_spec:
  assumes "sprite_drawable px py sp um" and "sprite_fits px py sp um"
  shows "fst (spriteDraw px py sp um s) = 0 \<and>
    (let s' = snd (spriteDraw px py sp um s) in
       cur_x s' = cur_x s \<and> cur_y s' = cur_y s \<and>
       (\<forall>rc \<in> sprite_area um sp. screen s' (sprite_cell px py rc) = char_cell s (sprite_char um sp rc)) \<and>
       (\<forall>k. k \<notin> sprite_cell px py ` sprite_area um sp \<longrightarrow> screen s' k = screen s k))"
  using assms by (rule spriteDraw_cells)

theorem spriteDraw_spec_witness:
  "fst (spriteDraw 10 20 0x108000 (example_sprite 2 3) (io_init (\<lambda>_. 0))) = 0"
  using spriteDraw_spec [OF example_sprite_drawable, of 10 20 2 3 "io_init (\<lambda>_. 0)"]
  by (simp add: sprite_fits_def example_sprite_fields screen_consts)

text \<open>\<open>spriteDraw\<close> does not clip: a sprite it accepts that does not end above the last row makes it
  write video memory beyond the 2000 cells of the screen, and it returns 0.\<close>

theorem spriteDraw_unclipped:
  assumes "sprite_drawable px py sp um" and "int NUM_ROWS < py + sprite_x um sp"
  shows "fst (spriteDraw px py sp um s) = 0 \<and>
    (\<exists>k\<ge>SCREEN_CELLS. \<exists>rc \<in> sprite_area um sp. k = sprite_cell px py rc \<and>
       screen (snd (spriteDraw px py sp um s)) k = char_cell s (sprite_char um sp rc))"
proof -
  obtain rcs s' where rcs: "set rcs = sprite_area um sp" "spriteDraw px py sp um s = (0, s')"
    "screen s' = fold (\<lambda>rc scr. scr(sprite_cell px py rc := char_cell s (sprite_char um sp rc))) rcs (screen s)"
    using spriteDraw_screen [OF assms(1)] by blast
  let ?rc = "(sprite_x um sp - 1, 0)"
  have a: "?rc \<in> sprite_area um sp"
    using assms(1) by (simp add: sprite_area_def sprite_drawable_def)
  moreover have "25 \<le> nat (py + fst ?rc)" using assms(2) by (simp add: screen_consts)
  then have "SCREEN_CELLS \<le> sprite_cell px py ?rc" by (simp add: sprite_cell_def screen_consts)
  moreover obtain rc where "rc \<in> sprite_area um sp" "sprite_cell px py rc = sprite_cell px py ?rc"
    "screen s' (sprite_cell px py ?rc) = char_cell s (sprite_char um sp rc)"
    using fold_upd_some [of "sprite_cell px py ?rc" "sprite_cell px py" rcs
        "\<lambda>rc. char_cell s (sprite_char um sp rc)" "screen s"] rcs(1,3) a by auto
  ultimately show ?thesis using rcs(2) by (metis fst_conv snd_conv)
qed

theorem spriteDraw_unclipped_witness:
  "\<exists>k\<ge>2000. screen (snd (spriteDraw 0 24 0x108000 (example_sprite 2 1) (io_init (\<lambda>_. 0)))) k \<noteq> 0"
proof -
  have d: "sprite_drawable 0 24 0x108000 (example_sprite 2 1)" by (rule example_sprite_drawable) simp_all
  obtain k rc where "SCREEN_CELLS \<le> k" "rc \<in> sprite_area (example_sprite 2 1) 0x108000"
    "screen (snd (spriteDraw 0 24 0x108000 (example_sprite 2 1) (io_init (\<lambda>_. 0)))) k =
      char_cell (io_init (\<lambda>_. 0)) (sprite_char (example_sprite 2 1) 0x108000 rc)"
    using spriteDraw_unclipped [OF d, of "io_init (\<lambda>_. 0)"]
    by (auto simp: example_sprite_fields screen_consts)
  moreover have "bit (char_cell (io_init (\<lambda>_. 0)) ch) 9" for ch
    by (simp add: char_cell_def io_init_def bit_simps)
  then have "char_cell (io_init (\<lambda>_. 0)) ch \<noteq> 0" for ch by (metis bit_0_eq bot_apply bot_bool_def)
  ultimately show ?thesis
    by (intro exI [of _ k]) (simp add: screen_cells_eq)
qed

end
