(* ===== verification/Zeos_Queues.thy ===== *)
theory Zeos_Queues
  imports Zeos_List
begin

text \<open>
  Families of queues. The kernel links its tasks into several queues through one node of each task, so a
  task can be in one queue at a time. \<open>family\<close> states this of a store of nodes; the locale holds what every
  operation of \<open>list.c\<close> does to a whole family, once for all kernels that use the lists.
\<close>

section \<open>Families\<close>

text \<open>\<open>family H M node h Q\<close>: in the store \<open>h\<close> every queue head \<open>q\<close> of \<open>H\<close> holds the nodes of the members \<open>Q q\<close>, all
  of \<open>M\<close>, and no member is in two queues.\<close>

definition family :: "ptr set \<Rightarrow> ptr set \<Rightarrow> (ptr \<Rightarrow> ptr) \<Rightarrow> links \<Rightarrow> (ptr \<Rightarrow> ptr list) \<Rightarrow> bool" where
  "family H M node h Q \<longleftrightarrow>
     (\<forall>q \<in> H. dlist h q (map node (Q q)) \<and> set (Q q) \<subseteq> M) \<and>
     (\<forall>q \<in> H. \<forall>r \<in> H. q \<noteq> r \<longrightarrow> set (Q q) \<inter> set (Q r) = {})"

definition enqueued :: "ptr set \<Rightarrow> (ptr \<Rightarrow> ptr list) \<Rightarrow> ptr set" where
  "enqueued H Q = (\<Union>q \<in> H. set (Q q))"

lemma familyD:
  assumes "family H M node h Q" "q \<in> H"
  shows "dlist h q (map node (Q q))" "set (Q q) \<subseteq> M"
    "\<And>r. r \<in> H \<Longrightarrow> q \<noteq> r \<Longrightarrow> set (Q q) \<inter> set (Q r) = {}"
  using assms unfolding family_def by blast+

lemma family_cong:
  assumes "family H M node h Q" "\<And>q p. q \<in> H \<Longrightarrow> p \<in> set (q # map node (Q q)) \<Longrightarrow> h' p = h p"
  shows "family H M node h' Q"
proof -
  have "dlist h' q (map node (Q q))" if "q \<in> H" for q
    using dlist_cong [of q "map node (Q q)" h' h] assms(2) [OF that] familyD(1) [OF assms(1) that] by blast
  then show ?thesis using assms(1) by (simp add: family_def)
qed

lemma family_update:
  assumes "family H M node h Q" "q \<in> H" "dlist h' q (map node xs)" "set xs \<subseteq> M"
    and other: "\<And>r. r \<in> H \<Longrightarrow> r \<noteq> q \<Longrightarrow> dlist h' r (map node (Q r)) \<and> set xs \<inter> set (Q r) = {}"
  shows "family H M node h' (Q(q := xs))"
  unfolding family_def
proof (intro conjI ballI impI)
  fix r assume r: "r \<in> H"
  show "dlist h' r (map node ((Q(q := xs)) r))" using assms(3) other [OF r] by (cases "r = q") simp_all
  show "set ((Q(q := xs)) r) \<subseteq> M" using assms(4) familyD(2) [OF assms(1) r] by (cases "r = q") simp_all
  fix r' assume r': "r' \<in> H" "r \<noteq> r'"
  show "set ((Q(q := xs)) r) \<inter> set ((Q(q := xs)) r') = {}"
    using other [OF r] other [OF r'(1)] familyD(3) [OF assms(1) r r'] r'(2)
    by (cases "r = q"; cases "r' = q") (auto simp: Int_commute)
qed

lemma family_empty: "family H M node h Q \<Longrightarrow> q \<in> H \<Longrightarrow> list_empty q h \<longleftrightarrow> Q q = []"
  using lq.is_empty_repr [OF familyD(1)] by fastforce

lemma family_first: "family H M node h Q \<Longrightarrow> q \<in> H \<Longrightarrow> Q q = t # ts \<Longrightarrow> list_first q h = node t"
  using lq.first_repr [of h q "node t" "map node ts"] familyD(1) [of H M node h Q q] by simp

lemma family_distinct: "family H M node h Q \<Longrightarrow> q \<in> H \<Longrightarrow> distinct (Q q)"
  using lq.repr_distinct [OF familyD(1)] by (fastforce simp: distinct_map)

lemma enqueued_split: "q \<in> H \<Longrightarrow> enqueued H Q = set (Q q) \<union> (\<Union>r \<in> H - {q}. set (Q r))"
  by (auto simp: enqueued_def)

lemma enqueued_upd:
  "q \<in> H \<Longrightarrow> enqueued H (Q(q := xs)) = set xs \<union> (\<Union>r \<in> H - {q}. set (Q r))"
  using enqueued_split [of q H "Q(q := xs)"] by auto

lemma enqueued_del:
  assumes "family H M node h Q" "q \<in> H" "Q q = us @ t # vs"
  shows "enqueued H (Q(q := us @ vs)) = enqueued H Q - {t}"
proof -
  have "t \<notin> set (us @ vs)" using family_distinct [OF assms(1,2)] assms(3) by auto
  moreover have "t \<notin> (\<Union>r \<in> H - {q}. set (Q r))"
    using familyD(3) [OF assms(1,2)] assms(3) by fastforce
  ultimately show ?thesis
    unfolding enqueued_upd [OF assms(2)] enqueued_split [OF assms(2), of Q] assms(3) by auto
qed

lemma enqueued_add:
  "q \<in> H \<Longrightarrow> set xs = insert t (set (Q q)) \<Longrightarrow> enqueued H (Q(q := xs)) = insert t (enqueued H Q)"
  by (simp add: enqueued_upd enqueued_split [of q H Q])

lemma not_enqueuedD: "t \<notin> enqueued H Q \<Longrightarrow> q \<in> H \<Longrightarrow> t \<notin> set (Q q)"
  by (auto simp: enqueued_def)

section \<open>The operations on a family\<close>

text \<open>
  What a kernel promises of its layout: the nodes of its tasks are not queue heads, and different tasks have
  different nodes. \<open>'l\<close> is the type of layouts and \<open>ok\<close> what the linker guarantees of one.
\<close>

locale queue_family =
  fixes ok :: "'l \<Rightarrow> bool"
    and hds :: "'l \<Rightarrow> ptr set"
    and mem :: "'l \<Rightarrow> ptr set"
    and node :: "ptr \<Rightarrow> ptr"
  assumes node_not_head: "ok L \<Longrightarrow> t \<in> mem L \<Longrightarrow> q \<in> hds L \<Longrightarrow> node t \<noteq> q"
    and node_inj: "inj node"
begin

lemma family_disjoint_nodes:
  assumes "ok L" "family (hds L) (mem L) node h Q" "q \<in> hds L" "r \<in> hds L" "q \<noteq> r"
  shows "set (q # map node (Q q)) \<inter> set (r # map node (Q r)) = {}"
proof -
  have "node t \<noteq> p" if "t \<in> set (Q q) \<union> set (Q r)" "p \<in> hds L" for t p
    using that familyD(2) [OF assms(2,3)] familyD(2) [OF assms(2,4)]
    by (intro node_not_head [OF assms(1)]) auto
  then have "q \<notin> node ` set (Q r)" "r \<notin> node ` set (Q q)" using assms(3,4) by blast+
  moreover have "node ` set (Q q) \<inter> node ` set (Q r) = {}"
    using familyD(3) [OF assms(2-5)] by (auto dest: injD [OF node_inj])
  ultimately show ?thesis using assms(5) by auto
qed

lemma family_node_fresh:
  assumes "ok L" "t \<in> mem L" "t \<notin> enqueued (hds L) Q" "q \<in> hds L"
  shows "node t \<notin> set (q # map node (Q q))"
  using assms node_not_head [OF assms(1,2,4)] by (auto simp: enqueued_def dest: injD [OF node_inj])

lemma family_fresh_frame:
  assumes "ok L" "family (hds L) (mem L) node h Q" "t \<in> mem L" "t \<notin> enqueued (hds L) Q" "q \<in> hds L" "r \<in> hds L" "r \<noteq> q"
  shows "set (node t # q # map node (Q q)) \<inter> set (r # map node (Q r)) = {}"
  using family_disjoint_nodes [OF assms(1,2,5,6)] family_node_fresh [OF assms(1,3,4,6)] assms(7) by auto

lemma family_enq:
  assumes "ok L" "family (hds L) (mem L) node h Q" "t \<in> mem L" "t \<notin> enqueued (hds L) Q" "q \<in> hds L"
  shows "family (hds L) (mem L) node (list_add_tail (node t) q h) (Q(q := Q q @ [t]))"
proof (rule family_update [OF assms(2,5)])
  show "dlist (list_add_tail (node t) q h) q (map node (Q q @ [t]))"
    using lq.repr_enq [OF familyD(1) [OF assms(2,5)] family_node_fresh [OF assms(1,3,4,5)]] by simp
  show "set (Q q @ [t]) \<subseteq> mem L" using familyD(2) [OF assms(2,5)] assms(3) by simp
  fix r assume r: "r \<in> hds L" "r \<noteq> q"
  have "t \<notin> set (Q r)" using assms(4) r by (auto simp: enqueued_def)
  with familyD(3) [OF assms(2,5) r(1)] r(2)
    lq.enq_frame [OF familyD(1) [OF assms(2,5)] familyD(1) [OF assms(2) r(1)] family_fresh_frame [OF assms r]]
  show "dlist (list_add_tail (node t) q h) r (map node (Q r)) \<and> set (Q q @ [t]) \<inter> set (Q r) = {}" by auto
qed

lemma family_push:
  assumes "ok L" "family (hds L) (mem L) node h Q" "t \<in> mem L" "t \<notin> enqueued (hds L) Q" "q \<in> hds L"
  shows "family (hds L) (mem L) node (list_add (node t) q h) (Q(q := t # Q q))"
proof (rule family_update [OF assms(2,5)])
  show "dlist (list_add (node t) q h) q (map node (t # Q q))"
    using lq.repr_push [OF familyD(1) [OF assms(2,5)] family_node_fresh [OF assms(1,3,4,5)]] by simp
  show "set (t # Q q) \<subseteq> mem L" using familyD(2) [OF assms(2,5)] assms(3) by simp
  fix r assume r: "r \<in> hds L" "r \<noteq> q"
  have "t \<notin> set (Q r)" using assms(4) r by (auto simp: enqueued_def)
  with familyD(3) [OF assms(2,5) r(1)] r(2)
    lq.push_frame [OF familyD(1) [OF assms(2,5)] familyD(1) [OF assms(2) r(1)] family_fresh_frame [OF assms r]]
  show "dlist (list_add (node t) q h) r (map node (Q r)) \<and> set (t # Q q) \<inter> set (Q r) = {}" by auto
qed

lemma family_del:
  assumes "ok L" "family (hds L) (mem L) node h Q" "q \<in> hds L" "Q q = us @ t # vs"
  shows "family (hds L) (mem L) node (list_del (node t) h) (Q(q := us @ vs))"
proof (rule family_update [OF assms(2,3)])
  note d = familyD(1) [OF assms(2,3)]
  show "dlist (list_del (node t) h) q (map node (us @ vs))"
    using lq.repr_del [of h q "map node us" "node t" "map node vs"] d assms(4) by simp
  show "set (us @ vs) \<subseteq> mem L" using familyD(2) [OF assms(2,3)] assms(4) by simp
  fix r assume r: "r \<in> hds L" "r \<noteq> q"
  have "node t \<in> set (map node (Q q))" using assms(4) by simp
  from lq.del_frame [OF d this familyD(1) [OF assms(2) r(1)]]
    family_disjoint_nodes [OF assms(1,2,3) r(1)] familyD(3) [OF assms(2,3) r(1)] r(2) assms(4)
  show "dlist (list_del (node t) h) r (map node (Q r)) \<and> set (us @ vs) \<inter> set (Q r) = {}" by auto
qed

end

end
