(* ===== verification/Zeos_Kstate.thy ===== *)
theory Zeos_Kstate
  imports Zeos_Queues Zeos_Utils Zeos_Mm Zeos_Io
begin

text \<open>
  The state of the kernel (\<open>include/sched.h\<close>, \<open>include/stats.h\<close>, \<open>include/io.h\<close>): task structures
  and semaphores kept by address, the store of list nodes, kernel stacks, memory, console and
  counters. A task is found from its list node and from the stack pointer by clearing the low
  twelve bits, as in the code. \<open>queues\<close> says which tasks each queue of the kernel holds; its
  lemmas lift the contract of the linked lists to the queues of tasks.
\<close>

section \<open>Data\<close>

datatype state_t = ST_RUN | ST_READY | ST_BLOCKED

record stats =
  user_ticks :: DWord
  system_ticks :: DWord
  blocked_ticks :: DWord
  ready_ticks :: DWord
  elapsed_total_ticks :: DWord
  total_trans :: DWord
  remaining_ticks :: DWord

text \<open>\<open>struct task_struct\<close>; its field \<open>list\<close> is the node at offset 12, in the store of links.\<close>

record task_struct =
  PID :: int
  TID :: int
  dir_pages_baseAddr :: ptr
  register_esp :: ptr
  state :: state_t
  total_quantum :: int
  p_stats :: stats
  heap_start_proc :: ptr
  heap_end_proc :: ptr
  heap_pointer_proc :: ptr
  ustack :: ptr
  semafors :: ptr

text \<open>\<open>struct sem_t\<close>; its field \<open>blocked\<close> is the list head at offset 8.\<close>

record sem_t =
  semid :: int
  count :: int
  sem_PID :: int

lemma sem_t_fields [simp]:
  "S\<lparr>semid := i, count := c, sem_PID := p\<rparr> = \<lparr>semid = i, count = c, sem_PID = p\<rparr>"
  by (cases S) simp

text \<open>\<open>struct c_Buffer\<close>, the keyboard buffer.\<close>

record c_Buffer =
  buffer :: "Byte list"
  rpointer :: DWord
  wpointer :: DWord
  Bwritten :: DWord

text \<open>
  The kernel state. \<open>kstack\<close> holds the words of the kernel stacks by address, \<open>ram\<close> the bytes
  of physical memory, \<open>esp\<close> the kernel stack pointer at the call of the running handler,
  \<open>msr_175\<close> the kernel stack that \<open>sysenter\<close> loads, and \<open>tsc\<close> the successive readings of the
  time stamp counter, of which \<open>tsc_reads\<close> have been consumed.
\<close>

record kstate =
  links :: links
  tasks :: "ptr \<Rightarrow> task_struct"
  sems :: "ptr \<Rightarrow> sem_t"
  kstack :: "ptr \<Rightarrow> DWord"
  ram :: "ptr \<Rightarrow> Byte"
  mm :: mm_state
  con :: console
  cBuffer :: c_Buffer
  idle_task :: ptr
  remaining_quantum :: int
  zeos_ticks :: int
  global_PID :: int
  global_TID :: int
  esp :: ptr
  tss_esp0 :: ptr
  msr_175 :: ptr
  heap_pointer :: ptr
  tsc :: "nat \<Rightarrow> 64 word"
  tsc_reads :: nat

section \<open>Addresses\<close>

text \<open>\<open>task[i]\<close>, the list node of a task, the free and ready queues, semaphore \<open>i\<close> of an array
  and its queue of blocked threads.\<close>

definition task :: "symtab \<Rightarrow> nat \<Rightarrow> ptr" where
  "task L i = protected_tasks L (i + 1)"

definition tnode :: "ptr \<Rightarrow> ptr" where
  "tnode t = t + 12"

definition freequeue :: "symtab \<Rightarrow> ptr" where
  "freequeue L = sym_freequeue L"

definition readyqueue :: "symtab \<Rightarrow> ptr" where
  "readyqueue L = sym_readyqueue L"

definition sem_at :: "ptr \<Rightarrow> int \<Rightarrow> ptr" where
  "sem_at a i = a + word_of_int (20 * i)"

definition sem_blocked :: "ptr \<Rightarrow> int \<Rightarrow> ptr" where
  "sem_blocked a i = sem_at a i + 8"

text \<open>\<open>&stack[i]\<close> of a task union.\<close>

definition stack_slot :: "ptr \<Rightarrow> nat \<Rightarrow> ptr" where
  "stack_slot t i = t + of_nat (4 * i)"

text \<open>
  \<open>current\<close> masks the address of its local variable, three words below the caller's stack
  pointer: the return address, the saved \<open>ebp\<close>, the local.
\<close>

definition current :: "kstate \<Rightarrow> ptr" where
  "current s = (esp s - 12) AND 0xfffff000"

definition list_head_to_task_struct :: "ptr \<Rightarrow> ptr" where
  "list_head_to_task_struct l = l AND 0xfffff000"

section \<open>Access to the state\<close>

definition upd_task :: "ptr \<Rightarrow> (task_struct \<Rightarrow> task_struct) \<Rightarrow> kstate \<Rightarrow> kstate" where
  "upd_task t f s = s\<lparr>tasks := (tasks s)(t := f (tasks s t))\<rparr>"

definition upd_sem :: "ptr \<Rightarrow> (sem_t \<Rightarrow> sem_t) \<Rightarrow> kstate \<Rightarrow> kstate" where
  "upd_sem a f s = s\<lparr>sems := (sems s)(a := f (sems s a))\<rparr>"

definition upd_links :: "(links \<Rightarrow> links) \<Rightarrow> kstate \<Rightarrow> kstate" where
  "upd_links f s = s\<lparr>links := f (links s)\<rparr>"

definition upd_mm :: "(mm_state \<Rightarrow> mm_state) \<Rightarrow> kstate \<Rightarrow> kstate" where
  "upd_mm f s = s\<lparr>mm := f (mm s)\<rparr>"

definition upd_con :: "(console \<Rightarrow> console) \<Rightarrow> kstate \<Rightarrow> kstate" where
  "upd_con f s = s\<lparr>con := f (con s)\<rparr>"

definition put_kstack :: "ptr \<Rightarrow> DWord \<Rightarrow> kstate \<Rightarrow> kstate" where
  "put_kstack a v s = s\<lparr>kstack := (kstack s)(a := v)\<rparr>"

text \<open>A call of \<open>get_ticks\<close>.\<close>

definition read_ticks :: "kstate \<Rightarrow> DWord \<times> kstate" where
  "read_ticks s = (get_ticks (tsc s (tsc_reads s)), s\<lparr>tsc_reads := tsc_reads s + 1\<rparr>)"

text \<open>The calls of \<open>update_stats\<close> on the user, system and ready ticks of a task.\<close>

definition charge_user :: "ptr \<Rightarrow> kstate \<Rightarrow> kstate" where
  "charge_user t s =
     (case read_ticks s of (now, s) \<Rightarrow>
        upd_task t (\<lambda>T. let (v, e) = update_stats now (user_ticks (p_stats T), elapsed_total_ticks (p_stats T))
          in T\<lparr>p_stats := (p_stats T)\<lparr>user_ticks := v, elapsed_total_ticks := e\<rparr>\<rparr>) s)"

definition charge_system :: "ptr \<Rightarrow> kstate \<Rightarrow> kstate" where
  "charge_system t s =
     (case read_ticks s of (now, s) \<Rightarrow>
        upd_task t (\<lambda>T. let (v, e) = update_stats now (system_ticks (p_stats T), elapsed_total_ticks (p_stats T))
          in T\<lparr>p_stats := (p_stats T)\<lparr>system_ticks := v, elapsed_total_ticks := e\<rparr>\<rparr>) s)"

definition charge_ready :: "ptr \<Rightarrow> kstate \<Rightarrow> kstate" where
  "charge_ready t s =
     (case read_ticks s of (now, s) \<Rightarrow>
        upd_task t (\<lambda>T. let (v, e) = update_stats now (ready_ticks (p_stats T), elapsed_total_ticks (p_stats T))
          in T\<lparr>p_stats := (p_stats T)\<lparr>ready_ticks := v, elapsed_total_ticks := e\<rparr>\<rparr>) s)"

section \<open>Lemmas on the state\<close>

text \<open>What each access to the state changes and keeps.\<close>

lemma charge_user_simps [simp]:
  "links (charge_user t s) = links s" "sems (charge_user t s) = sems s"
  "kstack (charge_user t s) = kstack s" "ram (charge_user t s) = ram s"
  "mm (charge_user t s) = mm s" "con (charge_user t s) = con s"
  "cBuffer (charge_user t s) = cBuffer s" "idle_task (charge_user t s) = idle_task s"
  "remaining_quantum (charge_user t s) = remaining_quantum s"
  "zeos_ticks (charge_user t s) = zeos_ticks s" "global_PID (charge_user t s) = global_PID s"
  "global_TID (charge_user t s) = global_TID s" "esp (charge_user t s) = esp s"
  "tss_esp0 (charge_user t s) = tss_esp0 s" "msr_175 (charge_user t s) = msr_175 s"
  "heap_pointer (charge_user t s) = heap_pointer s" "tsc (charge_user t s) = tsc s"
  "PID (tasks (charge_user t s) u) = PID (tasks s u)"
  "TID (tasks (charge_user t s) u) = TID (tasks s u)"
  "dir_pages_baseAddr (tasks (charge_user t s) u) = dir_pages_baseAddr (tasks s u)"
  "register_esp (tasks (charge_user t s) u) = register_esp (tasks s u)"
  "state (tasks (charge_user t s) u) = state (tasks s u)"
  "total_quantum (tasks (charge_user t s) u) = total_quantum (tasks s u)"
  "heap_start_proc (tasks (charge_user t s) u) = heap_start_proc (tasks s u)"
  "heap_end_proc (tasks (charge_user t s) u) = heap_end_proc (tasks s u)"
  "heap_pointer_proc (tasks (charge_user t s) u) = heap_pointer_proc (tasks s u)"
  "ustack (tasks (charge_user t s) u) = ustack (tasks s u)"
  "semafors (tasks (charge_user t s) u) = semafors (tasks s u)"
  by (simp_all add: charge_user_def read_ticks_def upd_task_def Let_def split_def)

lemma charge_system_simps [simp]:
  "links (charge_system t s) = links s" "sems (charge_system t s) = sems s"
  "kstack (charge_system t s) = kstack s" "ram (charge_system t s) = ram s"
  "mm (charge_system t s) = mm s" "con (charge_system t s) = con s"
  "cBuffer (charge_system t s) = cBuffer s" "idle_task (charge_system t s) = idle_task s"
  "remaining_quantum (charge_system t s) = remaining_quantum s"
  "zeos_ticks (charge_system t s) = zeos_ticks s" "global_PID (charge_system t s) = global_PID s"
  "global_TID (charge_system t s) = global_TID s" "esp (charge_system t s) = esp s"
  "tss_esp0 (charge_system t s) = tss_esp0 s" "msr_175 (charge_system t s) = msr_175 s"
  "heap_pointer (charge_system t s) = heap_pointer s" "tsc (charge_system t s) = tsc s"
  "PID (tasks (charge_system t s) u) = PID (tasks s u)"
  "TID (tasks (charge_system t s) u) = TID (tasks s u)"
  "dir_pages_baseAddr (tasks (charge_system t s) u) = dir_pages_baseAddr (tasks s u)"
  "register_esp (tasks (charge_system t s) u) = register_esp (tasks s u)"
  "state (tasks (charge_system t s) u) = state (tasks s u)"
  "total_quantum (tasks (charge_system t s) u) = total_quantum (tasks s u)"
  "heap_start_proc (tasks (charge_system t s) u) = heap_start_proc (tasks s u)"
  "heap_end_proc (tasks (charge_system t s) u) = heap_end_proc (tasks s u)"
  "heap_pointer_proc (tasks (charge_system t s) u) = heap_pointer_proc (tasks s u)"
  "ustack (tasks (charge_system t s) u) = ustack (tasks s u)"
  "semafors (tasks (charge_system t s) u) = semafors (tasks s u)"
  by (simp_all add: charge_system_def read_ticks_def upd_task_def Let_def split_def)

lemma charge_ready_simps [simp]:
  "links (charge_ready t s) = links s" "sems (charge_ready t s) = sems s"
  "kstack (charge_ready t s) = kstack s" "ram (charge_ready t s) = ram s"
  "mm (charge_ready t s) = mm s" "con (charge_ready t s) = con s"
  "cBuffer (charge_ready t s) = cBuffer s" "idle_task (charge_ready t s) = idle_task s"
  "remaining_quantum (charge_ready t s) = remaining_quantum s"
  "zeos_ticks (charge_ready t s) = zeos_ticks s" "global_PID (charge_ready t s) = global_PID s"
  "global_TID (charge_ready t s) = global_TID s" "esp (charge_ready t s) = esp s"
  "tss_esp0 (charge_ready t s) = tss_esp0 s" "msr_175 (charge_ready t s) = msr_175 s"
  "heap_pointer (charge_ready t s) = heap_pointer s" "tsc (charge_ready t s) = tsc s"
  "PID (tasks (charge_ready t s) u) = PID (tasks s u)"
  "TID (tasks (charge_ready t s) u) = TID (tasks s u)"
  "dir_pages_baseAddr (tasks (charge_ready t s) u) = dir_pages_baseAddr (tasks s u)"
  "register_esp (tasks (charge_ready t s) u) = register_esp (tasks s u)"
  "state (tasks (charge_ready t s) u) = state (tasks s u)"
  "total_quantum (tasks (charge_ready t s) u) = total_quantum (tasks s u)"
  "heap_start_proc (tasks (charge_ready t s) u) = heap_start_proc (tasks s u)"
  "heap_end_proc (tasks (charge_ready t s) u) = heap_end_proc (tasks s u)"
  "heap_pointer_proc (tasks (charge_ready t s) u) = heap_pointer_proc (tasks s u)"
  "ustack (tasks (charge_ready t s) u) = ustack (tasks s u)"
  "semafors (tasks (charge_ready t s) u) = semafors (tasks s u)"
  by (simp_all add: charge_ready_def read_ticks_def upd_task_def Let_def split_def)

lemma upd_task_simps [simp]:
  "links (upd_task t f s) = links s" "sems (upd_task t f s) = sems s"
  "kstack (upd_task t f s) = kstack s" "ram (upd_task t f s) = ram s" "mm (upd_task t f s) = mm s"
  "con (upd_task t f s) = con s" "cBuffer (upd_task t f s) = cBuffer s"
  "idle_task (upd_task t f s) = idle_task s"
  "remaining_quantum (upd_task t f s) = remaining_quantum s"
  "zeos_ticks (upd_task t f s) = zeos_ticks s" "global_PID (upd_task t f s) = global_PID s"
  "global_TID (upd_task t f s) = global_TID s" "esp (upd_task t f s) = esp s"
  "tss_esp0 (upd_task t f s) = tss_esp0 s" "msr_175 (upd_task t f s) = msr_175 s"
  "heap_pointer (upd_task t f s) = heap_pointer s" "tsc (upd_task t f s) = tsc s"
  "tsc_reads (upd_task t f s) = tsc_reads s"
  "tasks (upd_task t f s) u = (if u = t then f (tasks s t) else tasks s u)"
  by (simp_all add: upd_task_def)

lemma upd_sem_simps [simp]:
  "links (upd_sem a f s) = links s" "kstack (upd_sem a f s) = kstack s"
  "ram (upd_sem a f s) = ram s" "mm (upd_sem a f s) = mm s" "con (upd_sem a f s) = con s"
  "cBuffer (upd_sem a f s) = cBuffer s" "idle_task (upd_sem a f s) = idle_task s"
  "remaining_quantum (upd_sem a f s) = remaining_quantum s"
  "zeos_ticks (upd_sem a f s) = zeos_ticks s" "global_PID (upd_sem a f s) = global_PID s"
  "global_TID (upd_sem a f s) = global_TID s" "esp (upd_sem a f s) = esp s"
  "tss_esp0 (upd_sem a f s) = tss_esp0 s" "msr_175 (upd_sem a f s) = msr_175 s"
  "heap_pointer (upd_sem a f s) = heap_pointer s" "tsc (upd_sem a f s) = tsc s"
  "tasks (upd_sem a f s) = tasks s" "tsc_reads (upd_sem a f s) = tsc_reads s"
  "sems (upd_sem a f s) b = (if b = a then f (sems s a) else sems s b)"
  by (simp_all add: upd_sem_def)

lemma upd_links_simps [simp]:
  "sems (upd_links f s) = sems s" "kstack (upd_links f s) = kstack s" "ram (upd_links f s) = ram s"
  "mm (upd_links f s) = mm s" "con (upd_links f s) = con s" "cBuffer (upd_links f s) = cBuffer s"
  "idle_task (upd_links f s) = idle_task s"
  "remaining_quantum (upd_links f s) = remaining_quantum s"
  "zeos_ticks (upd_links f s) = zeos_ticks s" "global_PID (upd_links f s) = global_PID s"
  "global_TID (upd_links f s) = global_TID s" "esp (upd_links f s) = esp s"
  "tss_esp0 (upd_links f s) = tss_esp0 s" "msr_175 (upd_links f s) = msr_175 s"
  "heap_pointer (upd_links f s) = heap_pointer s" "tsc (upd_links f s) = tsc s"
  "tasks (upd_links f s) = tasks s" "tsc_reads (upd_links f s) = tsc_reads s"
  "links (upd_links f s) = f (links s)"
  by (simp_all add: upd_links_def)

lemma upd_mm_simps [simp]:
  "links (upd_mm f s) = links s" "sems (upd_mm f s) = sems s" "kstack (upd_mm f s) = kstack s"
  "ram (upd_mm f s) = ram s" "con (upd_mm f s) = con s" "cBuffer (upd_mm f s) = cBuffer s"
  "idle_task (upd_mm f s) = idle_task s" "remaining_quantum (upd_mm f s) = remaining_quantum s"
  "zeos_ticks (upd_mm f s) = zeos_ticks s" "global_PID (upd_mm f s) = global_PID s"
  "global_TID (upd_mm f s) = global_TID s" "esp (upd_mm f s) = esp s"
  "tss_esp0 (upd_mm f s) = tss_esp0 s" "msr_175 (upd_mm f s) = msr_175 s"
  "heap_pointer (upd_mm f s) = heap_pointer s" "tsc (upd_mm f s) = tsc s"
  "tasks (upd_mm f s) = tasks s" "tsc_reads (upd_mm f s) = tsc_reads s" "mm (upd_mm f s) = f (mm s)"
  by (simp_all add: upd_mm_def)

lemma upd_con_simps [simp]:
  "links (upd_con f s) = links s" "sems (upd_con f s) = sems s" "kstack (upd_con f s) = kstack s"
  "ram (upd_con f s) = ram s" "mm (upd_con f s) = mm s" "cBuffer (upd_con f s) = cBuffer s"
  "idle_task (upd_con f s) = idle_task s" "remaining_quantum (upd_con f s) = remaining_quantum s"
  "zeos_ticks (upd_con f s) = zeos_ticks s" "global_PID (upd_con f s) = global_PID s"
  "global_TID (upd_con f s) = global_TID s" "esp (upd_con f s) = esp s"
  "tss_esp0 (upd_con f s) = tss_esp0 s" "msr_175 (upd_con f s) = msr_175 s"
  "heap_pointer (upd_con f s) = heap_pointer s" "tsc (upd_con f s) = tsc s"
  "tasks (upd_con f s) = tasks s" "tsc_reads (upd_con f s) = tsc_reads s"
  "con (upd_con f s) = f (con s)"
  by (simp_all add: upd_con_def)

lemma put_kstack_simps [simp]:
  "links (put_kstack a v s) = links s" "sems (put_kstack a v s) = sems s"
  "ram (put_kstack a v s) = ram s" "mm (put_kstack a v s) = mm s" "con (put_kstack a v s) = con s"
  "cBuffer (put_kstack a v s) = cBuffer s" "idle_task (put_kstack a v s) = idle_task s"
  "remaining_quantum (put_kstack a v s) = remaining_quantum s"
  "zeos_ticks (put_kstack a v s) = zeos_ticks s" "global_PID (put_kstack a v s) = global_PID s"
  "global_TID (put_kstack a v s) = global_TID s" "esp (put_kstack a v s) = esp s"
  "tss_esp0 (put_kstack a v s) = tss_esp0 s" "msr_175 (put_kstack a v s) = msr_175 s"
  "heap_pointer (put_kstack a v s) = heap_pointer s" "tsc (put_kstack a v s) = tsc s"
  "tasks (put_kstack a v s) = tasks s" "tsc_reads (put_kstack a v s) = tsc_reads s"
  "kstack (put_kstack a v s) b = (if b = a then v else kstack s b)"
  by (simp_all add: put_kstack_def)


lemma current_cong: "esp s' = esp s \<Longrightarrow> current s' = current s"
  by (simp add: current_def)

lemma current_simps [simp]:
  "current (upd_task t f s) = current s" "current (upd_sem a g s) = current s"
  "current (upd_links h s) = current s" "current (upd_mm m s) = current s"
  "current (upd_con c s) = current s" "current (put_kstack a v s) = current s"
  "current (charge_user t s) = current s" "current (charge_system t s) = current s"
  "current (charge_ready t s) = current s"
  "current (s\<lparr>remaining_quantum := q\<rparr>) = current s" "current (s\<lparr>ram := r\<rparr>) = current s"
  "current (s\<lparr>cBuffer := b\<rparr>) = current s" "current (s\<lparr>zeos_ticks := z\<rparr>) = current s"
  "current (s\<lparr>global_PID := z\<rparr>) = current s" "current (s\<lparr>global_TID := z\<rparr>) = current s"
  "current (s\<lparr>kstack := k\<rparr>) = current s" "current (s\<lparr>con := c'\<rparr>) = current s"
  by (simp_all add: current_def)

lemmas upd_defs = upd_task_def upd_sem_def upd_links_def upd_mm_def upd_con_def put_kstack_def

lemmas charge_defs = charge_user_def charge_system_def charge_ready_def read_ticks_def update_stats_def

section \<open>Accounting\<close>

text \<open>The ticks charged to a task, less the time of its last update: constant while the task lives.\<close>

definition account :: "task_struct \<Rightarrow> DWord" where
  "account T = user_ticks (p_stats T) + system_ticks (p_stats T) + blocked_ticks (p_stats T) +
     ready_ticks (p_stats T) - elapsed_total_ticks (p_stats T)"

lemma account_simps [simp]:
  "account (T\<lparr>state := x\<rparr>) = account T" "account (T\<lparr>register_esp := e\<rparr>) = account T"
  "account (T\<lparr>PID := p\<rparr>) = account T" "account (T\<lparr>heap_pointer_proc := a\<rparr>) = account T"
  "account (T\<lparr>p_stats := (p_stats T)\<lparr>total_trans := n\<rparr>\<rparr>) = account T"
  "account (T\<lparr>p_stats := (p_stats T)\<lparr>remaining_ticks := n\<rparr>\<rparr>) = account T"
  by (simp_all add: account_def)

lemma account_charge [simp]:
  "account (tasks (charge_user t s) u) = account (tasks s u)"
  "account (tasks (charge_system t s) u) = account (tasks s u)"
  "account (tasks (charge_ready t s) u) = account (tasks s u)"
  by (simp_all add: account_def charge_defs)

section \<open>Addresses of tasks and queues\<close>

definition tasks_of :: "symtab \<Rightarrow> ptr set" where
  "tasks_of L = task L ` {..<NR_TASKS}"

definition sem_queue :: "symtab \<Rightarrow> nat \<Rightarrow> ptr" where
  "sem_queue L i = sem_blocked (sym_semafor_proces L) (int i)"

definition heads :: "symtab \<Rightarrow> ptr set" where
  "heads L = insert (freequeue L) (insert (readyqueue L) (sem_queue L ` {..<NUM_SEM}))"

lemma unat_sym_offset:
  assumes "kernel_obj a n" and "k \<le> n"
  shows "unat (a + of_nat k) = unat a + k"
  using assms by (subst unat_plus_word32) (simp_all add: kernel_obj_def layout_consts unat_of_nat)

lemma symtab_okD:
  assumes "symtab_ok L"
  shows "kernel_obj (sym_protected_tasks L) (12 * 4096)" "unat (sym_protected_tasks L) mod 4096 = 0"
    "kernel_obj (sym_freequeue L) 8" "kernel_obj (sym_readyqueue L) 8"
    "kernel_obj (sym_semafor_proces L) 200"
    "disjoint_objs (sym_protected_tasks L) (12 * 4096) (sym_freequeue L) 8"
    "disjoint_objs (sym_protected_tasks L) (12 * 4096) (sym_readyqueue L) 8"
    "disjoint_objs (sym_protected_tasks L) (12 * 4096) (sym_semafor_proces L) 200"
    "disjoint_objs (sym_freequeue L) 8 (sym_readyqueue L) 8"
    "disjoint_objs (sym_freequeue L) 8 (sym_semafor_proces L) 200"
    "disjoint_objs (sym_readyqueue L) 8 (sym_semafor_proces L) 200"
  using assms by (simp_all add: symtab_ok_def sym_objs_def NR_TASKS_def NUM_SEM_def PAGE_SIZE_def)

lemma unat_task:
  assumes "symtab_ok L" and "i < NR_TASKS"
  shows "unat (task L i) = unat (sym_protected_tasks L) + (i + 1) * 4096"
proof -
  have "(i + 1) * 4096 \<le> 12 * 4096" using assms(2) by (simp add: NR_TASKS_def)
  from unat_sym_offset [OF symtab_okD(1) [OF assms(1)] this] show ?thesis
    by (simp only: task_def protected_tasks_def PAGE_SIZE_def)
qed

lemma task_aligned: "symtab_ok L \<Longrightarrow> t \<in> tasks_of L \<Longrightarrow> unat t mod 4096 = 0"
  using symtab_okD(2) [of L] by (auto simp: tasks_of_def unat_task mod_simps)

lemma node_to_task [simp]:
  "symtab_ok L \<Longrightarrow> t \<in> tasks_of L \<Longrightarrow> list_head_to_task_struct (tnode t) = t"
  using page_mask_offset [OF task_aligned, of L t 12]
  by (simp add: list_head_to_task_struct_def tnode_def)

lemma tnode_inject [simp]: "tnode t = tnode u \<longleftrightarrow> t = u"
  by (simp add: tnode_def)

lemma task_inject:
  assumes "symtab_ok L" "i < NR_TASKS" "j < NR_TASKS"
  shows "task L i = task L j \<longleftrightarrow> i = j"
proof
  assume "task L i = task L j"
  then have "unat (sym_protected_tasks L) + (i + 1) * 4096 = unat (sym_protected_tasks L) + (j + 1) * 4096"
    using unat_task [OF assms(1,2)] unat_task [OF assms(1,3)] by (simp only:)
  then show "i = j" by simp
qed simp

lemma unat_tnode:
  assumes "symtab_ok L" "i < NR_TASKS"
  shows "unat (tnode (task L i)) = unat (sym_protected_tasks L) + (i + 1) * 4096 + 12"
proof -
  have "(i + 1) * 4096 + 12 \<le> 12 * 4096" using assms(2) by (simp add: NR_TASKS_def)
  from unat_sym_offset [OF symtab_okD(1) [OF assms(1)] this] show ?thesis
    by (simp add: task_def protected_tasks_def PAGE_SIZE_def tnode_def algebra_simps)
qed

lemma unat_sem_queue:
  assumes "symtab_ok L" "i < NUM_SEM"
  shows "unat (sem_queue L i) = unat (sym_semafor_proces L) + 20 * i + 8"
proof -
  have "20 * i + 8 \<le> 200" using assms(2) by (simp add: NUM_SEM_def)
  from unat_sym_offset [OF symtab_okD(5) [OF assms(1)] this] show ?thesis
    by (simp add: sem_queue_def sem_blocked_def sem_at_def algebra_simps)
qed

lemma tnode_not_head:
  assumes "symtab_ok L" and "t \<in> tasks_of L" and "q \<in> heads L"
  shows "tnode t \<noteq> q"
proof
  assume eq: "tnode t = q"
  obtain i where i: "i < NR_TASKS" "t = task L i" using assms(2) by (auto simp: tasks_of_def)
  note u = unat_tnode [OF assms(1) i(1)]
  have b: "(i + 1) * 4096 + 12 < 12 * 4096" using i(1) by (simp add: NR_TASKS_def)
  from assms(3) consider "q = sym_freequeue L" | "q = sym_readyqueue L"
    | j where "j < NUM_SEM" "q = sem_queue L j" by (auto simp: heads_def freequeue_def readyqueue_def)
  then show False
  proof cases
    case 1 with eq u b i symtab_okD(6) [OF assms(1)] show False by (auto simp: disjoint_objs_def)
  next
    case 2 with eq u b i symtab_okD(7) [OF assms(1)] show False by (auto simp: disjoint_objs_def)
  next
    case (3 j)
    have "unat (sym_protected_tasks L) + (i + 1) * 4096 + 12 = unat (sym_semafor_proces L) + 20 * j + 8"
      using eq u i 3 unat_sem_queue [OF assms(1) 3(1)] by simp
    moreover have "20 * j + 8 < 200" using 3 by (simp add: NUM_SEM_def)
    ultimately show False using b symtab_okD(8) [OF assms(1)] by (auto simp: disjoint_objs_def)
  qed
qed

lemma heads_distinct:
  assumes "symtab_ok L"
  shows "freequeue L \<noteq> readyqueue L" "i < NUM_SEM \<Longrightarrow> sem_queue L i \<noteq> freequeue L"
    "i < NUM_SEM \<Longrightarrow> sem_queue L i \<noteq> readyqueue L"
    "i < NUM_SEM \<Longrightarrow> j < NUM_SEM \<Longrightarrow> sem_queue L i = sem_queue L j \<longleftrightarrow> i = j"
proof -
  show "freequeue L \<noteq> readyqueue L"
    using symtab_okD(9) [OF assms] by (auto simp: disjoint_objs_def freequeue_def readyqueue_def)
  show "sem_queue L i \<noteq> freequeue L" "sem_queue L i \<noteq> readyqueue L" if "i < NUM_SEM"
    using unat_sem_queue [OF assms that] that symtab_okD(10,11) [OF assms]
    by (auto simp: disjoint_objs_def freequeue_def readyqueue_def NUM_SEM_def)
  show "sem_queue L i = sem_queue L j \<longleftrightarrow> i = j" if "i < NUM_SEM" "j < NUM_SEM"
  proof
    assume "sem_queue L i = sem_queue L j"
    then have "unat (sym_semafor_proces L) + 20 * i + 8 = unat (sym_semafor_proces L) + 20 * j + 8"
      using unat_sem_queue [OF assms that(1)] unat_sem_queue [OF assms that(2)] by (simp only:)
    then show "i = j" by simp
  qed simp
qed

lemma head_neq [simp]:
  assumes "symtab_ok L"
  shows "freequeue L \<noteq> readyqueue L" "readyqueue L \<noteq> freequeue L"
    "i < NUM_SEM \<Longrightarrow> sem_queue L i \<noteq> freequeue L" "i < NUM_SEM \<Longrightarrow> freequeue L \<noteq> sem_queue L i"
    "i < NUM_SEM \<Longrightarrow> sem_queue L i \<noteq> readyqueue L" "i < NUM_SEM \<Longrightarrow> readyqueue L \<noteq> sem_queue L i"
  using heads_distinct [OF assms] by fastforce+

lemma sem_queue_eq [simp]:
  "symtab_ok L \<Longrightarrow> i < NUM_SEM \<Longrightarrow> j < NUM_SEM \<Longrightarrow> sem_queue L i = sem_queue L j \<longleftrightarrow> i = j"
  by (rule heads_distinct)

lemma heads_memI [simp, intro]:
  "freequeue L \<in> heads L" "readyqueue L \<in> heads L" "i < NUM_SEM \<Longrightarrow> sem_queue L i \<in> heads L"
  by (auto simp: heads_def)

lemma node_not_heads [simp]:
  assumes "symtab_ok L" "i < NR_TASKS"
  shows "tnode (task L i) \<notin> heads L" "freequeue L \<noteq> tnode (task L i)" "readyqueue L \<noteq> tnode (task L i)"
    "j < NUM_SEM \<Longrightarrow> sem_queue L j \<noteq> tnode (task L i)"
proof -
  have "task L i \<in> tasks_of L" using assms(2) by (simp add: tasks_of_def)
  note n = tnode_not_head [OF assms(1) this]
  show "tnode (task L i) \<notin> heads L" using n by blast
  show "freequeue L \<noteq> tnode (task L i)" using n [of "freequeue L"] by auto
  show "readyqueue L \<noteq> tnode (task L i)" using n [of "readyqueue L"] by auto
  show "sem_queue L j \<noteq> tnode (task L i)" if "j < NUM_SEM" using n [of "sem_queue L j"] that by auto
qed

section \<open>The family of queues\<close>

text \<open>\<open>queues L h Q\<close>: in the store \<open>h\<close> every queue head \<open>q\<close> of the kernel holds the tasks \<open>Q q\<close>, and no
  task is in two queues.\<close>

definition queues :: "symtab \<Rightarrow> links \<Rightarrow> (ptr \<Rightarrow> ptr list) \<Rightarrow> bool" where
  "queues L h Q \<longleftrightarrow> family (heads L) (tasks_of L) tnode h Q"

definition queued :: "symtab \<Rightarrow> (ptr \<Rightarrow> ptr list) \<Rightarrow> ptr set" where
  "queued L Q = enqueued (heads L) Q"

interpretation kq: queue_family symtab_ok heads tasks_of tnode
  by unfold_locales (rule tnode_not_head, simp_all add: tnode_def inj_def)

lemmas queuesD = familyD [where H = "heads L" and M = "tasks_of L" and node = tnode for L, folded queues_def]
lemmas queues_update = family_update [where H = "heads L" and M = "tasks_of L" and node = tnode for L, folded queues_def]
lemmas queues_empty = family_empty [where H = "heads L" and M = "tasks_of L" and node = tnode for L, folded queues_def]
lemmas queues_first = family_first [where H = "heads L" and M = "tasks_of L" and node = tnode for L, folded queues_def]
lemmas queues_distinct = family_distinct [where H = "heads L" and M = "tasks_of L" and node = tnode for L, folded queues_def]
lemmas queued_del = enqueued_del [where H = "heads L" and M = "tasks_of L" and node = tnode for L, folded queues_def queued_def]
lemmas queued_upd = enqueued_upd [where H = "heads L" for L, folded queued_def]
lemmas queued_add = enqueued_add [where H = "heads L" for L, folded queued_def]
lemmas not_queuedD = not_enqueuedD [where H = "heads L" for L, folded queued_def]
lemmas queues_enq = kq.family_enq [folded queues_def queued_def]
lemmas queues_push = kq.family_push [folded queues_def queued_def]
lemmas queues_del = kq.family_del [folded queues_def queued_def]
lemmas queues_disjoint_nodes = kq.family_disjoint_nodes [folded queues_def queued_def]
lemmas queues_node_fresh = kq.family_node_fresh [folded queues_def queued_def]
lemmas queues_unfold = queues_def [unfolded family_def]
lemmas queued_unfold = queued_def [unfolded enqueued_def]

end
