(* ===== verification/Zeos_Sched.thy ===== *)
theory Zeos_Sched
  imports Zeos_Kstate
begin

text \<open>
  \<open>sched.c\<close>: the round-robin policy, the task switch and the initialisation of the tasks. The
  relation \<open>sched_rel\<close> says which abstract queues and which running task a kernel state
  represents; the scheduler is shown to refine operations on them.
\<close>

section \<open>The operations of sched.c\<close>

definition DEFAULT_QUANTUM :: int where "DEFAULT_QUANTUM = 10"

definition init_stats :: "ptr \<Rightarrow> kstate \<Rightarrow> kstate" where
  "init_stats t s =
     (case read_ticks s of (now1, s) \<Rightarrow>
      case read_ticks s of (now2, s) \<Rightarrow>
        upd_task t (\<lambda>T. T\<lparr>p_stats := \<lparr>user_ticks = 0, system_ticks = 0, blocked_ticks = 0, ready_ticks = 0,
          elapsed_total_ticks = now1, total_trans = 0, remaining_ticks = now2\<rparr>\<rparr>) s)"

definition get_DIR :: "ptr \<Rightarrow> kstate \<Rightarrow> ptr" where
  "get_DIR t s = dir_pages_baseAddr (tasks s t)"

definition get_PT :: "ptr \<Rightarrow> kstate \<Rightarrow> ptr" where
  "get_PT t s = push_bit 12 (pbase_addr (ptes (mm s) (dir_pages_baseAddr (tasks s t))))"

definition allocate_DIR :: "symtab \<Rightarrow> ptr \<Rightarrow> kstate \<Rightarrow> kstate" where
  "allocate_DIR L t s =
     (let pos = (t - task L 0) div of_nat PAGE_SIZE
      in upd_task t (\<lambda>T. T\<lparr>dir_pages_baseAddr := dir_pages L (unat pos)\<rparr>) s)"

definition get_quantum :: "ptr \<Rightarrow> kstate \<Rightarrow> int" where
  "get_quantum t s = total_quantum (tasks s t)"

definition set_quantum :: "ptr \<Rightarrow> int \<Rightarrow> kstate \<Rightarrow> kstate" where
  "set_quantum t new_quantum s = upd_task t (\<lambda>T. T\<lparr>total_quantum := new_quantum\<rparr>) s"

definition update_sched_data_rr :: "kstate \<Rightarrow> kstate" where
  "update_sched_data_rr s = s\<lparr>remaining_quantum := wrap32 (remaining_quantum s - 1)\<rparr>"

definition needs_sched_rr :: "symtab \<Rightarrow> kstate \<Rightarrow> bool \<times> kstate" where
  "needs_sched_rr L s =
     (if remaining_quantum s = 0 \<and> \<not> list_empty (readyqueue L) (links s) then (True, s)
      else if remaining_quantum s = 0 then (False, s\<lparr>remaining_quantum := get_quantum (current s) s\<rparr>)
      else (False, s))"

definition update_process_state_rr :: "symtab \<Rightarrow> ptr \<Rightarrow> ptr option \<Rightarrow> kstate \<Rightarrow> kstate" where
  "update_process_state_rr L t dst_queue s =
     (let s = (if state (tasks s t) \<noteq> ST_RUN then upd_links (list_del (tnode t)) s else s)
      in case dst_queue of
           None \<Rightarrow> upd_task t (\<lambda>T. T\<lparr>state := ST_RUN\<rparr>) s
         | Some q \<Rightarrow>
             let s = upd_links (list_add_tail (tnode t) q) s
             in if q \<noteq> readyqueue L then upd_task t (\<lambda>T. T\<lparr>state := ST_BLOCKED\<rparr>) s
                else upd_task t (\<lambda>T. T\<lparr>state := ST_READY\<rparr>) (charge_system t s))"

text \<open>
  \<open>switch_stack\<close> (\<open>kernel-utils.S\<close>) saves the frame pointer of \<open>inner_task_switch\<close>, two words
  below its caller's stack pointer, and continues on the other stack, popping \<open>ebp\<close> and the
  return address.
\<close>

definition switch_stack :: "ptr \<Rightarrow> ptr \<Rightarrow> kstate \<Rightarrow> kstate" where
  "switch_stack t new_sp s =
     (let s = upd_task t (\<lambda>T. T\<lparr>register_esp := esp s - 8\<rparr>) s
      in s\<lparr>esp := new_sp + 8\<rparr>)"

definition inner_task_switch :: "ptr \<Rightarrow> kstate \<Rightarrow> kstate" where
  "inner_task_switch new s =
     (let new_DIR = get_DIR new s;
          s = s\<lparr>tss_esp0 := stack_slot new KERNEL_STACK_SIZE\<rparr>;
          s = s\<lparr>msr_175 := stack_slot new KERNEL_STACK_SIZE\<rparr>;
          s = upd_mm (set_cr3 new_DIR) s
      in switch_stack (current s) (register_esp (tasks s new)) s)"

definition sched_next_rr :: "symtab \<Rightarrow> kstate \<Rightarrow> kstate" where
  "sched_next_rr L s =
     (let (t, s) =
            (if \<not> list_empty (readyqueue L) (links s) then
               let e = list_first (readyqueue L) (links s);
                   s = upd_links (list_del e) s
               in (list_head_to_task_struct e, s)
             else (idle_task s, s));
          s = upd_task t (\<lambda>T. T\<lparr>state := ST_RUN\<rparr>) s;
          s = s\<lparr>remaining_quantum := get_quantum t s\<rparr>;
          s = charge_system (current s) s;
          s = charge_ready t s;
          s = upd_task t (\<lambda>T. T\<lparr>p_stats := (p_stats T)\<lparr>total_trans := total_trans (p_stats T) + 1\<rparr>\<rparr>) s
      in inner_task_switch t s)"

definition schedule :: "symtab \<Rightarrow> kstate \<Rightarrow> kstate" where
  "schedule L s =
     (let s = update_sched_data_rr s;
          (needed, s) = needs_sched_rr L s
      in if needed then
           let s = update_process_state_rr L (current s) (Some (readyqueue L)) s
           in sched_next_rr L s
         else s)"

definition force_task_switch :: "symtab \<Rightarrow> kstate \<Rightarrow> kstate" where
  "force_task_switch L s =
     (let s = update_process_state_rr L (current s) (Some (readyqueue L)) s
      in sched_next_rr L s)"

section \<open>Initialisation\<close>

definition init_idle :: "symtab \<Rightarrow> kstate \<Rightarrow> kstate" where
  "init_idle L s =
     (let l = list_first (freequeue L) (links s);
          s = upd_links (list_del l) s;
          c = list_head_to_task_struct l;
          s = upd_task c (\<lambda>T. T\<lparr>PID := 0\<rparr>) s;
          s = upd_task c (\<lambda>T. T\<lparr>TID := 0\<rparr>) s;
          s = upd_task c (\<lambda>T. T\<lparr>total_quantum := DEFAULT_QUANTUM\<rparr>) s;
          s = init_stats c s;
          s = allocate_DIR L c s;
          s = put_kstack (stack_slot c (KERNEL_STACK_SIZE - 1)) (sym_cpu_idle L) s;
          s = put_kstack (stack_slot c (KERNEL_STACK_SIZE - 2)) 0 s;
          s = upd_task c (\<lambda>T. T\<lparr>register_esp := stack_slot c (KERNEL_STACK_SIZE - 2)\<rparr>) s
      in s\<lparr>idle_task := c\<rparr>)"

text \<open>The loop over the semaphores of an array, in \<open>init_task1\<close> and in \<open>sys_fork\<close>.\<close>

definition init_sems :: "ptr \<Rightarrow> kstate \<Rightarrow> kstate" where
  "init_sems a s =
     fold (\<lambda>i s.
         let s = upd_sem (sem_at a (int i)) (\<lambda>S. S\<lparr>semid := -1\<rparr>) s;
             s = upd_sem (sem_at a (int i)) (\<lambda>S. S\<lparr>count := 0\<rparr>) s;
             s = upd_sem (sem_at a (int i)) (\<lambda>S. S\<lparr>sem_PID := -1\<rparr>) s
         in upd_links (INIT_LIST_HEAD (sem_blocked a (int i))) s) [0..<NUM_SEM] s"

definition init_task1 :: "symtab \<Rightarrow> kstate \<Rightarrow> kstate" where
  "init_task1 L s =
     (let l = list_first (freequeue L) (links s);
          s = upd_links (list_del l) s;
          c = list_head_to_task_struct l;
          s = upd_task c (\<lambda>T. T\<lparr>PID := 1\<rparr>) s;
          s = upd_task c (\<lambda>T. T\<lparr>TID := 1\<rparr>) s;
          s = upd_task c (\<lambda>T. T\<lparr>total_quantum := DEFAULT_QUANTUM\<rparr>) s;
          s = upd_task c (\<lambda>T. T\<lparr>state := ST_RUN\<rparr>) s;
          s = upd_task c (\<lambda>T. T\<lparr>heap_end_proc := of_nat (TOTAL_PAGES * 2 ^ 12)\<rparr>) s;
          s = upd_task c (\<lambda>T. T\<lparr>heap_start_proc := of_nat INIT_HEAP\<rparr>) s;
          s = upd_task c (\<lambda>T. T\<lparr>heap_pointer_proc := heap_start_proc T\<rparr>) s;
          s = s\<lparr>remaining_quantum := total_quantum (tasks s c)\<rparr>;
          s = init_stats c s;
          s = allocate_DIR L c s;
          s = upd_mm (set_user_pages (get_PT c s)) s;
          s = s\<lparr>tss_esp0 := stack_slot c KERNEL_STACK_SIZE\<rparr>;
          s = s\<lparr>msr_175 := stack_slot c KERNEL_STACK_SIZE\<rparr>;
          s = upd_mm (set_cr3 (get_DIR c s)) s;
          s = upd_task c (\<lambda>T. T\<lparr>semafors := sym_semafor_proces L\<rparr>) s
      in init_sems (semafors (tasks s c)) s)"

definition init_freequeue :: "symtab \<Rightarrow> kstate \<Rightarrow> kstate" where
  "init_freequeue L s =
     (let s = upd_links (INIT_LIST_HEAD (freequeue L)) s
      in fold (\<lambda>i s.
             let s = upd_task (task L i) (\<lambda>T. T\<lparr>PID := -1\<rparr>) s
             in upd_links (list_add_tail (tnode (task L i)) (freequeue L)) s) [0..<NR_TASKS] s)"

definition init_sched :: "symtab \<Rightarrow> kstate \<Rightarrow> kstate" where
  "init_sched L s =
     (let s = init_freequeue L s
      in upd_links (INIT_LIST_HEAD (readyqueue L)) s)"

text \<open>\<open>init_mm\<close> of \<open>mm.c\<close>, which needs the directory of task 0.\<close>

definition init_mm :: "symtab \<Rightarrow> kstate \<Rightarrow> kstate" where
  "init_mm L s =
     (let s = upd_mm (init_table_pages L) s;
          s = upd_mm init_frames s;
          s = upd_mm (init_dir_pages L) s;
          s = allocate_DIR L (task L 0) s;
          s = upd_mm (set_cr3 (get_DIR (task L 0) s)) s;
          s = upd_mm set_pe_flag s
      in s\<lparr>heap_pointer := of_nat DATA_END\<rparr>)"

section \<open>What the scheduler does\<close>

lemma init_stats_simps [simp]:
  "links (init_stats t s) = links s" "sems (init_stats t s) = sems s"
  "kstack (init_stats t s) = kstack s" "ram (init_stats t s) = ram s" "mm (init_stats t s) = mm s"
  "con (init_stats t s) = con s" "cBuffer (init_stats t s) = cBuffer s"
  "idle_task (init_stats t s) = idle_task s"
  "remaining_quantum (init_stats t s) = remaining_quantum s"
  "zeos_ticks (init_stats t s) = zeos_ticks s" "global_PID (init_stats t s) = global_PID s"
  "global_TID (init_stats t s) = global_TID s" "esp (init_stats t s) = esp s"
  "tss_esp0 (init_stats t s) = tss_esp0 s" "msr_175 (init_stats t s) = msr_175 s"
  "heap_pointer (init_stats t s) = heap_pointer s" "tsc (init_stats t s) = tsc s"
  "PID (tasks (init_stats t s) u) = PID (tasks s u)"
  "TID (tasks (init_stats t s) u) = TID (tasks s u)"
  "dir_pages_baseAddr (tasks (init_stats t s) u) = dir_pages_baseAddr (tasks s u)"
  "register_esp (tasks (init_stats t s) u) = register_esp (tasks s u)"
  "state (tasks (init_stats t s) u) = state (tasks s u)"
  "total_quantum (tasks (init_stats t s) u) = total_quantum (tasks s u)"
  "heap_start_proc (tasks (init_stats t s) u) = heap_start_proc (tasks s u)"
  "heap_end_proc (tasks (init_stats t s) u) = heap_end_proc (tasks s u)"
  "heap_pointer_proc (tasks (init_stats t s) u) = heap_pointer_proc (tasks s u)"
  "ustack (tasks (init_stats t s) u) = ustack (tasks s u)"
  "semafors (tasks (init_stats t s) u) = semafors (tasks s u)"
  by (simp_all add: init_stats_def read_ticks_def upd_task_def Let_def split_def)

text \<open>The task the policy chooses, and the queues after that.\<close>

definition next_task :: "symtab \<Rightarrow> ptr \<Rightarrow> (ptr \<Rightarrow> ptr list) \<Rightarrow> ptr" where
  "next_task L idle Q = (case Q (readyqueue L) of [] \<Rightarrow> idle | t # _ \<Rightarrow> t)"

definition drop_next :: "symtab \<Rightarrow> (ptr \<Rightarrow> ptr list) \<Rightarrow> ptr \<Rightarrow> ptr list" where
  "drop_next L Q = Q(readyqueue L := tl (Q (readyqueue L)))"

text \<open>A task can be switched to when its saved stack pointer is on its own kernel stack.\<close>

definition resumable :: "kstate \<Rightarrow> ptr \<Rightarrow> bool" where
  "resumable s t \<longleftrightarrow> (register_esp (tasks s t) - 4) AND 0xfffff000 = t"

text \<open>The fields of a task the scheduler never changes.\<close>

definition same_task :: "task_struct \<Rightarrow> task_struct \<Rightarrow> bool" where
  "same_task T T' \<longleftrightarrow> T'\<lparr>state := state T, register_esp := register_esp T, p_stats := p_stats T\<rparr> = T"

lemma same_task_refl [simp]: "same_task T T"
  by (simp add: same_task_def)

lemma same_task_fields:
  "same_task T T' \<Longrightarrow> PID T' = PID T \<and> TID T' = TID T \<and> dir_pages_baseAddr T' = dir_pages_baseAddr T \<and>
     total_quantum T' = total_quantum T \<and> heap_start_proc T' = heap_start_proc T \<and>
     heap_end_proc T' = heap_end_proc T \<and> heap_pointer_proc T' = heap_pointer_proc T \<and>
     ustack T' = ustack T \<and> semafors T' = semafors T"
  unfolding same_task_def by (cases T; cases T') simp

text \<open>What the rest of the state keeps across a scheduling operation.\<close>

definition same_rest :: "kstate \<Rightarrow> kstate \<Rightarrow> bool" where
  "same_rest s s' \<longleftrightarrow> sems s' = sems s \<and> kstack s' = kstack s \<and> ram s' = ram s \<and> con s' = con s \<and>
     cBuffer s' = cBuffer s \<and> idle_task s' = idle_task s \<and> zeos_ticks s' = zeos_ticks s \<and>
     global_PID s' = global_PID s \<and> global_TID s' = global_TID s \<and> tsc s' = tsc s \<and>
     phys_mem (mm s') = phys_mem (mm s) \<and> ptes (mm s') = ptes (mm s) \<and>
     (\<forall>u. same_task (tasks s u) (tasks s' u))"

lemma Let_pair: "Let (a, b) (case_prod f) = f a b"
  by simp

lemma sched_next_rr_effect:
  assumes L: "symtab_ok L" and q: "queues L (links s) Q"
  defines "t \<equiv> next_task L (idle_task s) Q" and "s' \<equiv> sched_next_rr L s"
  shows "queues L (links s') (drop_next L Q)"
    and "esp s' = register_esp (tasks s t) + 8"
    and "\<And>u. state (tasks s' u) = (if u = t then ST_RUN else state (tasks s u))"
    and "\<And>u. register_esp (tasks s' u) = (if u = current s then esp s - 8 else register_esp (tasks s u))"
    and "remaining_quantum s' = total_quantum (tasks s t)"
    and "tss_esp0 s' = t + 4096" and "msr_175 s' = t + 4096"
    and "cr3 (mm s') = dir_pages_baseAddr (tasks s t)"
    and "same_rest s s'"
proof -
  let ?n = "if \<not> list_empty (readyqueue L) (links s) then
      let e = list_first (readyqueue L) (links s);
          s = upd_links (list_del e) s
      in (list_head_to_task_struct e, s) else (idle_task s, s)"
  obtain h where n: "?n = (t, s\<lparr>links := h\<rparr>)" and h: "queues L h (drop_next L Q)"
  proof (cases "Q (readyqueue L)")
    case Nil
    then have "?n = (t, s\<lparr>links := links s\<rparr>)"
      using queues_empty [OF q, of "readyqueue L"] by (simp add: t_def next_task_def)
    moreover have "drop_next L Q = Q" using Nil by (auto simp: drop_next_def)
    ultimately show ?thesis using q by (intro that [of "links s"]) (simp_all only:)
  next
    case (Cons x xs)
    have x: "x \<in> tasks_of L" using queuesD(2) [OF q, of "readyqueue L"] Cons by auto
    have "?n = (t, s\<lparr>links := list_del (tnode x) (links s)\<rparr>)"
      using queues_empty [OF q, of "readyqueue L"] queues_first [OF q _ Cons] Cons node_to_task [OF L x]
      by (simp add: t_def next_task_def upd_links_def)
    moreover have "queues L (list_del (tnode x) (links s)) (drop_next L Q)"
      using queues_del [OF L q, of "readyqueue L" "[]" x xs] Cons by (simp add: drop_next_def)
    ultimately show ?thesis by (rule that)
  qed
  have s': "s' = (let s = upd_task t (\<lambda>T. T\<lparr>state := ST_RUN\<rparr>) (s\<lparr>links := h\<rparr>);
          s = s\<lparr>remaining_quantum := get_quantum t s\<rparr>;
          s = charge_system (current s) s;
          s = charge_ready t s;
          s = upd_task t (\<lambda>T. T\<lparr>p_stats := (p_stats T)\<lparr>total_trans := total_trans (p_stats T) + 1\<rparr>\<rparr>) s
      in inner_task_switch t s)"
    unfolding s'_def sched_next_rr_def n Let_pair by (rule refl)
  note defs = s' Let_def inner_task_switch_def switch_stack_def get_DIR_def
    get_quantum_def current_def set_cr3_def stack_slot_def KERNEL_STACK_SIZE_def
  show "queues L (links s') (drop_next L Q)" using h by (simp add: defs)
  show "esp s' = register_esp (tasks s t) + 8" by (simp add: defs)
  show "state (tasks s' u) = (if u = t then ST_RUN else state (tasks s u))" for u by (simp add: defs)
  show "register_esp (tasks s' u) = (if u = current s then esp s - 8 else register_esp (tasks s u))" for u
    by (simp add: defs)
  show "remaining_quantum s' = total_quantum (tasks s t)" by (simp add: defs)
  show "tss_esp0 s' = t + 4096" by (simp add: defs)
  show "msr_175 s' = t + 4096" by (simp add: defs)
  show "cr3 (mm s') = dir_pages_baseAddr (tasks s t)" by (simp add: defs)
  show "same_rest s s'" by (simp add: defs same_rest_def same_task_def)
qed

section \<open>Refinement of the abstract scheduler\<close>

text \<open>The abstract state: the tasks of each queue in order, and the running task.\<close>

record sched_abs =
  a_queue :: "ptr \<Rightarrow> ptr list"
  a_cur :: ptr

text \<open>
  \<open>tasks_placed\<close>: the queues are intact, the idle task is never free or blocked, tasks in the
  ready queue are ready and tasks in the queue of a semaphore are blocked, and every task that
  is not free or running can be resumed.
\<close>

definition tasks_placed :: "symtab \<Rightarrow> kstate \<Rightarrow> (ptr \<Rightarrow> ptr list) \<Rightarrow> bool" where
  "tasks_placed L s Q \<longleftrightarrow> queues L (links s) Q \<and>
     idle_task s \<in> tasks_of L \<and> idle_task s \<notin> set (Q (freequeue L)) \<and>
     (\<forall>i<NUM_SEM. idle_task s \<notin> set (Q (sem_queue L i))) \<and>
     (\<forall>t \<in> set (Q (readyqueue L)). state (tasks s t) = ST_READY) \<and>
     (\<forall>i<NUM_SEM. \<forall>t \<in> set (Q (sem_queue L i)). state (tasks s t) = ST_BLOCKED) \<and>
     (\<forall>t \<in> tasks_of L. t \<notin> set (Q (freequeue L)) \<and> t \<noteq> current s \<longrightarrow> resumable s t)"

text \<open>\<open>sched_rel\<close>: between handlers, every task is in exactly one queue, or runs, or is the idle
  task; the hardware points to the kernel stack and the page directory of the running task.\<close>

definition sched_rel :: "symtab \<Rightarrow> kstate \<Rightarrow> sched_abs \<Rightarrow> bool" where
  "sched_rel L s A \<longleftrightarrow> tasks_placed L s (a_queue A) \<and>
     a_cur A = current s \<and> current s \<in> tasks_of L \<and> current s \<notin> queued L (a_queue A) \<and>
     tasks_of L \<subseteq> queued L (a_queue A) \<union> {current s, idle_task s} \<and>
     state (tasks s (current s)) = ST_RUN \<and>
     tss_esp0 s = current s + 4096 \<and> msr_175 s = current s + 4096 \<and>
     cr3 (mm s) = dir_pages_baseAddr (tasks s (current s))"

definition a_next :: "symtab \<Rightarrow> ptr \<Rightarrow> (ptr \<Rightarrow> ptr list) \<Rightarrow> sched_abs" where
  "a_next L idle Q = \<lparr>a_queue = drop_next L Q, a_cur = next_task L idle Q\<rparr>"

definition a_yield :: "symtab \<Rightarrow> ptr \<Rightarrow> sched_abs \<Rightarrow> sched_abs" where
  "a_yield L idle A =
     a_next L idle ((a_queue A)(readyqueue L := a_queue A (readyqueue L) @ [a_cur A]))"

definition a_schedule :: "symtab \<Rightarrow> ptr \<Rightarrow> int \<Rightarrow> sched_abs \<Rightarrow> sched_abs" where
  "a_schedule L idle quantum A =
     (if wrap32 (quantum - 1) = 0 \<and> a_queue A (readyqueue L) \<noteq> [] then a_yield L idle A else A)"

lemma queued_subset_tasks: "queues L h Q \<Longrightarrow> queued L Q \<subseteq> tasks_of L"
  using queuesD(2) by (fastforce simp: queued_unfold)

lemma idle_not_queued:
  assumes "tasks_placed L s Q" and "idle_task s \<notin> set (Q (readyqueue L))"
  shows "idle_task s \<notin> queued L Q"
  using assms by (auto simp: tasks_placed_def queued_unfold heads_def)

lemma drop_next_other [simp]: "r \<noteq> readyqueue L \<Longrightarrow> drop_next L Q r = Q r"
  by (simp add: drop_next_def)

lemma drop_next_ready: "set (drop_next L Q (readyqueue L)) \<subseteq> set (Q (readyqueue L))"
  by (cases "Q (readyqueue L)") (auto simp: drop_next_def)

lemma next_task_props:
  assumes L: "symtab_ok L" and p: "tasks_placed L s Q"
  defines "t \<equiv> next_task L (idle_task s) Q"
  shows "t \<in> tasks_of L \<and> t \<notin> set (Q (freequeue L)) \<and> t \<notin> queued L (drop_next L Q) \<and>
    queued L Q \<subseteq> insert t (queued L (drop_next L Q))"
proof (cases "Q (readyqueue L)")
  case Nil
  then have "drop_next L Q = Q" and "t = idle_task s" by (auto simp: drop_next_def t_def next_task_def)
  with Nil idle_not_queued [OF p] p show ?thesis by (simp add: tasks_placed_def subset_insertI)
next
  case (Cons x xs)
  have q: "queues L (links s) Q" using p by (simp add: tasks_placed_def)
  have "t = x" using Cons by (simp add: t_def next_task_def)
  moreover have "queued L (drop_next L Q) = queued L Q - {x}"
    using queued_del [OF q, of "readyqueue L" "[]" x xs] Cons by (simp add: drop_next_def)
  moreover have "x \<in> tasks_of L" using queuesD(2) [OF q, of "readyqueue L"] Cons by auto
  moreover have "x \<notin> set (Q (freequeue L))"
    using queuesD(3) [OF q, of "readyqueue L" "freequeue L"] heads_distinct(1) [OF L] Cons by auto
  ultimately show ?thesis by auto
qed

text \<open>The step every handler ends with when the running task gives up the processor.\<close>

lemma sched_next_rel:
  assumes L: "symtab_ok L" and p: "tasks_placed L s Q"
    and all: "tasks_of L \<subseteq> insert (idle_task s) (queued L Q)"
    and self: "next_task L (idle_task s) Q \<noteq> current s \<or> resumable s (current s)"
  shows "sched_rel L (sched_next_rr L s) (a_next L (idle_task s) Q)"
proof -
  let ?t = "next_task L (idle_task s) Q" and ?s = "sched_next_rr L s"
  have q: "queues L (links s) Q" using p by (simp add: tasks_placed_def)
  note e = sched_next_rr_effect [OF L q]
  note t = next_task_props [OF L p]
  have idle: "idle_task ?s = idle_task s" using e(9) by (simp add: same_rest_def)
  have res: "resumable s ?t" using t self p by (auto simp: tasks_placed_def)
  have cur: "current ?s = ?t"
    using res e(2) by (simp add: current_def resumable_def diff_add_eq)
  have resum: "resumable ?s u" if "u \<in> tasks_of L" "u \<notin> set (Q (freequeue L))" "u \<noteq> ?t" for u
  proof (cases "u = current s")
    case True
    then show ?thesis using e(4) [of u] by (simp add: resumable_def current_def)
  next
    case False
    then show ?thesis using e(4) [of u] that p by (simp add: resumable_def tasks_placed_def)
  qed
  have nt: "?t \<notin> set (drop_next L Q r)" if "r \<in> heads L" for r using t that by (auto simp: queued_unfold)
  have st: "state (tasks ?s u) = state (tasks s u)" if "u \<in> set (drop_next L Q r)" "r \<in> heads L" for u r
    using e(3) [of u] nt [OF that(2)] that(1) by auto
  have pl: "tasks_placed L ?s (drop_next L Q)"
    unfolding tasks_placed_def idle cur
  proof (intro conjI ballI allI impI)
    show "queues L (links ?s) (drop_next L Q)" by (rule e(1))
    show "idle_task s \<in> tasks_of L" using p by (simp add: tasks_placed_def)
    show "idle_task s \<notin> set (drop_next L Q (freequeue L))"
      using p heads_distinct(1) [OF L] by (simp add: tasks_placed_def)
    show "idle_task s \<notin> set (drop_next L Q (sem_queue L i))" if "i < NUM_SEM" for i
      using p heads_distinct(3) [OF L that] that by (simp add: tasks_placed_def)
    show "state (tasks ?s u) = ST_READY" if "u \<in> set (drop_next L Q (readyqueue L))" for u
      using st [OF that] drop_next_ready [of L Q] that p by (auto simp: tasks_placed_def)
    show "state (tasks ?s u) = ST_BLOCKED" if "i < NUM_SEM" "u \<in> set (drop_next L Q (sem_queue L i))" for i u
      using st [OF that(2)] heads_distinct(3) [OF L that(1)] that p by (simp add: tasks_placed_def)
    show "resumable ?s u" if "u \<in> tasks_of L" "u \<notin> set (drop_next L Q (freequeue L)) \<and> u \<noteq> ?t" for u
      using that heads_distinct(1) [OF L] by (intro resum) auto
  qed
  have "same_task (tasks s ?t) (tasks ?s ?t)" using e(9) by (simp add: same_rest_def)
  then have "cr3 (mm ?s) = dir_pages_baseAddr (tasks ?s ?t)" using e(8) by (simp add: same_task_fields)
  moreover have "tasks_of L \<subseteq> queued L (drop_next L Q) \<union> {?t, idle_task s}" using all t by auto
  ultimately show ?thesis
    using pl cur idle t e(3) [of ?t] e(6,7) by (simp add: sched_rel_def a_next_def)
qed

lemma sched_relD:
  assumes "sched_rel L s A"
  shows "tasks_placed L s (a_queue A)" "queues L (links s) (a_queue A)" "a_cur A = current s"
    "current s \<in> tasks_of L" "current s \<notin> queued L (a_queue A)"
    "tasks_of L \<subseteq> queued L (a_queue A) \<union> {current s, idle_task s}" "state (tasks s (current s)) = ST_RUN"
    "tss_esp0 s = current s + 4096" "msr_175 s = current s + 4096"
    "cr3 (mm s) = dir_pages_baseAddr (tasks s (current s))"
  using assms by (simp_all add: sched_rel_def tasks_placed_def)

lemma update_process_state_rr_ready:
  fixes L :: symtab
  assumes "state (tasks s t) = ST_RUN"
  defines "s' \<equiv> update_process_state_rr L t (Some (readyqueue L)) s"
  shows "links s' = list_add_tail (tnode t) (readyqueue L) (links s)"
    and "\<And>u. state (tasks s' u) = (if u = t then ST_READY else state (tasks s u))"
    and "\<And>u. register_esp (tasks s' u) = register_esp (tasks s u)"
    and "esp s' = esp s" "idle_task s' = idle_task s" "remaining_quantum s' = remaining_quantum s"
    and "same_rest s s'"
  using assms by (simp_all add: update_process_state_rr_def Let_def same_rest_def same_task_def)

lemma yield_placed:
  assumes L: "symtab_ok L" and rel: "sched_rel L s A"
  defines "Q \<equiv> (a_queue A)(readyqueue L := a_queue A (readyqueue L) @ [current s])"
    and "s' \<equiv> update_process_state_rr L (current s) (Some (readyqueue L)) s"
  shows "tasks_placed L s' Q" and "tasks_of L \<subseteq> insert (idle_task s') (queued L Q)"
    and "current s' = current s" and "idle_task s' = idle_task s"
proof -
  note r = sched_relD [OF rel] and e = update_process_state_rr_ready [OF sched_relD(7) [OF rel], of L, folded s'_def]
  show cur: "current s' = current s" by (rule current_cong) (rule e(4))
  show idle: "idle_task s' = idle_task s" by (rule e(5))
  have qs: "queued L Q = insert (current s) (queued L (a_queue A))"
    unfolding Q_def by (rule queued_add) auto
  show "tasks_of L \<subseteq> insert (idle_task s') (queued L Q)" using r(6) qs idle by auto
  have nq: "current s \<notin> set (a_queue A r)" if "r \<in> heads L" for r using r(5) that by (auto simp: queued_unfold)
  have p: "tasks_placed L s (a_queue A)" by (rule r(1))
  have "queues L (links s') Q" unfolding e(1) Q_def by (rule queues_enq [OF L r(2,4,5)]) simp
  moreover have "resumable s' u = resumable s u" for u using e(3) by (simp add: resumable_def)
  ultimately show "tasks_placed L s' Q"
    using p heads_distinct(1-3) [OF L] nq e(2) cur idle
    by (auto simp: tasks_placed_def Q_def)
qed

lemma force_task_switch_rel:
  assumes L: "symtab_ok L" and rel: "sched_rel L s A"
    and "a_queue A (readyqueue L) \<noteq> [] \<or> resumable s (current s)"
  shows "sched_rel L (force_task_switch L s) (a_yield L (idle_task s) A)"
proof -
  let ?s = "update_process_state_rr L (current s) (Some (readyqueue L)) s"
  let ?Q = "(a_queue A)(readyqueue L := a_queue A (readyqueue L) @ [current s])"
  note y = yield_placed [OF L rel] and r = sched_relD [OF rel]
  have res: "resumable ?s (current s) = resumable s (current s)"
    using update_process_state_rr_ready(3) [OF r(7), of L] by (simp add: resumable_def)
  have "next_task L (idle_task ?s) ?Q \<noteq> current s" if "a_queue A (readyqueue L) \<noteq> []"
    using that not_queuedD [OF r(5), of "readyqueue L"]
    by (cases "a_queue A (readyqueue L)") (auto simp: next_task_def)
  then have "next_task L (idle_task ?s) ?Q \<noteq> current ?s \<or> resumable ?s (current ?s)"
    using assms(3) res y(3) by auto
  from sched_next_rel [OF L y(1,2) this] show ?thesis
    using y(4) r(3) by (simp add: force_task_switch_def Let_def a_yield_def)
qed

lemma sched_rel_cong:
  assumes "sched_rel L s A" "links s' = links s" "tasks s' = tasks s" "idle_task s' = idle_task s"
    "esp s' = esp s" "tss_esp0 s' = tss_esp0 s" "msr_175 s' = msr_175 s" "cr3 (mm s') = cr3 (mm s)"
  shows "sched_rel L s' A"
proof -
  have "current s' = current s" using assms(5) by (rule current_cong)
  moreover have "resumable s' = resumable s" using assms(3) by (simp add: resumable_def fun_eq_iff)
  ultimately show ?thesis using assms by (simp add: sched_rel_def tasks_placed_def)
qed

lemma needs_sched_rr_rel:
  assumes "sched_rel L s A"
  shows "needs_sched_rr L s =
    (if remaining_quantum s = 0 \<and> a_queue A (readyqueue L) \<noteq> [] then (True, s)
     else (False, s\<lparr>remaining_quantum :=
        if remaining_quantum s = 0 then total_quantum (tasks s (current s)) else remaining_quantum s\<rparr>))"
  using queues_empty [OF sched_relD(2) [OF assms], of "readyqueue L"]
  by (simp add: needs_sched_rr_def get_quantum_def)

lemma schedule_cases:
  assumes L: "symtab_ok L" and rel: "sched_rel L s A"
  defines "q \<equiv> wrap32 (remaining_quantum s - 1)"
  shows "schedule L s =
    (if q = 0 \<and> a_queue A (readyqueue L) \<noteq> [] then force_task_switch L (s\<lparr>remaining_quantum := 0\<rparr>)
     else s\<lparr>remaining_quantum := if q = 0 then total_quantum (tasks s (current s)) else q\<rparr>)"
proof -
  let ?s = "s\<lparr>remaining_quantum := q\<rparr>"
  have "sched_rel L ?s A" by (rule sched_rel_cong [OF rel]) simp_all
  then show ?thesis
    by (simp add: schedule_def update_sched_data_rr_def needs_sched_rr_rel force_task_switch_def Let_def
        flip: q_def)
qed

lemma force_task_switch_quantum:
  assumes L: "symtab_ok L" and rel: "sched_rel L s A"
  shows "remaining_quantum (force_task_switch L s) =
    total_quantum (tasks s (next_task L (idle_task s) ((a_queue A)(readyqueue L := a_queue A (readyqueue L) @ [current s]))))"
proof -
  let ?s = "update_process_state_rr L (current s) (Some (readyqueue L)) s"
  note y = yield_placed [OF L rel]
  have "queues L (links ?s) ((a_queue A)(readyqueue L := a_queue A (readyqueue L) @ [current s]))"
    using y(1) by (simp add: tasks_placed_def)
  note e = sched_next_rr_effect [OF L this]
  have "same_task (tasks s u) (tasks ?s u)" for u
    using update_process_state_rr_ready(7) [OF sched_relD(7) [OF rel], of L] by (simp add: same_rest_def)
  then have "total_quantum (tasks ?s u) = total_quantum (tasks s u)" for u using same_task_fields by blast
  then show ?thesis using e(5) y(4) by (simp add: force_task_switch_def Let_def)
qed

text \<open>Forced switches go round the queue.\<close>

lemma a_yield_rotates:
  assumes "a_queue A (readyqueue L) \<noteq> []"
  shows "a_cur (a_yield L idle A) # a_queue (a_yield L idle A) (readyqueue L) =
      rotate1 (a_cur A # a_queue A (readyqueue L))"
    and "\<And>r. r \<noteq> readyqueue L \<Longrightarrow> a_queue (a_yield L idle A) r = a_queue A r"
  using assms by (cases "a_queue A (readyqueue L)"; simp add: a_yield_def a_next_def next_task_def drop_next_def)+

lemma force_task_switch_idle:
  assumes "symtab_ok L" "sched_rel L s A"
  shows "idle_task (force_task_switch L s) = idle_task s"
proof -
  note y = yield_placed [OF assms]
  have "queues L (links (update_process_state_rr L (current s) (Some (readyqueue L)) s))
     ((a_queue A)(readyqueue L := a_queue A (readyqueue L) @ [current s]))"
    using y(1) by (simp add: tasks_placed_def)
  from sched_next_rr_effect(9) [OF assms(1) this] y(4) show ?thesis
    by (simp add: force_task_switch_def Let_def same_rest_def)
qed

lemma rotate_Suc: "rotate (Suc k) xs = rotate1 (rotate k xs)"
  by (simp add: rotate_def)

lemma force_task_switch_round:
  assumes L: "symtab_ok L" and rel: "sched_rel L s A" and "a_queue A (readyqueue L) \<noteq> []"
  shows "\<exists>A'. sched_rel L ((force_task_switch L ^^ k) s) A' \<and>
    a_cur A' # a_queue A' (readyqueue L) = rotate k (a_cur A # a_queue A (readyqueue L)) \<and>
    (\<forall>r. r \<noteq> readyqueue L \<longrightarrow> a_queue A' r = a_queue A r)"
proof (induction k)
  case 0
  then show ?case using rel by auto
next
  case (Suc k)
  let ?s = "(force_task_switch L ^^ k) s"
  obtain A' where A': "sched_rel L ?s A'" "\<forall>r. r \<noteq> readyqueue L \<longrightarrow> a_queue A' r = a_queue A r"
    "a_cur A' # a_queue A' (readyqueue L) = rotate k (a_cur A # a_queue A (readyqueue L))"
    using Suc by blast
  have "length (a_cur A' # a_queue A' (readyqueue L)) = length (a_cur A # a_queue A (readyqueue L))"
    using A'(3) by (simp only: length_rotate)
  then have ne: "a_queue A' (readyqueue L) \<noteq> []" using assms(3) by auto
  have "sched_rel L (force_task_switch L ?s) (a_yield L (idle_task ?s) A')"
    using force_task_switch_rel [OF L A'(1)] ne by blast
  moreover have "a_cur (a_yield L (idle_task ?s) A') # a_queue (a_yield L (idle_task ?s) A') (readyqueue L) =
      rotate (Suc k) (a_cur A # a_queue A (readyqueue L))"
    unfolding a_yield_rotates(1) [OF ne] A'(3) rotate_Suc by (rule refl)
  moreover have "\<forall>r. r \<noteq> readyqueue L \<longrightarrow> a_queue (a_yield L (idle_task ?s) A') r = a_queue A r"
    using A'(2) a_yield_rotates(2) [OF ne] by simp
  ultimately show ?case unfolding funpow.simps comp_apply by blast
qed

section \<open>Boot\<close>

text \<open>The part of \<open>main\<close> (\<open>system.c\<close>) that sets up memory and tasks.\<close>

definition init_kernel :: "symtab \<Rightarrow> kstate \<Rightarrow> kstate" where
  "init_kernel L s =
     (let s = init_mm L s;
          s = init_sched L s;
          s = init_idle L s
      in init_task1 L s)"

text \<open>
  Entry into the kernel by \<open>sysenter\<close>: the stack pointer is loaded from the model-specific register
  and \<open>system_call_handler\<close> (\<open>entry.S\<close>) pushes 16 words before it calls the handler.
\<close>

definition kernel_entry :: "kstate \<Rightarrow> kstate" where
  "kernel_entry s = s\<lparr>esp := msr_175 s - 64\<rparr>"

lemma dlist_init_sems:
  assumes "symtab_ok L" "n \<le> NUM_SEM"
  defines "f \<equiv> \<lambda>i. INIT_LIST_HEAD (sem_queue L i)"
  shows "(\<forall>i<n. dlist (fold f [0..<n] h) (sem_queue L i) []) \<and>
    (\<forall>r ys. dlist h r ys \<and> (\<forall>i<n. sem_queue L i \<notin> set (r # ys)) \<longrightarrow> dlist (fold f [0..<n] h) r ys)"
  using assms(2)
proof (induction n)
  case (Suc n)
  let ?h = "fold f [0..<n] h"
  have eq: "fold f [0..<Suc n] h = INIT_LIST_HEAD (sem_queue L n) ?h" by (simp add: f_def)
  have IH: "\<forall>i<n. dlist ?h (sem_queue L i) []"
    "\<forall>r ys. dlist h r ys \<and> (\<forall>i<n. sem_queue L i \<notin> set (r # ys)) \<longrightarrow> dlist ?h r ys" using Suc by auto
  have "dlist (INIT_LIST_HEAD (sem_queue L n) ?h) (sem_queue L i) []" if "i < Suc n" for i
  proof (cases "i = n")
    case True
    then show ?thesis by (simp add: dlist_init)
  next
    case False
    then have "sem_queue L n \<notin> set [sem_queue L i]"
      using heads_distinct(4) [OF assms(1), of n i] that Suc.prems by simp
    then show ?thesis using lq.init_frame IH(1) False that by (metis less_antisym)
  qed
  then show ?case unfolding eq using IH(2) lq.init_frame by (metis less_Suc_eq)
qed simp

lemma init_sems_eq:
  "init_sems a s = s\<lparr>
     sems := fold (\<lambda>i S. S(sem_at a (int i) := \<lparr>semid = -1, count = 0, sem_PID = -1\<rparr>)) [0..<NUM_SEM] (sems s),
     links := fold (\<lambda>i. INIT_LIST_HEAD (sem_blocked a (int i))) [0..<NUM_SEM] (links s)\<rparr>"
proof -
  have "fold (\<lambda>i s.
         let s = upd_sem (sem_at a (int i)) (\<lambda>S. S\<lparr>semid := -1\<rparr>) s;
             s = upd_sem (sem_at a (int i)) (\<lambda>S. S\<lparr>count := 0\<rparr>) s;
             s = upd_sem (sem_at a (int i)) (\<lambda>S. S\<lparr>sem_PID := -1\<rparr>) s
         in upd_links (INIT_LIST_HEAD (sem_blocked a (int i))) s) is s = s\<lparr>
     sems := fold (\<lambda>i S. S(sem_at a (int i) := \<lparr>semid = -1, count = 0, sem_PID = -1\<rparr>)) is (sems s),
     links := fold (\<lambda>i. INIT_LIST_HEAD (sem_blocked a (int i))) is (links s)\<rparr>" for "is"
    by (induction "is" arbitrary: s) (simp_all add: Let_def upd_sem_def upd_links_def)
  then show ?thesis by (simp add: init_sems_def)
qed

lemma init_freequeue_eq:
  "init_freequeue L s = s\<lparr>
     tasks := fold (\<lambda>i T. T(task L i := (T (task L i))\<lparr>PID := -1\<rparr>)) [0..<NR_TASKS] (tasks s),
     links := fold (\<lambda>n. list_add_tail n (freequeue L)) (map (\<lambda>i. tnode (task L i)) [0..<NR_TASKS])
       (INIT_LIST_HEAD (freequeue L) (links s))\<rparr>"
proof -
  have "fold (\<lambda>i s.
             let s = upd_task (task L i) (\<lambda>T. T\<lparr>PID := -1\<rparr>) s
             in upd_links (list_add_tail (tnode (task L i)) (freequeue L)) s) is s = s\<lparr>
     tasks := fold (\<lambda>i T. T(task L i := (T (task L i))\<lparr>PID := -1\<rparr>)) is (tasks s),
     links := fold (\<lambda>n. list_add_tail n (freequeue L)) (map (\<lambda>i. tnode (task L i)) is) (links s)\<rparr>" for "is" s
    by (induction "is" arbitrary: s) (simp_all add: Let_def upd_task_def upd_links_def)
  then show ?thesis by (simp add: init_freequeue_def Let_def upd_links_def)
qed

lemma task_nodes_distinct:
  assumes "symtab_ok L"
  shows "distinct (map (\<lambda>i. tnode (task L i)) [0..<NR_TASKS])"
  using task_inject [OF assms] by (auto simp: distinct_map inj_on_def)

lemma init_sched_links:
  fixes s :: kstate
  assumes L: "symtab_ok L"
  defines "h \<equiv> links (init_sched L s)"
  shows "dlist h (freequeue L) (map (\<lambda>i. tnode (task L i)) [0..<NR_TASKS])" and "dlist h (readyqueue L) []"
proof -
  let ?ns = "map (\<lambda>i. tnode (task L i)) [0..<NR_TASKS]"
  have nh: "q \<notin> set ?ns" if "q \<in> heads L" for q
    using that L by auto
  have h: "h = INIT_LIST_HEAD (readyqueue L) (fold (\<lambda>n. list_add_tail n (freequeue L)) ?ns
      (INIT_LIST_HEAD (freequeue L) (links s)))"
    by (simp add: h_def init_sched_def init_freequeue_eq Let_def)
  have "dlist (fold (\<lambda>n. list_add_tail n (freequeue L)) ?ns (INIT_LIST_HEAD (freequeue L) (links s)))
      (freequeue L) ([] @ ?ns)"
    by (rule lq.enq_all [OF lq.repr_init task_nodes_distinct [OF L]]) (use nh in auto)
  from lq.init_frame [OF this, of "readyqueue L"] nh heads_distinct(1) [OF L]
  show "dlist h (freequeue L) ?ns" by (simp add: h)
  show "dlist h (readyqueue L) []" by (simp add: h dlist_init)
qed

lemma init_idle_effect:
  assumes L: "symtab_ok L" and d: "dlist (links s) (freequeue L) (tnode (task L i) # xs)" and i: "i < NR_TASKS"
  defines "s' \<equiv> init_idle L s"
  shows "links s' = list_del (tnode (task L i)) (links s)" and "idle_task s' = task L i"
    and "register_esp (tasks s' (task L i)) = task L i + 4088" and "mm s' = mm s"
    and "\<And>u. u \<noteq> task L i \<Longrightarrow> tasks s' u = tasks s u"
    and "PID (tasks s' (task L i)) = 0"
proof -
  have f: "list_first (freequeue L) (links s) = tnode (task L i)" using d by (rule lq.first_repr)
  have "task L i \<in> tasks_of L" using i by (simp add: tasks_of_def)
  note t = node_to_task [OF L this]
  note defs = s'_def init_idle_def Let_def f t allocate_DIR_def stack_slot_def KERNEL_STACK_SIZE_def
  show "links s' = list_del (tnode (task L i)) (links s)" by (simp add: defs)
  show "idle_task s' = task L i" by (simp add: defs)
  show "register_esp (tasks s' (task L i)) = task L i + 4088" by (simp add: defs)
  show "mm s' = mm s" by (simp add: defs)
  show "tasks s' u = tasks s u" if "u \<noteq> task L i" for u
    using that by (simp add: defs init_stats_def read_ticks_def)
  show "PID (tasks s' (task L i)) = 0" by (simp add: defs)
qed

lemma init_task1_effect:
  assumes L: "symtab_ok L" and d: "dlist (links s) (freequeue L) (tnode (task L i) # xs)" and i: "i < NR_TASKS"
  defines "s' \<equiv> init_task1 L s"
  shows "links s' = fold (\<lambda>i. INIT_LIST_HEAD (sem_queue L i)) [0..<NUM_SEM] (list_del (tnode (task L i)) (links s))"
    and "idle_task s' = idle_task s" and "state (tasks s' (task L i)) = ST_RUN"
    and "tss_esp0 s' = task L i + 4096" and "msr_175 s' = task L i + 4096"
    and "cr3 (mm s') = dir_pages_baseAddr (tasks s' (task L i))"
    and "\<And>u. u \<noteq> task L i \<Longrightarrow> tasks s' u = tasks s u"
    and "register_esp (tasks s' (task L i)) = register_esp (tasks s (task L i))"
    and "PID (tasks s' (task L i)) = 1" and "semafors (tasks s' (task L i)) = sym_semafor_proces L"
    and "sems s' = fold (\<lambda>i S. S(sem_at (sym_semafor_proces L) (int i) := \<lparr>semid = -1, count = 0, sem_PID = -1\<rparr>)) [0..<NUM_SEM] (sems s)"
    and "remaining_quantum s' = DEFAULT_QUANTUM"
proof -
  have f: "list_first (freequeue L) (links s) = tnode (task L i)" using d by (rule lq.first_repr)
  have "task L i \<in> tasks_of L" using i by (simp add: tasks_of_def)
  note t = node_to_task [OF L this]
  note defs = s'_def init_task1_def Let_def f t allocate_DIR_def stack_slot_def KERNEL_STACK_SIZE_def
    init_sems_eq get_DIR_def set_cr3_def
  show "links s' = fold (\<lambda>i. INIT_LIST_HEAD (sem_queue L i)) [0..<NUM_SEM] (list_del (tnode (task L i)) (links s))"
    by (simp add: defs sem_queue_def)
  show "idle_task s' = idle_task s" by (simp add: defs)
  show "state (tasks s' (task L i)) = ST_RUN" by (simp add: defs)
  show "tss_esp0 s' = task L i + 4096" by (simp add: defs)
  show "msr_175 s' = task L i + 4096" by (simp add: defs)
  show "cr3 (mm s') = dir_pages_baseAddr (tasks s' (task L i))" by (simp add: defs)
  show "tasks s' u = tasks s u" if "u \<noteq> task L i" for u
    using that by (simp add: defs init_stats_def read_ticks_def)
  show "register_esp (tasks s' (task L i)) = register_esp (tasks s (task L i))" by (simp add: defs)
  show "PID (tasks s' (task L i)) = 1" by (simp add: defs)
  show "semafors (tasks s' (task L i)) = sym_semafor_proces L" by (simp add: defs)
  show "sems s' = fold (\<lambda>i S. S(sem_at (sym_semafor_proces L) (int i) := \<lparr>semid = -1, count = 0, sem_PID = -1\<rparr>)) [0..<NUM_SEM] (sems s)"
    by (simp add: defs)
  show "remaining_quantum s' = DEFAULT_QUANTUM" by (simp add: defs)
qed

text \<open>The queues and the running task after boot.\<close>

definition boot_abs :: "symtab \<Rightarrow> sched_abs" where
  "boot_abs L = \<lparr>a_queue = (\<lambda>_. [])(freequeue L := map (task L) [2..<NR_TASKS]), a_cur = task L 1\<rparr>"

lemma init_kernel_links:
  fixes s :: kstate
  assumes L: "symtab_ok L"
  defines "s2 \<equiv> init_sched L (init_mm L s)"
  shows "dlist (links s2) (freequeue L) (tnode (task L 0) # map (\<lambda>i. tnode (task L i)) [1..<NR_TASKS])"
    and "dlist (links (init_idle L s2)) (freequeue L) (tnode (task L 1) # map (\<lambda>i. tnode (task L i)) [2..<NR_TASKS])"
    and "queues L (links (init_kernel L s)) (a_queue (boot_abs L))"
proof -
  let ?n = "\<lambda>i. tnode (task L i)"
  have up: "[0..<NR_TASKS] = 0 # [1..<NR_TASKS]" "[1..<NR_TASKS] = 1 # [2..<NR_TASKS]"
    by (simp_all add: NR_TASKS_def upt_conv_Cons)
  have nr: "0 < NR_TASKS" "1 < NR_TASKS" by (simp_all add: NR_TASKS_def)
  note d = init_sched_links [OF L, of "init_mm L s", folded s2_def]
  show d1: "dlist (links s2) (freequeue L) (?n 0 # map ?n [1..<NR_TASKS])" using d(1) up(1) by simp
  note e3 = init_idle_effect [OF L d1 nr(1)]
  have "dlist (links (init_idle L s2)) (freequeue L) (map ?n [1..<NR_TASKS])"
    unfolding e3(1) using lq.repr_del [of _ _ "[]"] d1 by simp
  then show d2: "dlist (links (init_idle L s2)) (freequeue L) (?n 1 # map ?n [2..<NR_TASKS])"
    using up(2) by simp
  have r2: "dlist (links (init_idle L s2)) (readyqueue L) []"
    unfolding e3(1)
    by (rule lq.del_frame [OF d1 _ d(2)]) (use L heads_distinct(1) [OF L] nr in auto)
  let ?h = "list_del (?n 1) (links (init_idle L s2))"
  have f3: "dlist ?h (freequeue L) (map ?n [2..<NR_TASKS])"
    using lq.repr_del [of _ _ "[]"] d2 by simp
  have r3: "dlist ?h (readyqueue L) []"
    by (rule lq.del_frame [OF d2 _ r2]) (use L heads_distinct(1) [OF L] nr in auto)
  have h: "links (init_kernel L s) = fold (\<lambda>i. INIT_LIST_HEAD (sem_queue L i)) [0..<NUM_SEM] ?h"
    using init_task1_effect(1) [OF L d2 nr(2)] by (simp add: init_kernel_def Let_def s2_def)
  note S = dlist_init_sems [OF L order_refl, of ?h, folded h]
  have "dlist (links (init_kernel L s)) (freequeue L) (map ?n [2..<NR_TASKS])"
    using S f3 L heads_distinct(2) [OF L] by fastforce
  moreover have "dlist (links (init_kernel L s)) (readyqueue L) []"
    using S r3 heads_distinct(3) [OF L] by fastforce
  ultimately show "queues L (links (init_kernel L s)) (a_queue (boot_abs L))"
    using S heads_distinct [OF L]
    by (auto simp: queues_unfold boot_abs_def heads_def comp_def tasks_of_def)
qed

lemma boot_sched_rel_aux:
  assumes L: "symtab_ok L"
  shows "sched_rel L (kernel_entry (init_kernel L s)) (boot_abs L) \<and>
    idle_task (init_kernel L s) = task L 0"
proof -
  let ?s2 = "init_sched L (init_mm L s)"
  have nr: "0 < NR_TASKS" "1 < NR_TASKS" by (simp_all add: NR_TASKS_def)
  note q = init_kernel_links [OF L, of s]
  note e3 = init_idle_effect [OF L q(1) nr(1)] and e4 = init_task1_effect [OF L q(2) nr(2)]
  have k: "init_kernel L s = init_task1 L (init_idle L ?s2)" by (simp add: init_kernel_def Let_def)
  have t: "task L 0 \<in> tasks_of L" "task L 1 \<in> tasks_of L" using nr by (auto simp: tasks_of_def)
  have ne: "task L 0 \<noteq> task L 1" using task_inject [OF L nr] by simp
  have nf: "task L i \<notin> set (map (task L) [2..<NR_TASKS])" if "i < 2" for i
    using that task_inject [OF L] by (auto simp: NR_TASKS_def)
  have cur: "current (kernel_entry (init_kernel L s)) = task L 1"
    using page_mask_offset [OF task_aligned [OF L t(2)], of "4020"] e4(5)
    by (simp add: current_def kernel_entry_def k add.commute)
  have q0: "queued L (a_queue (boot_abs L)) = set (map (task L) [2..<NR_TASKS])"
    using heads_distinct [OF L] by (auto simp: queued_unfold boot_abs_def heads_def)
  have all: "tasks_of L \<subseteq> set (map (task L) [2..<NR_TASKS]) \<union> {task L 1, task L 0}"
  proof
    fix u assume "u \<in> tasks_of L"
    then obtain i where "u = task L i" "i < NR_TASKS" by (auto simp: tasks_of_def)
    then show "u \<in> set (map (task L) [2..<NR_TASKS]) \<union> {task L 1, task L 0}"
      by (cases "i = 0 \<or> i = 1") (auto simp: image_iff)
  qed
  have res: "resumable (kernel_entry (init_kernel L s)) (task L 0)"
    using e3(3) e4(7) [OF ne] page_mask_offset [OF task_aligned [OF L t(1)], of 4084]
    by (simp add: resumable_def kernel_entry_def k add.commute)
  have idle: "idle_task (init_kernel L s) = task L 0" using e3(2) e4(2) by (simp add: k)
  have "tasks_placed L (kernel_entry (init_kernel L s)) (a_queue (boot_abs L))"
    unfolding tasks_placed_def cur
    using q(3) idle t nf [of 0] heads_distinct [OF L] all res
    by (auto simp: kernel_entry_def boot_abs_def)
  then show ?thesis
    using cur t nf [of 1] q0 all idle e4(3,4,5,6) unfolding sched_rel_def
    by (simp add: kernel_entry_def k boot_abs_def)
qed

section \<open>Accounting\<close>

lemma account_sched_next_rr [simp]: "account (tasks (sched_next_rr L s) u) = account (tasks s u)"
  by (simp add: sched_next_rr_def inner_task_switch_def switch_stack_def Let_def)

lemma account_update_process_state_rr [simp]:
  "account (tasks (update_process_state_rr L t dst s) u) = account (tasks s u)"
  by (simp add: update_process_state_rr_def Let_def split: option.split)

lemma account_force_task_switch [simp]: "account (tasks (force_task_switch L s) u) = account (tasks s u)"
  by (simp add: force_task_switch_def Let_def)

lemma account_schedule [simp]: "account (tasks (schedule L s) u) = account (tasks s u)"
  by (simp add: schedule_def update_sched_data_rr_def needs_sched_rr_def Let_def)

section \<open>States for evaluation\<close>

text \<open>The kernel state before boot: zeroed memory and a counter that advances one tick per reading.\<close>

definition zero_task :: task_struct where
  "zero_task = \<lparr>PID = 0, TID = 0, dir_pages_baseAddr = 0, register_esp = 0, state = ST_RUN, total_quantum = 0,
     p_stats = \<lparr>user_ticks = 0, system_ticks = 0, blocked_ticks = 0, ready_ticks = 0, elapsed_total_ticks = 0,
       total_trans = 0, remaining_ticks = 0\<rparr>,
     heap_start_proc = 0, heap_end_proc = 0, heap_pointer_proc = 0, ustack = 0, semafors = 0\<rparr>"

definition zero_kstate :: kstate where
  "zero_kstate = \<lparr>links = \<lambda>_. \<lparr>lh_next = 0, lh_prev = 0\<rparr>, tasks = \<lambda>_. zero_task,
     sems = \<lambda>_. \<lparr>semid = 0, count = 0, sem_PID = 0\<rparr>, kstack = \<lambda>_. 0, ram = \<lambda>_. 0,
     mm = \<lparr>phys_mem = replicate TOTAL_PAGES 0, ptes = \<lambda>_. 0, cr3 = 0, cr0 = 0\<rparr>,
     con = io_init (\<lambda>_. 0),
     cBuffer = \<lparr>buffer = replicate 256 0, rpointer = 0, wpointer = 0, Bwritten = 0\<rparr>,
     idle_task = 0, remaining_quantum = 0, zeos_ticks = 0, global_PID = 1000, global_TID = 1000,
     esp = 0, tss_esp0 = 0, msr_175 = 0, heap_pointer = 0, tsc = \<lambda>n. of_nat (109000 * n), tsc_reads = 0\<rparr>"

definition booted :: kstate where
  "booted = kernel_entry (init_kernel example_symtab zero_kstate)"

lemma booted_rel: "sched_rel example_symtab booted (boot_abs example_symtab)"
  using boot_sched_rel_aux [OF example_symtab_ok] by (simp add: booted_def)

lemma boot_abs_queues:
  assumes "symtab_ok L"
  shows "a_queue (boot_abs L) (readyqueue L) = []" "i < NUM_SEM \<Longrightarrow> a_queue (boot_abs L) (sem_queue L i) = []"
    "a_queue (boot_abs L) (freequeue L) = map (task L) [2..<NR_TASKS]" "a_cur (boot_abs L) = task L 1"
  using heads_distinct [OF assms] by (auto simp: boot_abs_def)

text \<open>The idle task in the ready queue, as after its first time slice.\<close>

lemma idle_ready_rel:
  assumes L: "symtab_ok L" and rel: "sched_rel L s A" and ne: "idle_task s \<noteq> current s"
    and nq: "idle_task s \<notin> queued L (a_queue A)"
  shows "sched_rel L (upd_links (list_add_tail (tnode (idle_task s)) (readyqueue L))
      (upd_task (idle_task s) (\<lambda>T. T\<lparr>state := ST_READY\<rparr>) s))
    \<lparr>a_queue = (a_queue A)(readyqueue L := a_queue A (readyqueue L) @ [idle_task s]), a_cur = current s\<rparr>"
proof -
  note r = sched_relD [OF rel]
  have it: "idle_task s \<in> tasks_of L" using r(1) by (simp add: tasks_placed_def)
  have q: "queued L ((a_queue A)(readyqueue L := a_queue A (readyqueue L) @ [idle_task s])) =
      insert (idle_task s) (queued L (a_queue A))" by (rule queued_add) auto
  have "queues L (list_add_tail (tnode (idle_task s)) (readyqueue L) (links s))
      ((a_queue A)(readyqueue L := a_queue A (readyqueue L) @ [idle_task s]))"
    by (rule queues_enq [OF L r(2) it nq]) simp
  then show ?thesis
    using r ne nq it q heads_distinct [OF L] not_queuedD [OF nq]
    by (auto simp: sched_rel_def tasks_placed_def resumable_def)
qed

section \<open>Properties\<close>

text \<open>C18: Boot: after \<open>init_mm\<close>, \<open>init_sched\<close>, \<open>init_idle\<close> and \<open>init_task1\<close>, whatever the memory held before,
  the first entry into the kernel finds task 1 running on its own stack and address space, task
  0 as the idle task, tasks 2 to 9 in the free queue in order and every other queue empty.\<close>

theorem boot_sched_rel:
  assumes "symtab_ok L"
  shows "sched_rel L (kernel_entry (init_kernel L s)) (boot_abs L) \<and>
    idle_task (init_kernel L s) = task L 0"
  by (rule boot_sched_rel_aux [OF assms])

theorem boot_sched_rel_witness:
  "current (kernel_entry (init_kernel example_symtab zero_kstate)) = 0x22000"
  using boot_sched_rel [OF example_symtab_ok, of zero_kstate]
  by (simp add: sched_rel_def boot_abs_def task_def protected_tasks_def example_symtab_def PAGE_SIZE_def)

text \<open>C19: The clock-driven scheduler refines round robin: \<open>schedule\<close> takes one tick from the quantum; only
  when none is left and some task is ready does the running task go to the end of the ready
  queue and the first ready task run, on its stack and address space; the quantum is then that of
  the task that runs. Every task stays in exactly one place.\<close>

theorem schedule_refines:
  assumes "symtab_ok L" and "sched_rel L s A"
  defines "A' \<equiv> a_schedule L (idle_task s) (remaining_quantum s) A"
  shows "sched_rel L (schedule L s) A' \<and>
    remaining_quantum (schedule L s) =
      (let q = wrap32 (remaining_quantum s - 1) in if q \<noteq> 0 then q else total_quantum (tasks s (a_cur A')))"
proof (cases "wrap32 (remaining_quantum s - 1) = 0 \<and> a_queue A (readyqueue L) \<noteq> []")
  case True
  let ?s = "s\<lparr>remaining_quantum := 0\<rparr>"
  have rel: "sched_rel L ?s A" by (rule sched_rel_cong [OF assms(2)]) simp_all
  with True show ?thesis
    using force_task_switch_rel [OF assms(1) rel] force_task_switch_quantum [OF assms(1) rel]
      sched_relD(3) [OF assms(2)]
    by (simp add: schedule_cases [OF assms(1,2)] A'_def a_schedule_def a_yield_def a_next_def)
next
  case False
  have "sched_rel L (s\<lparr>remaining_quantum := q\<rparr>) A" for q
    by (rule sched_rel_cong [OF assms(2)]) simp_all
  with False show ?thesis
    using sched_relD(3) [OF assms(2)]
    by (auto simp: schedule_cases [OF assms(1,2)] A'_def a_schedule_def Let_def)
qed

theorem schedule_refines_witness:
  "remaining_quantum (schedule example_symtab booted) = 9"
proof -
  have "remaining_quantum booted = 10"
    using init_task1_effect(12) [OF example_symtab_ok init_kernel_links(2) [OF example_symtab_ok]]
    by (simp add: booted_def kernel_entry_def init_kernel_def Let_def NR_TASKS_def DEFAULT_QUANTUM_def)
  then show ?thesis
    using schedule_refines [OF example_symtab_ok booted_rel] by (simp add: Let_def int32_def)
qed

text \<open>C20: Round robin is fair: with \<open>n > 0\<close> tasks ready, \<open>k\<close> forced switches (\<open>sys_yield\<close>) rotate the running
  task and the ready queue by \<open>k\<close> places, so each ready task runs within \<open>n\<close> switches and after
  \<open>n + 1\<close> switches the same task runs again with the same queue; all other queues stay as they were.\<close>

theorem force_task_switch_round_robin:
  assumes "symtab_ok L" and "sched_rel L s A" and "a_queue A (readyqueue L) \<noteq> []"
  shows "\<exists>A'. sched_rel L ((force_task_switch L ^^ k) s) A' \<and>
    a_cur A' # a_queue A' (readyqueue L) = rotate k (a_cur A # a_queue A (readyqueue L)) \<and>
    (\<forall>r. r \<noteq> readyqueue L \<longrightarrow> a_queue A' r = a_queue A r)"
  by (rule force_task_switch_round [OF assms])

lemma booted_idle:
  "idle_task booted = task example_symtab 0" "current booted = task example_symtab 1"
  "task example_symtab 0 \<noteq> task example_symtab 1" "task example_symtab 0 \<notin> queued example_symtab (a_queue (boot_abs example_symtab))"
proof -
  show i: "idle_task booted = task example_symtab 0"
    using boot_sched_rel_aux [OF example_symtab_ok] by (simp add: booted_def kernel_entry_def)
  show "current booted = task example_symtab 1"
    using sched_relD(3) [OF booted_rel] by (simp add: boot_abs_def)
  show "task example_symtab 0 \<noteq> task example_symtab 1"
    using task_inject [OF example_symtab_ok, of 0 1] by (simp add: NR_TASKS_def)
  show "task example_symtab 0 \<notin> queued example_symtab (a_queue (boot_abs example_symtab))"
    using idle_not_queued [OF sched_relD(1) [OF booted_rel]] i boot_abs_queues [OF example_symtab_ok] by simp
qed

theorem force_task_switch_round_robin_witness:
  "\<exists>s A. current s = 0x22000 \<and>
     sched_rel example_symtab ((force_task_switch example_symtab ^^ 2) s) A \<and> a_cur A = 0x22000"
proof -
  let ?L = example_symtab and ?A = "boot_abs example_symtab"
  let ?s = "upd_links (list_add_tail (tnode (idle_task booted)) (readyqueue ?L))
      (upd_task (idle_task booted) (\<lambda>T. T\<lparr>state := ST_READY\<rparr>) booted)"
  have t: "task ?L 1 = 0x22000"
    by (simp add: task_def protected_tasks_def example_symtab_def PAGE_SIZE_def)
  have q: "a_queue ?A (readyqueue ?L) = []" by (rule boot_abs_queues [OF example_symtab_ok])
  have rel: "sched_rel ?L ?s \<lparr>a_queue = (a_queue ?A)(readyqueue ?L := a_queue ?A (readyqueue ?L) @ [idle_task booted]),
      a_cur = current booted\<rparr>"
    by (rule idle_ready_rel [OF example_symtab_ok booted_rel]) (use booted_idle in simp_all)
  from force_task_switch_round_robin [OF example_symtab_ok rel, of 2] booted_idle
  obtain A' where A': "sched_rel ?L ((force_task_switch ?L ^^ 2) ?s) A'"
    "a_cur A' # a_queue A' (readyqueue ?L) = [task ?L 1, task ?L 0]"
    by (auto simp: q numeral_2_eq_2 rotate_def)
  moreover have "current ?s = 0x22000" using booted_idle(2) t by simp
  ultimately show ?thesis using t by (metis list.inject)
qed

text \<open>A yield with no other task ready switches the task to itself: \<open>inner_task_switch\<close> reads the saved
  stack pointer before \<open>switch_stack\<close> saves the current one, so the task continues on the stack
  pointer of its previous switch, and a task that was never switched out, such as the first
  process, on a pointer that is not in its stack.\<close>

theorem yield_alone_stale_stack:
  assumes "symtab_ok L" and "sched_rel L s A" and "a_queue A (readyqueue L) = []"
  shows "esp (force_task_switch L s) = register_esp (tasks s (current s)) + 8 \<and>
    register_esp (tasks (force_task_switch L s) (current s)) = esp s - 8"
proof -
  let ?s = "update_process_state_rr L (current s) (Some (readyqueue L)) s"
  note y = yield_placed [OF assms(1,2)] and u = update_process_state_rr_ready [OF sched_relD(7) [OF assms(2)], of L]
  have q: "queues L (links ?s) ((a_queue A)(readyqueue L := a_queue A (readyqueue L) @ [current s]))"
    using y(1) by (simp add: tasks_placed_def)
  show ?thesis
    using sched_next_rr_effect(2,4) [OF assms(1) q] assms(3) y(3) u(3,4)
    by (simp add: force_task_switch_def Let_def next_task_def)
qed

lemma register_esp_init_sched: "register_esp (tasks (init_sched L (init_mm L s)) t) = register_esp (tasks s t)"
proof -
  have "register_esp (fold (\<lambda>i T. T(task L i := (T (task L i))\<lparr>PID := -1\<rparr>)) is T t) = register_esp (T t)"
    for "is" and T :: "ptr \<Rightarrow> task_struct"
    by (induction "is" arbitrary: T) auto
  then show ?thesis
    by (simp add: init_sched_def init_freequeue_eq init_mm_def allocate_DIR_def Let_def)
qed

lemma booted_register_esp: "register_esp (tasks booted (current booted)) = 0"
proof -
  let ?L = example_symtab and ?s = "init_sched example_symtab (init_mm example_symtab zero_kstate)"
  have nr: "0 < NR_TASKS" "1 < NR_TASKS" by (simp_all add: NR_TASKS_def)
  note q = init_kernel_links [OF example_symtab_ok, of zero_kstate]
  have "register_esp (tasks booted (task ?L 1)) = register_esp (tasks (init_idle ?L ?s) (task ?L 1))"
    using init_task1_effect(8) [OF example_symtab_ok q(2) nr(2)]
    by (simp add: booted_def kernel_entry_def init_kernel_def Let_def)
  also have "\<dots> = register_esp (tasks ?s (task ?L 1))"
    using init_idle_effect(5) [OF example_symtab_ok q(1) nr(1)] booted_idle(3) by simp
  finally show ?thesis by (simp add: booted_idle register_esp_init_sched zero_kstate_def zero_task_def)
qed

theorem yield_alone_stale_stack_witness:
  "esp (force_task_switch example_symtab booted) = 8 \<and> current (force_task_switch example_symtab booted) = 0xFFFFF000"
  using yield_alone_stale_stack [OF example_symtab_ok booted_rel boot_abs_queues(1) [OF example_symtab_ok]]
    booted_register_esp
  by (simp add: current_def)

text \<open>No tick is lost or counted twice by the scheduler: for every task the sum of its user, system,
  blocked and ready ticks minus the time of the last update is left unchanged by scheduling,
  switching and queueing, so the sum is always the time since the counters were set.\<close>

theorem scheduler_accounting:
  "account (tasks (schedule L s) u) = account (tasks s u) \<and>
   account (tasks (force_task_switch L s) u) = account (tasks s u) \<and>
   account (tasks (sched_next_rr L s) u) = account (tasks s u) \<and>
   account (tasks (update_process_state_rr L t dst s) u) = account (tasks s u) \<and>
   account (tasks (init_stats t s) t) = - get_ticks (tsc s (tsc_reads s))"
  by (simp add: init_stats_def read_ticks_def account_def [of "_\<lparr>p_stats := _\<rparr>"])

end
