(* ===== verification/Zeos_Sem.thy ===== *)
theory Zeos_Sem
  imports Zeos_Sched
begin

text \<open>
  The semaphores of \<open>sys.c\<close>: \<open>sys_semCreate\<close>, \<open>sys_semWait\<close>, \<open>sys_semSignal\<close> and
  \<open>sys_semDestroy\<close> on the array the running task points to. The invariant \<open>sem_inv\<close> relates
  the counter of each semaphore to its queue of blocked threads; the lemmas show what each
  call does to the queues of the scheduler, on every branch.
\<close>

section \<open>The calls\<close>

text \<open>\<open>current()->semafors[i]\<close> and its queue.\<close>

definition cur_sem :: "kstate \<Rightarrow> int \<Rightarrow> ptr" where
  "cur_sem s i = sem_at (semafors (tasks s (current s))) i"

definition cur_sem_blocked :: "kstate \<Rightarrow> int \<Rightarrow> ptr" where
  "cur_sem_blocked s i = sem_blocked (semafors (tasks s (current s))) i"

text \<open>A string literal as the bytes \<open>printk\<close> reads.\<close>

definition str :: "string \<Rightarrow> Byte list" where
  "str cs = map of_char cs"

primrec sem_create_loop :: "nat list \<Rightarrow> int \<Rightarrow> kstate \<Rightarrow> int \<times> kstate" where
  "sem_create_loop [] value s = (-1, s)"
| "sem_create_loop (i # is) value s =
     (if semid (sems s (cur_sem s (int i))) = -1 then
        let s = upd_sem (cur_sem s (int i)) (\<lambda>S. S\<lparr>semid := int i\<rparr>) s;
            s = upd_sem (cur_sem s (int i)) (\<lambda>S. S\<lparr>count := value\<rparr>) s;
            s = upd_sem (cur_sem s (int i)) (\<lambda>S. S\<lparr>sem_PID := PID (tasks s (current s))\<rparr>) s;
            s = upd_links (INIT_LIST_HEAD (cur_sem_blocked s (int i))) s
        in (int i, s)
      else sem_create_loop is value s)"

definition sys_semCreate :: "int \<Rightarrow> kstate \<Rightarrow> int \<times> kstate" where
  "sys_semCreate value s = sem_create_loop [0..<10] value s"

definition sys_semWait :: "symtab \<Rightarrow> int \<Rightarrow> kstate \<Rightarrow> int \<times> kstate" where
  "sys_semWait L semID s =
     (if semID > 10 \<or> semID < 0 then (-1, s)
      else if sem_PID (sems s (cur_sem s semID)) \<noteq> PID (tasks s (current s)) then (-1, s)
      else if semid (sems s (cur_sem s semID)) \<noteq> semID then (-1, s)
      else
        let s = upd_sem (cur_sem s semID) (\<lambda>S. S\<lparr>count := wrap32 (count S - 1)\<rparr>) s
        in if count (sems s (cur_sem s semID)) < 0 then
             let s = upd_con (printk (str ''bloqueamos'' @ [10])) s;
                 s = upd_task (current s) (\<lambda>T. T\<lparr>state := ST_BLOCKED\<rparr>) s;
                 s = upd_links (list_add (tnode (current s)) (cur_sem_blocked s semID)) s
             in (0, sched_next_rr L s)
           else (0, s))"

definition sys_semSignal :: "symtab \<Rightarrow> int \<Rightarrow> kstate \<Rightarrow> int \<times> kstate" where
  "sys_semSignal L semID s =
     (if semID > 10 \<or> semID < 0 then (-1, s)
      else if sem_PID (sems s (cur_sem s semID)) \<noteq> PID (tasks s (current s)) then (-1, s)
      else if semid (sems s (cur_sem s semID)) \<noteq> semID then (-1, s)
      else
        let s = upd_sem (cur_sem s semID) (\<lambda>S. S\<lparr>count := wrap32 (count S + 1)\<rparr>) s
        in if count (sems s (cur_sem s semID)) \<le> 0 then
             let l = list_first (cur_sem_blocked s semID) (links s);
                 s = upd_links (list_del l) s;
                 unblocked_task = list_head_to_task_struct l;
                 s = upd_task unblocked_task (\<lambda>T. T\<lparr>state := ST_READY\<rparr>) s;
                 s = upd_links (list_add l (readyqueue L)) s
             in (0, s)
           else (0, s))"

text \<open>The loop of \<open>sys_semDestroy\<close>; on a corrupt list it need not end.\<close>

partial_function (option) sem_wake_all :: "symtab \<Rightarrow> int \<Rightarrow> kstate \<Rightarrow> kstate option" where
  "sem_wake_all L semID s =
     (if list_empty (cur_sem_blocked s semID) (links s) then Some s
      else
        let l = list_first (cur_sem_blocked s semID) (links s);
            s = upd_links (list_del l) s;
            blocked_thread = list_head_to_task_struct l;
            s = upd_task blocked_thread (\<lambda>T. T\<lparr>state := ST_READY\<rparr>) s;
            s = upd_links (list_add_tail (tnode blocked_thread) (readyqueue L)) s;
            s = upd_con (printk (str ''Desbloqueamos'' @ [10])) s
        in sem_wake_all L semID s)"

definition sys_semDestroy :: "symtab \<Rightarrow> int \<Rightarrow> kstate \<Rightarrow> (int \<times> kstate) option" where
  "sys_semDestroy L semID s =
     (if semID > 10 \<or> semID < 0 then Some (-1, s)
      else if sem_PID (sems s (cur_sem s semID)) \<noteq> PID (tasks s (current s)) then Some (-1, s)
      else if semid (sems s (cur_sem s semID)) \<noteq> semID then Some (-1, s)
      else Option.bind (sem_wake_all L semID s) (\<lambda>s.
        let s = upd_sem (cur_sem s semID) (\<lambda>S. S\<lparr>count := 0\<rparr>) s;
            s = upd_sem (cur_sem s semID) (\<lambda>S. S\<lparr>semid := -1\<rparr>) s;
            s = upd_sem (cur_sem s semID) (\<lambda>S. S\<lparr>sem_PID := -1\<rparr>) s
        in Some (0, s)))"

section \<open>The invariant\<close>

definition sem_of :: "symtab \<Rightarrow> nat \<Rightarrow> ptr" where
  "sem_of L i = sem_at (sym_semafor_proces L) (int i)"

text \<open>A semaphore in slot \<open>i\<close> with the given queue: free with nobody waiting, or in use with as many
  threads waiting as the counter is below zero.\<close>

definition sem_ok :: "nat \<Rightarrow> sem_t \<Rightarrow> ptr list \<Rightarrow> bool" where
  "sem_ok i S q \<longleftrightarrow> (semid S = -1 \<and> q = [] \<or> semid S = int i \<and> int (length q) = max 0 (- count S))"

definition sem_inv :: "symtab \<Rightarrow> kstate \<Rightarrow> (ptr \<Rightarrow> ptr list) \<Rightarrow> bool" where
  "sem_inv L s Q \<longleftrightarrow> (\<forall>i<NUM_SEM. sem_ok i (sems s (sem_of L i)) (Q (sem_queue L i))) \<and>
     (\<forall>t \<in> tasks_of L. t \<notin> set (Q (freequeue L)) \<and> t \<noteq> idle_task s \<longrightarrow>
        semafors (tasks s t) = sym_semafor_proces L)"

definition kernel_inv :: "symtab \<Rightarrow> kstate \<Rightarrow> sched_abs \<Rightarrow> bool" where
  "kernel_inv L s A \<longleftrightarrow> sched_rel L s A \<and> sem_inv L s (a_queue A)"

text \<open>The running task may use semaphore \<open>i\<close>: it is in use and was created by its process.\<close>

definition owns_sem :: "symtab \<Rightarrow> kstate \<Rightarrow> nat \<Rightarrow> bool" where
  "owns_sem L s i \<longleftrightarrow> i < NUM_SEM \<and> current s \<noteq> idle_task s \<and>
     semid (sems s (sem_of L i)) = int i \<and> sem_PID (sems s (sem_of L i)) = PID (tasks s (current s))"

lemma sem_of_inject:
  assumes "symtab_ok L" "i < NUM_SEM" "j < NUM_SEM"
  shows "sem_of L i = sem_of L j \<longleftrightarrow> i = j"
  using heads_distinct(4) [OF assms] by (simp add: sem_of_def sem_queue_def sem_blocked_def)

lemma sem_of_eq [simp]:
  "symtab_ok L \<Longrightarrow> i < NUM_SEM \<Longrightarrow> j < NUM_SEM \<Longrightarrow> sem_of L i = sem_of L j \<longleftrightarrow> i = j"
  by (rule sem_of_inject)

lemma cur_sem_eq:
  assumes "kernel_inv L s A" "current s \<noteq> idle_task s"
  shows "cur_sem s (int i) = sem_of L i" "cur_sem_blocked s (int i) = sem_queue L i"
proof -
  have "current s \<in> tasks_of L" "current s \<notin> set (a_queue A (freequeue L))"
    using assms(1) not_queuedD [of "current s"] by (auto simp: kernel_inv_def sched_rel_def)
  then have "semafors (tasks s (current s)) = sym_semafor_proces L"
    using assms by (simp add: kernel_inv_def sem_inv_def)
  then show "cur_sem s (int i) = sem_of L i" "cur_sem_blocked s (int i) = sem_queue L i"
    by (simp_all add: cur_sem_def sem_of_def cur_sem_blocked_def sem_queue_def)
qed

lemma sem_invD:
  assumes "kernel_inv L s A" "owns_sem L s i"
  shows "int (length (a_queue A (sem_queue L i))) = max 0 (- count (sems s (sem_of L i)))"
  using assms by (auto simp: kernel_inv_def sem_inv_def sem_ok_def owns_sem_def)

section \<open>Waiting\<close>

lemma sem_inv_cong:
  assumes "sem_inv L s Q" "\<And>i. i < NUM_SEM \<Longrightarrow> sems s' (sem_of L i) = sems s (sem_of L i)"
    "\<And>t. semafors (tasks s' t) = semafors (tasks s t)" "idle_task s' = idle_task s"
    "Q' (freequeue L) = Q (freequeue L)" "\<And>i. i < NUM_SEM \<Longrightarrow> Q' (sem_queue L i) = Q (sem_queue L i)"
  shows "sem_inv L s' Q'"
  using assms by (simp add: sem_inv_def)

text \<open>One semaphore and its queue change.\<close>

lemma sem_inv_upd:
  assumes L: "symtab_ok L" and inv: "sem_inv L s Q" and i: "i < NUM_SEM"
    and sems: "\<And>j. j < NUM_SEM \<Longrightarrow> j \<noteq> i \<Longrightarrow> sems s' (sem_of L j) = sems s (sem_of L j)"
    and ok: "sem_ok i (sems s' (sem_of L i)) q"
    and rest: "\<And>t. semafors (tasks s' t) = semafors (tasks s t)" "idle_task s' = idle_task s"
    and Q: "Q' (freequeue L) = Q (freequeue L)" "Q' (sem_queue L i) = q"
      "\<And>j. j < NUM_SEM \<Longrightarrow> j \<noteq> i \<Longrightarrow> Q' (sem_queue L j) = Q (sem_queue L j)"
  shows "sem_inv L s' Q'"
  using assms unfolding sem_inv_def by metis

lemma drop_next_sems:
  assumes "symtab_ok L"
  shows "drop_next L Q (freequeue L) = Q (freequeue L)"
    "i < NUM_SEM \<Longrightarrow> drop_next L Q (sem_queue L i) = Q (sem_queue L i)"
  using heads_distinct [OF assms] by simp_all

lemma sem_inv_sched_next:
  assumes L: "symtab_ok L" and q: "queues L (links s) Q" and inv: "sem_inv L s Q"
  shows "sem_inv L (sched_next_rr L s) (drop_next L Q)"
proof -
  have r: "same_rest s (sched_next_rr L s)" by (rule sched_next_rr_effect(9) [OF L q])
  then have "same_task (tasks s t) (tasks (sched_next_rr L s) t)" for t by (simp add: same_rest_def)
  from same_task_fields [OF this] r show ?thesis
    by (intro sem_inv_cong [OF inv]) (simp_all add: same_rest_def drop_next_sems [OF L])
qed

text \<open>The running task goes to the front of the queue of a semaphore.\<close>

lemma block_placed:
  assumes L: "symtab_ok L" and rel: "sched_rel L s A" and i: "i < NUM_SEM" and ni: "current s \<noteq> idle_task s"
    and s': "links s' = list_add (tnode (current s)) (sem_queue L i) (links s)"
      "tasks s' = (tasks s)(current s := (tasks s (current s))\<lparr>state := ST_BLOCKED\<rparr>)"
      "esp s' = esp s" "idle_task s' = idle_task s"
  defines "Q \<equiv> (a_queue A)(sem_queue L i := current s # a_queue A (sem_queue L i))"
  shows "tasks_placed L s' Q" and "tasks_of L \<subseteq> insert (idle_task s') (queued L Q)"
    and "next_task L (idle_task s') Q \<noteq> current s'"
proof -
  note r = sched_relD [OF rel]
  have cur: "current s' = current s" using s'(3) by (rule current_cong)
  have h: "sem_queue L i \<in> heads L" using i by simp
  have qs: "queued L Q = insert (current s) (queued L (a_queue A))"
    unfolding Q_def by (rule queued_add [OF h]) simp
  show "tasks_of L \<subseteq> insert (idle_task s') (queued L Q)" using r(6) qs s'(4) by auto
  have nq: "current s \<notin> set (a_queue A r)" if "r \<in> heads L" for r by (rule not_queuedD [OF r(5) that])
  have "queues L (links s') Q" unfolding s'(1) Q_def by (rule queues_push [OF L r(2,4,5) h])
  moreover have "resumable s' u = resumable s u" for u using s'(2) by (simp add: resumable_def)
  moreover have "state (tasks s' u) = (if u = current s then ST_BLOCKED else state (tasks s u))" for u
    using s'(2) by simp
  ultimately show "tasks_placed L s' Q"
    using r(1) L nq cur s'(4) ni i
    by (auto simp: tasks_placed_def Q_def)
  have "Q (readyqueue L) = a_queue A (readyqueue L)" using heads_distinct(3) [OF L i] by (simp add: Q_def)
  then show "next_task L (idle_task s') Q \<noteq> current s'"
    using nq [of "readyqueue L"] ni cur s'(4) by (cases "a_queue A (readyqueue L)") (auto simp: next_task_def)
qed

definition a_block :: "symtab \<Rightarrow> ptr \<Rightarrow> nat \<Rightarrow> sched_abs \<Rightarrow> sched_abs" where
  "a_block L idle i A = a_next L idle ((a_queue A)(sem_queue L i := a_cur A # a_queue A (sem_queue L i)))"

lemma owns_semD:
  assumes "kernel_inv L s A" "owns_sem L s i"
  shows "i < NUM_SEM" "current s \<noteq> idle_task s" "cur_sem s (int i) = sem_of L i"
    "cur_sem_blocked s (int i) = sem_queue L i" "semid (sems s (sem_of L i)) = int i"
    "sem_PID (sems s (sem_of L i)) = PID (tasks s (current s))" "\<not> (int i > 10 \<or> int i < 0)"
  using assms cur_sem_eq [OF assms(1)] by (auto simp: owns_sem_def NUM_SEM_def)

lemma cur_sem_upd [simp]:
  "cur_sem (upd_sem a f s) i = cur_sem s i" "cur_sem_blocked (upd_sem a f s) i = cur_sem_blocked s i"
  "cur_sem (upd_con g s) i = cur_sem s i" "cur_sem_blocked (upd_con g s) i = cur_sem_blocked s i"
  "cur_sem (upd_links h s) i = cur_sem s i" "cur_sem_blocked (upd_links h s) i = cur_sem_blocked s i"
  "cur_sem (upd_task t (\<lambda>T. T\<lparr>state := x\<rparr>) s) i = cur_sem s i"
  "cur_sem_blocked (upd_task t (\<lambda>T. T\<lparr>state := x\<rparr>) s) i = cur_sem_blocked s i"
  by (simp_all add: cur_sem_def cur_sem_blocked_def)

lemma kernel_inv_count:
  assumes L: "symtab_ok L" and inv: "kernel_inv L s A" and i: "i < NUM_SEM"
    and "semid (sems s (sem_of L i)) = int i" and "a_queue A (sem_queue L i) = []" and "0 \<le> c"
  shows "kernel_inv L (upd_sem (sem_of L i) (\<lambda>S. S\<lparr>count := c\<rparr>) s) A"
proof -
  let ?s = "upd_sem (sem_of L i) (\<lambda>S. S\<lparr>count := c\<rparr>) s"
  have "sched_rel L s A" using inv by (simp add: kernel_inv_def)
  then have "sched_rel L ?s A" by (rule sched_rel_cong) simp_all
  moreover have "sem_inv L ?s (a_queue A)"
  proof (rule sem_inv_upd [OF L _ i, of s "a_queue A"])
    show "sem_inv L s (a_queue A)" using inv by (simp add: kernel_inv_def)
    show "sem_ok i (sems ?s (sem_of L i)) []" using assms(4,6) by (simp add: sem_ok_def)
  qed (use L i assms(5) in simp_all)
  ultimately show ?thesis by (simp add: kernel_inv_def)
qed

lemma sys_semWait_blocks:
  assumes L: "symtab_ok L" and inv: "kernel_inv L s A" and own: "owns_sem L s i"
    and c: "count (sems s (sem_of L i)) \<le> 0" "int32 (count (sems s (sem_of L i)) - 1)"
  shows "fst (sys_semWait L (int i) s) = 0 \<and>
    kernel_inv L (snd (sys_semWait L (int i) s)) (a_block L (idle_task s) i A)"
proof -
  note o = owns_semD [OF inv own]
  have rel: "sched_rel L s A" using inv by (simp add: kernel_inv_def)
  let ?c = "count (sems s (sem_of L i)) - 1"
  let ?s = "upd_links (list_add (tnode (current s)) (sem_queue L i))
      (upd_task (current s) (\<lambda>T. T\<lparr>state := ST_BLOCKED\<rparr>)
        (upd_con (printk (str ''bloqueamos'' @ [10]))
          (upd_sem (sem_of L i) (\<lambda>S. S\<lparr>count := wrap32 (count S - 1)\<rparr>) s)))"
  let ?Q = "(a_queue A)(sem_queue L i := current s # a_queue A (sem_queue L i))"
  have eq: "sys_semWait L (int i) s = (0, sched_next_rr L ?s)"
    unfolding sys_semWait_def using o c by (simp add: Let_def)
  have b: "tasks_placed L ?s ?Q" "tasks_of L \<subseteq> insert (idle_task ?s) (queued L ?Q)"
    "next_task L (idle_task ?s) ?Q \<noteq> current ?s"
    by (rule block_placed [OF L rel o(1,2)]; simp add: upd_task_def upd_links_def)+
  have "sched_rel L (sched_next_rr L ?s) (a_next L (idle_task ?s) ?Q)"
    using b by (intro sched_next_rel [OF L]) auto
  moreover have "sem_inv L ?s ?Q"
  proof (rule sem_inv_upd [OF L _ o(1), of s "a_queue A"])
    show "sem_inv L s (a_queue A)" using inv by (simp add: kernel_inv_def)
    show "sem_ok i (sems ?s (sem_of L i)) (current s # a_queue A (sem_queue L i))"
      using sem_invD [OF inv own] c o(5) by (simp add: sem_ok_def)
  qed (use L o(1) in simp_all)
  then have "sem_inv L (sched_next_rr L ?s) (drop_next L ?Q)"
    using b(1) by (intro sem_inv_sched_next [OF L]) (auto simp: tasks_placed_def)
  ultimately show ?thesis
    unfolding eq using sched_relD(3) [OF rel] by (simp add: kernel_inv_def a_block_def a_next_def)
qed

lemma sys_semWait_passes:
  assumes L: "symtab_ok L" and inv: "kernel_inv L s A" and own: "owns_sem L s i"
    and c: "0 < count (sems s (sem_of L i))" "int32 (count (sems s (sem_of L i)))"
  shows "sys_semWait L (int i) s = (0, upd_sem (sem_of L i) (\<lambda>S. S\<lparr>count := count S - 1\<rparr>) s) \<and>
    kernel_inv L (snd (sys_semWait L (int i) s)) A"
proof -
  note o = owns_semD [OF inv own]
  let ?c = "count (sems s (sem_of L i)) - 1"
  have w: "wrap32 ?c = ?c" using c by (intro wrap32_id) (simp add: int32_def)
  have e: "upd_sem (sem_of L i) (\<lambda>S. S\<lparr>count := wrap32 (count S - 1)\<rparr>) s = upd_sem (sem_of L i) (\<lambda>S. S\<lparr>count := ?c\<rparr>) s"
    "upd_sem (sem_of L i) (\<lambda>S. S\<lparr>count := count S - 1\<rparr>) s = upd_sem (sem_of L i) (\<lambda>S. S\<lparr>count := ?c\<rparr>) s"
    using w by (simp_all add: upd_sem_def)
  have "sys_semWait L (int i) s = (0, upd_sem (sem_of L i) (\<lambda>S. S\<lparr>count := ?c\<rparr>) s)"
    unfolding sys_semWait_def using o c by (simp add: Let_def e)
  moreover have "a_queue A (sem_queue L i) = []" using sem_invD [OF inv own] c by simp
  ultimately show ?thesis
    using kernel_inv_count [OF L inv o(1,5)] c e(2) by simp
qed

section \<open>Waking\<close>

text \<open>The first blocked thread \<open>t\<close> of a semaphore moves to the ready queue.\<close>

lemma wake_queues:
  assumes L: "symtab_ok L" and q: "queues L h Q" and i: "i < NUM_SEM" and t: "Q (sem_queue L i) = t # ts"
  shows "queues L (list_add (tnode t) (readyqueue L) (list_del (tnode t) h))
      (Q(sem_queue L i := ts, readyqueue L := t # Q (readyqueue L)))"
    and "queues L (list_add_tail (tnode t) (readyqueue L) (list_del (tnode t) h))
      (Q(sem_queue L i := ts, readyqueue L := Q (readyqueue L) @ [t]))"
    and "t \<in> tasks_of L" and "queued L (Q(sem_queue L i := ts)) = queued L Q - {t}"
proof -
  have h: "sem_queue L i \<in> heads L" using i by simp
  have d: "queues L (list_del (tnode t) h) (Q(sem_queue L i := ts))"
    using queues_del [OF L q h, of "[]" t ts] t by simp
  show tl: "t \<in> tasks_of L" using queuesD(2) [OF q h] t by simp
  show qd: "queued L (Q(sem_queue L i := ts)) = queued L Q - {t}"
    using queued_del [OF q h, of "[]" t ts] t by simp
  then have nq: "t \<notin> queued L (Q(sem_queue L i := ts))" by simp
  show "queues L (list_add (tnode t) (readyqueue L) (list_del (tnode t) h))
      (Q(sem_queue L i := ts, readyqueue L := t # Q (readyqueue L)))"
    using queues_push [OF L d tl nq, of "readyqueue L"] L i by simp
  show "queues L (list_add_tail (tnode t) (readyqueue L) (list_del (tnode t) h))
      (Q(sem_queue L i := ts, readyqueue L := Q (readyqueue L) @ [t]))"
    using queues_enq [OF L d tl nq, of "readyqueue L"] L i by simp
qed

lemma wake_rel:
  assumes L: "symtab_ok L" and rel: "sched_rel L s A" and i: "i < NUM_SEM"
    and t: "a_queue A (sem_queue L i) = t # ts" and xs: "set xs = insert t (set (a_queue A (readyqueue L)))"
    and q: "queues L (links s') ((a_queue A)(sem_queue L i := ts, readyqueue L := xs))"
    and s': "tasks s' = (tasks s)(t := (tasks s t)\<lparr>state := ST_READY\<rparr>)" "esp s' = esp s" "idle_task s' = idle_task s"
      "tss_esp0 s' = tss_esp0 s" "msr_175 s' = msr_175 s" "cr3 (mm s') = cr3 (mm s)"
  shows "sched_rel L s' \<lparr>a_queue = (a_queue A)(sem_queue L i := ts, readyqueue L := xs), a_cur = a_cur A\<rparr>"
proof -
  note r = sched_relD [OF rel]
  let ?Q = "(a_queue A)(sem_queue L i := ts, readyqueue L := xs)"
  have h: "sem_queue L i \<in> heads L" using i by simp
  note w = wake_queues(3,4) [OF L r(2) i t]
  have "queued L ?Q = insert t (queued L ((a_queue A)(sem_queue L i := ts)))"
    by (rule queued_add) (use L i xs in auto)
  then have qq: "queued L ?Q = queued L (a_queue A)" using w t h by (auto simp: queued_unfold)
  have cur: "current s' = current s" using s'(2) by (rule current_cong)
  have tc: "t \<noteq> current s" using not_queuedD [OF r(5) h] t by auto
  have tq: "t \<notin> set (a_queue A (sem_queue L j))" if "j < NUM_SEM" "j \<noteq> i" for j
    using queuesD(3) [OF r(2) h, of "sem_queue L j"] that L i t by auto
  have ts: "t \<notin> set ts" using queues_distinct [OF r(2) h] t by auto
  have res: "resumable s' u = resumable s u" for u using s'(1) by (simp add: resumable_def)
  have st: "state (tasks s' u) = (if u = t then ST_READY else state (tasks s u))" for u using s'(1) by simp
  have it: "idle_task s \<noteq> t" using r(1) i t by (auto simp: tasks_placed_def)
  have blk: "state (tasks s' u) = ST_BLOCKED" if "j < NUM_SEM" "u \<in> set (?Q (sem_queue L j))" for j u
    using that r(1) t tq ts st L i by (cases "j = i") (auto simp: tasks_placed_def)
  have rdy: "state (tasks s' u) = ST_READY" if "u \<in> set xs" for u
    using that xs st r(1) by (auto simp: tasks_placed_def)
  have nb: "idle_task s \<notin> set (?Q (sem_queue L j))" if "j < NUM_SEM" for j
    using that r(1) L i t by (cases "j = i") (auto simp: tasks_placed_def)
  have "tasks_placed L s' ?Q"
    unfolding tasks_placed_def res cur s'(3)
    using q r(1) L i blk rdy nb by (simp add: tasks_placed_def)
  then show ?thesis
    using r qq cur s' tc st by (simp add: sched_rel_def)
qed

lemma sys_semSignal_wakes:
  assumes L: "symtab_ok L" and inv: "kernel_inv L s A" and own: "owns_sem L s i"
    and c: "count (sems s (sem_of L i)) < 0" "int32 (count (sems s (sem_of L i)))"
  shows "\<exists>t ts. a_queue A (sem_queue L i) = t # ts \<and> fst (sys_semSignal L (int i) s) = 0 \<and>
    kernel_inv L (snd (sys_semSignal L (int i) s))
      \<lparr>a_queue = (a_queue A)(sem_queue L i := ts, readyqueue L := t # a_queue A (readyqueue L)), a_cur = a_cur A\<rparr>"
proof -
  note o = owns_semD [OF inv own]
  have rel: "sched_rel L s A" using inv by (simp add: kernel_inv_def)
  note r = sched_relD [OF rel]
  obtain t ts where t: "a_queue A (sem_queue L i) = t # ts"
    using sem_invD [OF inv own] c by (cases "a_queue A (sem_queue L i)") auto
  have h: "sem_queue L i \<in> heads L" using o(1) by simp
  note w = wake_queues [OF L r(2) o(1) t]
  let ?c = "count (sems s (sem_of L i)) + 1"
  have wc: "wrap32 ?c = ?c" using c by (intro wrap32_id) (simp add: int32_def)
  let ?s = "upd_links (list_add (tnode t) (readyqueue L)) (upd_task t (\<lambda>T. T\<lparr>state := ST_READY\<rparr>)
      (upd_links (list_del (tnode t)) (upd_sem (sem_of L i) (\<lambda>S. S\<lparr>count := wrap32 (count S + 1)\<rparr>) s)))"
  have f: "list_first (sem_queue L i) (links s) = tnode t" by (rule queues_first [OF r(2) h t])
  have eq: "sys_semSignal L (int i) s = (0, ?s)"
    unfolding sys_semSignal_def using o c wc node_to_task [OF L w(3)] by (simp add: Let_def f)
  let ?Q = "(a_queue A)(sem_queue L i := ts, readyqueue L := t # a_queue A (readyqueue L))"
  have "sched_rel L ?s \<lparr>a_queue = ?Q, a_cur = a_cur A\<rparr>"
    by (rule wake_rel [OF L rel o(1) t]) (use w(1) in \<open>simp_all add: upd_task_def upd_links_def\<close>)
  moreover have "sem_inv L ?s ?Q"
  proof (rule sem_inv_upd [OF L _ o(1), of s "a_queue A"])
    show "sem_inv L s (a_queue A)" using inv by (simp add: kernel_inv_def)
    show "sem_ok i (sems ?s (sem_of L i)) ts"
      using sem_invD [OF inv own] c o(5) t wc by (simp add: sem_ok_def)
  qed (use L o(1) in simp_all)
  ultimately have "kernel_inv L ?s \<lparr>a_queue = ?Q, a_cur = a_cur A\<rparr>" by (simp add: kernel_inv_def)
  with eq t show ?thesis by auto
qed

lemma sys_semSignal_counts:
  assumes L: "symtab_ok L" and inv: "kernel_inv L s A" and own: "owns_sem L s i"
    and c: "0 \<le> count (sems s (sem_of L i))" "int32 (count (sems s (sem_of L i)) + 1)"
  shows "sys_semSignal L (int i) s = (0, upd_sem (sem_of L i) (\<lambda>S. S\<lparr>count := count S + 1\<rparr>) s) \<and>
    kernel_inv L (snd (sys_semSignal L (int i) s)) A"
proof -
  note o = owns_semD [OF inv own]
  let ?c = "count (sems s (sem_of L i)) + 1"
  have e: "upd_sem (sem_of L i) (\<lambda>S. S\<lparr>count := wrap32 (count S + 1)\<rparr>) s = upd_sem (sem_of L i) (\<lambda>S. S\<lparr>count := ?c\<rparr>) s"
    "upd_sem (sem_of L i) (\<lambda>S. S\<lparr>count := count S + 1\<rparr>) s = upd_sem (sem_of L i) (\<lambda>S. S\<lparr>count := ?c\<rparr>) s"
    using wrap32_id [OF c(2)] by (simp_all add: upd_sem_def)
  have "sys_semSignal L (int i) s = (0, upd_sem (sem_of L i) (\<lambda>S. S\<lparr>count := ?c\<rparr>) s)"
    unfolding sys_semSignal_def using o c by (simp add: Let_def e)
  moreover have "a_queue A (sem_queue L i) = []" using sem_invD [OF inv own] c by simp
  ultimately show ?thesis
    using kernel_inv_count [OF L inv o(1,5)] c e(2) by simp
qed

lemma kernel_inv_cong:
  assumes "kernel_inv L s A" and eq: "links s' = links s" "sems s' = sems s" "esp s' = esp s" "idle_task s' = idle_task s"
      "tss_esp0 s' = tss_esp0 s" "msr_175 s' = msr_175 s" "cr3 (mm s') = cr3 (mm s)"
    and T: "\<And>u. state (tasks s' u) = state (tasks s u)" "\<And>u. register_esp (tasks s' u) = register_esp (tasks s u)"
      "\<And>u. semafors (tasks s' u) = semafors (tasks s u)"
      "\<And>u. dir_pages_baseAddr (tasks s' u) = dir_pages_baseAddr (tasks s u)"
  shows "kernel_inv L s' A"
proof -
  have c: "current s' = current s" using eq(3) by (rule current_cong)
  have "resumable s' = resumable s" using T(2) by (simp add: resumable_def fun_eq_iff)
  then show ?thesis using assms c by (simp add: kernel_inv_def sched_rel_def tasks_placed_def sem_inv_def)
qed

section \<open>Creating and destroying\<close>

lemma queues_init:
  assumes L: "symtab_ok L" and q: "queues L h Q" and h: "r \<in> heads L"
  shows "queues L (INIT_LIST_HEAD r h) (Q(r := []))"
proof (rule queues_update [OF q h])
  fix p assume p: "p \<in> heads L" "p \<noteq> r"
  then have "r \<notin> set (p # map tnode (Q p))" using queues_disjoint_nodes [OF L q p(1) h] by auto
  with lq.init_frame [OF queuesD(1) [OF q p(1)]]
  show "dlist (INIT_LIST_HEAD r h) p (map tnode (Q p)) \<and> set [] \<inter> set (Q p) = {}" by simp
qed (simp_all add: dlist_init)

lemma sem_create_loop_full:
  "\<forall>i \<in> set is. semid (sems s (cur_sem s (int i))) \<noteq> -1 \<Longrightarrow> sem_create_loop is v s = (-1, s)"
  by (induction "is") auto

lemma sem_create_loop_found:
  assumes "\<forall>j \<in> set js. semid (sems s (cur_sem s (int j))) \<noteq> -1" "semid (sems s (cur_sem s (int i))) = -1"
  shows "sem_create_loop (js @ i # is) v s = (int i,
    upd_links (INIT_LIST_HEAD (cur_sem_blocked s (int i)))
      (upd_sem (cur_sem s (int i)) (\<lambda>_. \<lparr>semid = int i, count = v, sem_PID = PID (tasks s (current s))\<rparr>) s))"
  using assms by (induction js) (simp_all add: Let_def, simp add: upd_sem_def)

definition sem_free :: "symtab \<Rightarrow> kstate \<Rightarrow> nat \<Rightarrow> bool" where
  "sem_free L s i \<longleftrightarrow> semid (sems s (sem_of L i)) = -1"

lemma sys_semCreate_found:
  assumes L: "symtab_ok L" and inv: "kernel_inv L s A" and cur: "current s \<noteq> idle_task s"
    and i: "i < NUM_SEM" "sem_free L s i" "\<forall>j<i. \<not> sem_free L s j" and v: "0 \<le> v"
  defines "s' \<equiv> snd (sys_semCreate v s)"
  shows "fst (sys_semCreate v s) = int i" "kernel_inv L s' A" "owns_sem L s' i"
    "count (sems s' (sem_of L i)) = v"
proof -
  note c = cur_sem_eq [OF inv cur]
  have rel: "sched_rel L s A" and sinv: "sem_inv L s (a_queue A)" using inv by (auto simp: kernel_inv_def)
  note r = sched_relD [OF rel]
  have up: "[0..<10] = [0..<i] @ i # [Suc i..<10]"
    using i(1) upt_add_eq_append [of 0 i "10 - i"] by (simp add: NUM_SEM_def upt_conv_Cons)
  let ?s = "upd_links (INIT_LIST_HEAD (sem_queue L i))
      (upd_sem (sem_of L i) (\<lambda>_. \<lparr>semid = int i, count = v, sem_PID = PID (tasks s (current s))\<rparr>) s)"
  have eq: "sys_semCreate v s = (int i, ?s)"
    unfolding sys_semCreate_def up using i(2,3)
    by (subst sem_create_loop_found) (simp_all add: c sem_free_def)
  then show "fst (sys_semCreate v s) = int i" by simp
  have e: "a_queue A (sem_queue L i) = []"
    using sinv i(1,2) by (auto simp: sem_inv_def sem_ok_def sem_free_def)
  then have "(a_queue A)(sem_queue L i := []) = a_queue A" by auto
  then have "queues L (INIT_LIST_HEAD (sem_queue L i) (links s)) (a_queue A)"
    using queues_init [OF L r(2), of "sem_queue L i"] i(1) by simp
  then have "sched_rel L ?s A"
    using rel by (simp add: sched_rel_def tasks_placed_def resumable_def)
  moreover have "sem_inv L ?s (a_queue A)"
  proof (rule sem_inv_upd [OF L sinv i(1)])
    show "sem_ok i (sems ?s (sem_of L i)) []" using v by (simp add: sem_ok_def)
  qed (use L i(1) e in simp_all)
  ultimately show "kernel_inv L s' A" by (simp add: s'_def eq kernel_inv_def)
  show "owns_sem L s' i" "count (sems s' (sem_of L i)) = v"
    using i(1) cur by (simp_all add: s'_def eq owns_sem_def)
qed

lemma sys_semCreate_full:
  assumes "kernel_inv L s A" "current s \<noteq> idle_task s" "\<forall>i<NUM_SEM. \<not> sem_free L s i"
  shows "sys_semCreate v s = (-1, s)"
  unfolding sys_semCreate_def using assms(3)
  by (intro sem_create_loop_full) (simp add: cur_sem_eq [OF assms(1,2)] sem_free_def NUM_SEM_def)

text \<open>One turn of the loop.\<close>

lemma sem_wake_step:
  assumes L: "symtab_ok L" and i: "i < NUM_SEM" and rel: "sched_rel L s A" and sm: "semafors (tasks s (current s)) = sym_semafor_proces L"
    and q: "a_queue A (sem_queue L i) = t # ts"
  shows "\<exists>s1. sem_wake_all L (int i) s = sem_wake_all L (int i) s1 \<and>
    sched_rel L s1 \<lparr>a_queue = (a_queue A)(sem_queue L i := ts, readyqueue L := a_queue A (readyqueue L) @ [t]), a_cur = a_cur A\<rparr> \<and>
    sems s1 = sems s \<and> idle_task s1 = idle_task s \<and> current s1 = current s \<and>
    (\<forall>u. semafors (tasks s1 u) = semafors (tasks s u) \<and> PID (tasks s1 u) = PID (tasks s u))"
proof -
  have h: "sem_queue L i \<in> heads L" using i by simp
  note r = sched_relD [OF rel]
  note w = wake_queues [OF L r(2) i q]
  let ?s = "upd_con (printk (str ''Desbloqueamos'' @ [10])) (upd_links (list_add_tail (tnode t) (readyqueue L))
      (upd_task t (\<lambda>T. T\<lparr>state := ST_READY\<rparr>) (upd_links (list_del (tnode t)) s)))"
  have b: "cur_sem_blocked s (int i) = sem_queue L i" using sm by (simp add: cur_sem_blocked_def sem_queue_def)
  have ne: "\<not> list_empty (sem_queue L i) (links s)" using queues_empty [OF r(2) h] q by simp
  have "sem_wake_all L (int i) s = sem_wake_all L (int i) ?s"
    using ne queues_first [OF r(2) h q] node_to_task [OF L w(3)] by (subst sem_wake_all.simps) (simp add: b Let_def)
  moreover have "sched_rel L ?s \<lparr>a_queue = (a_queue A)(sem_queue L i := ts, readyqueue L := a_queue A (readyqueue L) @ [t]), a_cur = a_cur A\<rparr>"
    by (rule wake_rel [OF L rel i q]) (use w(2) in \<open>simp_all add: upd_task_def upd_links_def upd_con_def\<close>)
  ultimately show ?thesis by (intro exI [of _ ?s]) auto
qed

lemma sem_wake_all_spec:
  assumes L: "symtab_ok L" and i: "i < NUM_SEM"
  shows "sched_rel L s A \<Longrightarrow> semafors (tasks s (current s)) = sym_semafor_proces L \<Longrightarrow>
    a_queue A (sem_queue L i) = ts \<Longrightarrow>
    \<exists>s'. sem_wake_all L (int i) s = Some s' \<and> sems s' = sems s \<and> idle_task s' = idle_task s \<and>
      current s' = current s \<and> (\<forall>t. semafors (tasks s' t) = semafors (tasks s t) \<and> PID (tasks s' t) = PID (tasks s t)) \<and>
      sched_rel L s' \<lparr>a_queue = (a_queue A)(sem_queue L i := [], readyqueue L := a_queue A (readyqueue L) @ ts),
        a_cur = a_cur A\<rparr>"
proof (induction ts arbitrary: s A)
  case Nil
  have h: "sem_queue L i \<in> heads L" using i by simp
  have e: "list_empty (sem_queue L i) (links s)"
    using queues_empty [OF sched_relD(2) [OF Nil(1)] h] Nil(3) by simp
  have "cur_sem_blocked s (int i) = sem_queue L i" using Nil(2) by (simp add: cur_sem_blocked_def sem_queue_def)
  with e have "sem_wake_all L (int i) s = Some s" by (subst sem_wake_all.simps) simp
  moreover have q: "(a_queue A)(sem_queue L i := [], readyqueue L := a_queue A (readyqueue L) @ []) = a_queue A"
    using Nil(3) by auto
  have "sched_rel L s \<lparr>a_queue = (a_queue A)(sem_queue L i := [], readyqueue L := a_queue A (readyqueue L) @ []),
      a_cur = a_cur A\<rparr>" unfolding q using Nil(1) by (cases A) simp
  ultimately show ?case by (intro exI [of _ s]) (simp only: simp_thms)
next
  case (Cons t ts)
  let ?A = "\<lparr>a_queue = (a_queue A)(sem_queue L i := ts, readyqueue L := a_queue A (readyqueue L) @ [t]), a_cur = a_cur A\<rparr>"
  obtain s1 where s1: "sem_wake_all L (int i) s = sem_wake_all L (int i) s1" "sched_rel L s1 ?A" "sems s1 = sems s"
    "idle_task s1 = idle_task s" "current s1 = current s" "\<forall>u. semafors (tasks s1 u) = semafors (tasks s u) \<and> PID (tasks s1 u) = PID (tasks s u)"
    using sem_wake_step [OF L i Cons.prems] by blast
  have sm: "semafors (tasks s1 (current s1)) = sym_semafor_proces L" using Cons.prems(2) s1(5,6) by simp
  have "a_queue ?A (sem_queue L i) = ts" using L i by simp
  from Cons.IH [OF s1(2) sm this] obtain s' where s': "sem_wake_all L (int i) s1 = Some s'" "sems s' = sems s1"
    "idle_task s' = idle_task s1" "current s' = current s1" "\<forall>t. semafors (tasks s' t) = semafors (tasks s1 t) \<and> PID (tasks s' t) = PID (tasks s1 t)"
    "sched_rel L s' \<lparr>a_queue = (a_queue ?A)(sem_queue L i := [], readyqueue L := a_queue ?A (readyqueue L) @ ts), a_cur = a_cur ?A\<rparr>" by blast
  have "(a_queue ?A)(sem_queue L i := [], readyqueue L := a_queue ?A (readyqueue L) @ ts) =
      (a_queue A)(sem_queue L i := [], readyqueue L := a_queue A (readyqueue L) @ t # ts)"
    using L i by (auto simp: fun_eq_iff)
  with s'(6) have "sched_rel L s' \<lparr>a_queue = (a_queue A)(sem_queue L i := [], readyqueue L := a_queue A (readyqueue L) @ t # ts), a_cur = a_cur A\<rparr>"
    by (simp only: sched_abs.select_convs)
  with s1(1,3-6) s'(1-5) show ?case by (intro exI [of _ s']) (simp del: fun_upd_apply)
qed

lemma sem_reset: "S\<lparr>count := c, semid := i, sem_PID := p\<rparr> = \<lparr>semid = i, count = c, sem_PID = p\<rparr>"
  by (cases S) simp

lemma sys_semDestroy_found:
  assumes L: "symtab_ok L" and inv: "kernel_inv L s A" and own: "owns_sem L s i"
  shows "\<exists>s'. sys_semDestroy L (int i) s = Some (0, s') \<and> sem_free L s' i \<and>
    kernel_inv L s' \<lparr>a_queue = (a_queue A)(sem_queue L i := [],
      readyqueue L := a_queue A (readyqueue L) @ a_queue A (sem_queue L i)), a_cur = a_cur A\<rparr>"
proof -
  note o = owns_semD [OF inv own]
  have rel: "sched_rel L s A" and sinv: "sem_inv L s (a_queue A)" using inv by (auto simp: kernel_inv_def)
  note r = sched_relD [OF rel]
  have sm: "semafors (tasks s (current s)) = sym_semafor_proces L"
    using sinv r(4) not_queuedD [OF r(5), of "freequeue L"] o(2) by (simp add: sem_inv_def)
  let ?Q = "(a_queue A)(sem_queue L i := [], readyqueue L := a_queue A (readyqueue L) @ a_queue A (sem_queue L i))"
  obtain s' where s': "sem_wake_all L (int i) s = Some s'" "sems s' = sems s" "idle_task s' = idle_task s"
    "current s' = current s" "\<forall>t. semafors (tasks s' t) = semafors (tasks s t) \<and> PID (tasks s' t) = PID (tasks s t)"
    "sched_rel L s' \<lparr>a_queue = ?Q, a_cur = a_cur A\<rparr>"
    using sem_wake_all_spec [OF L o(1) rel sm refl] by blast
  have c: "cur_sem s' (int i) = sem_of L i" using s'(4,5) sm by (simp add: cur_sem_def sem_of_def)
  let ?s = "upd_sem (sem_of L i) (\<lambda>_. \<lparr>semid = -1, count = 0, sem_PID = -1\<rparr>) s'"
  have "sys_semDestroy L (int i) s = Some (0, ?s)"
    unfolding sys_semDestroy_def using o s'(1)
    by (simp add: Let_def c) (simp add: upd_sem_def sem_reset)
  moreover have "sched_rel L ?s \<lparr>a_queue = ?Q, a_cur = a_cur A\<rparr>"
    by (rule sched_rel_cong [OF s'(6)]) simp_all
  moreover have "sem_inv L ?s ?Q"
  proof (rule sem_inv_upd [OF L sinv o(1)])
    show "sem_ok i (sems ?s (sem_of L i)) []" by (simp add: sem_ok_def)
  qed (use L o(1) s' in simp_all)
  ultimately show ?thesis by (auto simp: kernel_inv_def sem_free_def)
qed

section \<open>After boot\<close>

lemma boot_kernel_inv:
  assumes L: "symtab_ok L"
  shows "kernel_inv L (kernel_entry (init_kernel L s)) (boot_abs L)"
    and "i < NUM_SEM \<Longrightarrow> sem_free L (kernel_entry (init_kernel L s)) i"
proof -
  let ?s = "init_kernel L s"
  have nr: "0 < NR_TASKS" "1 < NR_TASKS" by (simp_all add: NR_TASKS_def)
  note q = init_kernel_links [OF L, of s]
  note e = init_task1_effect [OF L q(2) nr(2)]
  have k: "?s = init_task1 L (init_idle L (init_sched L (init_mm L s)))" by (simp add: init_kernel_def Let_def)
  have rel: "sched_rel L (kernel_entry ?s) (boot_abs L)" and idle: "idle_task ?s = task L 0"
    using boot_sched_rel_aux [OF L] by auto
  have S: "sems ?s (sem_of L i) = \<lparr>semid = -1, count = 0, sem_PID = -1\<rparr>" if "i < NUM_SEM" for i
  proof -
    have "inj_on (sem_of L) (set [0..<NUM_SEM])" using L by (auto simp: inj_on_def)
    from fold_upd_in [OF this, of i "\<lambda>_. \<lparr>semid = -1, count = 0, sem_PID = -1\<rparr>"] that
    show ?thesis unfolding k e(11) by (simp add: sem_of_def)
  qed
  have "semafors (tasks ?s t) = sym_semafor_proces L"
    if "t \<in> tasks_of L" "t \<notin> set (a_queue (boot_abs L) (freequeue L))" "t \<noteq> idle_task ?s" for t
  proof -
    have "t \<in> queued L (a_queue (boot_abs L)) \<union> {task L 1, task L 0}"
      using sched_relD(3,6) [OF rel] that(1) idle by (auto simp: kernel_entry_def boot_abs_def)
    moreover have "queued L (a_queue (boot_abs L)) = set (a_queue (boot_abs L) (freequeue L))"
      using L boot_abs_queues [OF L] by (auto simp: queued_unfold heads_def)
    ultimately have "t = task L 1" using that idle by auto
    then show ?thesis using e(10) by (simp add: k)
  qed
  then have "sem_inv L (kernel_entry ?s) (a_queue (boot_abs L))"
    using S boot_abs_queues [OF L] by (simp add: sem_inv_def kernel_entry_def sem_ok_def)
  with rel show "kernel_inv L (kernel_entry ?s) (boot_abs L)" by (simp add: kernel_inv_def)
  show "sem_free L (kernel_entry ?s) i" if "i < NUM_SEM"
    using S [OF that] by (simp add: sem_free_def kernel_entry_def)
qed

text \<open>The first process has just created a semaphore with value \<open>v\<close>.\<close>

definition sem_booted :: "int \<Rightarrow> kstate" where
  "sem_booted v = snd (sys_semCreate v booted)"

lemma booted_inv: "kernel_inv example_symtab booted (boot_abs example_symtab)"
  "i < NUM_SEM \<Longrightarrow> sem_free example_symtab booted i" "current booted \<noteq> idle_task booted"
  using boot_kernel_inv [OF example_symtab_ok] booted_idle by (simp_all add: booted_def)

lemma sem_booted_inv:
  assumes "0 \<le> v"
  shows "kernel_inv example_symtab (sem_booted v) (boot_abs example_symtab)" "owns_sem example_symtab (sem_booted v) 0"
    "count (sems (sem_booted v) (sem_of example_symtab 0)) = v" "fst (sys_semCreate v booted) = 0"
  using sys_semCreate_found [OF example_symtab_ok booted_inv(1,3), of 0 v] booted_inv(2) [of 0] assms
  by (simp_all add: sem_booted_def NUM_SEM_def)

lemma list_first_add: "list_first q (list_add n q h) = n"
  by (simp add: list_first_def list_add_def raw_list_add_def Let_def)

lemma sem_create_loop_idle: "idle_task (snd (sem_create_loop is v s)) = idle_task s"
  by (induction "is" arbitrary: s) (simp_all add: Let_def)

lemma sem_booted_idle: "idle_task (sem_booted v) = idle_task booted"
  by (simp add: sem_booted_def sys_semCreate_def sem_create_loop_idle)

section \<open>Properties\<close>

text \<open>C21: \<open>sys_semCreate\<close> takes the lowest free slot, returns its index and leaves the semaphore with the
  given value, nobody waiting and usable by the calling process; it returns -1 and changes nothing
  when the ten slots are in use.\<close>

theorem sys_semCreate_spec:
  assumes "symtab_ok L" and "kernel_inv L s A" and "current s \<noteq> idle_task s" and "0 \<le> v"
  shows "(\<exists>i<NUM_SEM. sem_free L s i \<and> (\<forall>j<i. \<not> sem_free L s j) \<and> fst (sys_semCreate v s) = int i \<and>
      kernel_inv L (snd (sys_semCreate v s)) A \<and> owns_sem L (snd (sys_semCreate v s)) i \<and>
      count (sems (snd (sys_semCreate v s)) (sem_of L i)) = v \<and> a_queue A (sem_queue L i) = []) \<or>
    (\<forall>i<NUM_SEM. \<not> sem_free L s i) \<and> sys_semCreate v s = (-1, s)"
proof (cases "\<exists>i<NUM_SEM. sem_free L s i")
  case True
  then obtain i where i: "i < NUM_SEM" "sem_free L s i" "\<forall>j<i. \<not> sem_free L s j"
    using exists_least_iff [of "\<lambda>i. i < NUM_SEM \<and> sem_free L s i"] by (meson less_trans)
  have "a_queue A (sem_queue L i) = []"
    using assms(2) i by (auto simp: kernel_inv_def sem_inv_def sem_ok_def sem_free_def)
  with i sys_semCreate_found [OF assms(1-3) i assms(4)] show ?thesis by blast
next
  case False
  with sys_semCreate_full [OF assms(2,3)] show ?thesis by blast
qed

theorem sys_semCreate_spec_witness:
  "fst (sys_semCreate 3 booted) = 0 \<and> count (sems (snd (sys_semCreate 3 booted)) (sem_of example_symtab 0)) = 3"
proof -
  have "0 < NUM_SEM" by (simp add: NUM_SEM_def)
  then show ?thesis
    using sys_semCreate_spec [OF example_symtab_ok booted_inv(1,3), of 3] booted_inv(2)
      sem_booted_inv(3,4) [of 3] by (simp add: sem_booted_def)
qed

text \<open>C22: \<open>sys_semWait\<close> on a semaphore of the calling process: with a positive counter it only decrements the
  counter; otherwise the caller is blocked at the front of the queue of the semaphore, and the
  first ready task, or the idle task, runs. The number of waiting threads stays minus the counter
  when it is negative, and no task is lost.\<close>

theorem sys_semWait_spec:
  assumes "symtab_ok L" and "kernel_inv L s A" and "owns_sem L s i"
    and "int32 (count (sems s (sem_of L i)))" and "int32 (count (sems s (sem_of L i)) - 1)"
  shows "fst (sys_semWait L (int i) s) = 0 \<and>
    (if 0 < count (sems s (sem_of L i))
     then snd (sys_semWait L (int i) s) = upd_sem (sem_of L i) (\<lambda>S. S\<lparr>count := count S - 1\<rparr>) s \<and>
       kernel_inv L (snd (sys_semWait L (int i) s)) A
     else kernel_inv L (snd (sys_semWait L (int i) s)) (a_block L (idle_task s) i A))"
  using sys_semWait_passes [OF assms(1-3)] sys_semWait_blocks [OF assms(1-3)] assms(4,5) by auto

theorem sys_semWait_spec_witness:
  "current (snd (sys_semWait example_symtab 0 (sem_booted 0))) = task example_symtab 0"
proof -
  note b = sem_booted_inv [of 0]
  have "kernel_inv example_symtab (snd (sys_semWait example_symtab (int 0) (sem_booted 0)))
      (a_block example_symtab (idle_task (sem_booted 0)) 0 (boot_abs example_symtab))"
    using sys_semWait_spec [OF example_symtab_ok b(1,2)] b(3) by (simp add: int32_def)
  then show ?thesis
    using example_symtab_ok boot_abs_queues(1) [OF example_symtab_ok] booted_idle(1)
    by (simp add: kernel_inv_def sched_rel_def a_block_def a_next_def next_task_def sem_booted_idle NUM_SEM_def)
qed

text \<open>C23: \<open>sys_semSignal\<close> on a semaphore of the calling process increments the counter; when it was
  negative, the thread that blocked last becomes ready at the front of the ready queue, so waiting
  threads are served last in, first out; otherwise nothing else changes.\<close>

theorem sys_semSignal_spec:
  assumes "symtab_ok L" and "kernel_inv L s A" and "owns_sem L s i"
    and "int32 (count (sems s (sem_of L i)))" and "int32 (count (sems s (sem_of L i)) + 1)"
  shows "fst (sys_semSignal L (int i) s) = 0 \<and>
    (if 0 \<le> count (sems s (sem_of L i))
     then snd (sys_semSignal L (int i) s) = upd_sem (sem_of L i) (\<lambda>S. S\<lparr>count := count S + 1\<rparr>) s \<and>
       kernel_inv L (snd (sys_semSignal L (int i) s)) A
     else \<exists>t ts. a_queue A (sem_queue L i) = t # ts \<and>
       kernel_inv L (snd (sys_semSignal L (int i) s))
         \<lparr>a_queue = (a_queue A)(sem_queue L i := ts, readyqueue L := t # a_queue A (readyqueue L)), a_cur = a_cur A\<rparr>)"
proof (cases "0 \<le> count (sems s (sem_of L i))")
  case True
  with sys_semSignal_counts [OF assms(1-3)] assms(5) show ?thesis by auto
next
  case False
  then have "count (sems s (sem_of L i)) < 0" by simp
  from sys_semSignal_wakes [OF assms(1-3) this assms(4)] False show ?thesis by auto
qed

theorem sys_semSignal_spec_witness:
  "count (sems (snd (sys_semSignal example_symtab 0 (sem_booted 4))) (sem_of example_symtab 0)) = 5"
  using sys_semSignal_spec [OF example_symtab_ok sem_booted_inv(1,2) [of 4]] sem_booted_inv(3) [of 4]
  by (simp add: int32_def)

text \<open>C24: \<open>sys_semDestroy\<close> on a semaphore of the calling process ends, returns 0, frees the slot and moves all
  waiting threads to the end of the ready queue in the order of the list; it loses none.\<close>

theorem sys_semDestroy_spec:
  assumes "symtab_ok L" and "kernel_inv L s A" and "owns_sem L s i"
  shows "\<exists>s'. sys_semDestroy L (int i) s = Some (0, s') \<and> sem_free L s' i \<and>
    kernel_inv L s' \<lparr>a_queue = (a_queue A)(sem_queue L i := [],
      readyqueue L := a_queue A (readyqueue L) @ a_queue A (sem_queue L i)), a_cur = a_cur A\<rparr>"
  by (rule sys_semDestroy_found [OF assms])

theorem sys_semDestroy_spec_witness:
  "\<exists>s'. sys_semDestroy example_symtab 0 (sem_booted 2) = Some (0, s') \<and> sem_free example_symtab s' 0"
  using sys_semDestroy_spec [OF example_symtab_ok sem_booted_inv(1,2) [of 2]] by auto

text \<open>A semaphore call with an index that is negative or above 10, or on a semaphore that is not in use or
  belongs to another process, returns -1 and changes nothing.\<close>

theorem sem_calls_refused:
  assumes "i < 0 \<or> 10 < i \<or> semid (sems s (cur_sem s i)) \<noteq> i \<or>
    sem_PID (sems s (cur_sem s i)) \<noteq> PID (tasks s (current s))"
  shows "sys_semWait L i s = (-1, s) \<and> sys_semSignal L i s = (-1, s) \<and> sys_semDestroy L i s = Some (-1, s)"
  using assms by (auto simp: sys_semWait_def sys_semSignal_def sys_semDestroy_def)

theorem sem_calls_refused_witness:
  "sys_semWait example_symtab 11 booted = (-1, booted)"
  using sem_calls_refused [of 11 booted example_symtab] by simp

text \<open>The range check of the semaphore calls lets the index 10 pass, one past the array of ten: when the
  memory after the array looks like a semaphore of the caller, \<open>sys_semWait\<close> decrements a word of it.\<close>

theorem sys_semWait_past_the_array:
  assumes "S = sems s (semafors (tasks s (current s)) + 200)" and "semid S = 10"
    and "sem_PID S = PID (tasks s (current s))" and "1 < count S" and "int32 (count S)"
  shows "sys_semWait L 10 s =
    (0, upd_sem (semafors (tasks s (current s)) + 200) (\<lambda>S. S\<lparr>count := count S - 1\<rparr>) s)"
proof -
  have c: "cur_sem s 10 = semafors (tasks s (current s)) + 200" by (simp add: cur_sem_def sem_at_def)
  have "wrap32 (count S - 1) = count S - 1" using assms(4,5) by (intro wrap32_id) (simp add: int32_def)
  with assms show ?thesis
    unfolding sys_semWait_def by (simp add: c Let_def) (simp add: upd_sem_def)
qed

theorem sys_semWait_past_the_array_witness:
  "fst (sys_semWait example_symtab 10
     (upd_sem (semafors (tasks booted (current booted)) + 200) (\<lambda>_. \<lparr>semid = 10, count = 2, sem_PID = PID (tasks booted (current booted))\<rparr>) booted)) = 0"
  using sys_semWait_past_the_array [OF refl, of "upd_sem (semafors (tasks booted (current booted)) + 200)
      (\<lambda>_. \<lparr>semid = 10, count = 2, sem_PID = PID (tasks booted (current booted))\<rparr>) booted" example_symtab]
  by (simp add: int32_def)

text \<open>\<open>sys_semCreate\<close> accepts a negative value. The next \<open>sys_semSignal\<close> then takes the head of the empty
  queue for a blocked thread and makes it the first entry of the ready queue, which no longer
  starts with a task.\<close>

theorem negative_semaphore_corrupts_ready_queue:
  assumes "symtab_ok L" and "kernel_inv L s A" and "current s \<noteq> idle_task s"
    and "i < NUM_SEM" and "sem_free L s i" and "\<forall>j<i. \<not> sem_free L s j"
  shows "fst (sys_semCreate (-1) s) = int i \<and>
    list_first (readyqueue L) (links (snd (sys_semSignal L (int i) (snd (sys_semCreate (-1) s))))) = sem_queue L i \<and>
    (\<forall>t \<in> tasks_of L. sem_queue L i \<noteq> tnode t)"
proof -
  note c = cur_sem_eq [OF assms(2,3)]
  let ?s = "upd_links (INIT_LIST_HEAD (sem_queue L i))
      (upd_sem (sem_of L i) (\<lambda>_. \<lparr>semid = int i, count = -1, sem_PID = PID (tasks s (current s))\<rparr>) s)"
  have up: "[0..<10] = [0..<i] @ i # [Suc i..<10]"
    using assms(4) upt_add_eq_append [of 0 i "10 - i"] by (simp add: NUM_SEM_def upt_conv_Cons)
  have eq: "sys_semCreate (-1) s = (int i, ?s)"
    unfolding sys_semCreate_def up using assms(5,6)
    by (subst sem_create_loop_found) (simp_all add: c sem_free_def)
  have r: "\<not> (int i > 10 \<or> int i < 0)" using assms(4) by (simp add: NUM_SEM_def)
  have f: "list_first (sem_queue L i) (INIT_LIST_HEAD (sem_queue L i) (links s)) = sem_queue L i"
    by (simp add: list_first_def INIT_LIST_HEAD_def)
  have "list_first (readyqueue L) (links (snd (sys_semSignal L (int i) ?s))) = sem_queue L i"
    unfolding sys_semSignal_def using r
    by (simp add: c f Let_def wrap32_def list_first_add)
  then show ?thesis
    using eq tnode_not_head [OF assms(1)] assms(4) by (metis heads_memI(3) fst_conv snd_conv)
qed

theorem negative_semaphore_corrupts_ready_queue_witness:
  "list_first (readyqueue example_symtab)
     (links (snd (sys_semSignal example_symtab 0 (snd (sys_semCreate (-1) booted))))) = sem_queue example_symtab 0"
  using negative_semaphore_corrupts_ready_queue [OF example_symtab_ok booted_inv(1,3), of 0] booted_inv(2) [of 0]
  by (simp add: NUM_SEM_def)

end
