(* ===== verification/Zeos_Keyboard.thy ===== *)
theory Zeos_Keyboard
  imports Zeos_Kstate
begin

text \<open>
  The keyboard buffer of \<open>io.c\<close>, filled by \<open>keyboard_routine\<close> (\<open>interrupt.c\<close>) and emptied by
  \<open>sys_getKey\<close> (\<open>sys.c\<close>): a ring of 256 bytes with a count. The locale \<open>bounded_fifo\<close> states what
  a reader relies on; the ring is an instance as long as it does not overflow, and a theorem
  says what happens when it does.
\<close>

section \<open>The operations\<close>

definition CBUFFER_SIZE :: DWord where "CBUFFER_SIZE = 256"

text \<open>
  The table of the keyboard; the four entries the source has as a multi-byte character constant
  take its last byte. Scan codes reach past its 98 entries: \<open>beyond\<close> stands for the memory there.
\<close>

definition char_map :: "Byte list" where
  "char_map =
    [0, 0, 49, 50, 51, 52, 53, 54,
     55, 56, 57, 48, 39, 0xBD, 0, 0,
     113, 119, 101, 114, 116, 121, 117, 105,
     111, 112, 96, 43, 0, 0, 97, 115,
     100, 102, 103, 104, 106, 107, 108, 0xBD,
     0, 0xBD, 0, 0xBD, 122, 120, 99, 118,
     98, 110, 109, 44, 46, 45, 0, 42,
     0, 0, 0, 0, 0, 0, 0, 0,
     0, 0, 0, 0, 0, 0, 0, 55,
     56, 57, 45, 52, 53, 54, 43, 49,
     50, 51, 48, 0, 0, 0, 60, 0,
     0, 0, 0, 0, 0, 0, 0, 0,
     0, 0]"

definition char_map_at :: "(nat \<Rightarrow> Byte) \<Rightarrow> nat \<Rightarrow> Byte" where
  "char_map_at beyond i = (if i < length char_map then char_map ! i else beyond i)"

definition init_cBuffer :: c_Buffer where
  "init_cBuffer = \<lparr>buffer = replicate 256 0, rpointer = 0, wpointer = 0, Bwritten = 0\<rparr>"

text \<open>\<open>keyboard_routine\<close>, with the byte \<open>c\<close> that \<open>inb\<close> reads from port \<open>0x60\<close>.\<close>

definition keyboard_routine :: "(nat \<Rightarrow> Byte) \<Rightarrow> Byte \<Rightarrow> c_Buffer \<Rightarrow> c_Buffer" where
  "keyboard_routine beyond c b =
     (if c AND 0x80 \<noteq> 0 then
        if wpointer b < CBUFFER_SIZE then
          let b = b\<lparr>buffer := (buffer b)[unat (wpointer b) := char_map_at beyond (unat (c AND 0x7f))]\<rparr>;
              b = b\<lparr>wpointer := (wpointer b + 1) mod CBUFFER_SIZE\<rparr>
          in b\<lparr>Bwritten := Bwritten b + 1\<rparr>
        else b
      else b)"

text \<open>The part of \<open>sys_getKey\<close> that takes a byte out of a non-empty buffer.\<close>

definition take_key :: "c_Buffer \<Rightarrow> Byte \<times> c_Buffer" where
  "take_key b =
     (let c = buffer b ! unat (rpointer b);
          b = b\<lparr>rpointer := (rpointer b + 1) mod CBUFFER_SIZE\<rparr>
      in (c, b\<lparr>Bwritten := Bwritten b - 1\<rparr>))"

section \<open>The contract of a bounded queue of bytes\<close>

locale bounded_fifo =
  fixes content :: "'b \<Rightarrow> 'a list"
    and ok :: "'b \<Rightarrow> bool"
    and cap :: nat
    and put :: "'a \<Rightarrow> 'b \<Rightarrow> 'b"
    and get :: "'b \<Rightarrow> 'a \<times> 'b"
  assumes put_ok: "ok b \<Longrightarrow> length (content b) < cap \<Longrightarrow> ok (put x b) \<and> content (put x b) = content b @ [x]"
    and get_ok: "ok b \<Longrightarrow> content b = x # xs \<Longrightarrow> fst (get b) = x \<and> ok (snd (get b)) \<and> content (snd (get b)) = xs"
begin

primrec get_all :: "nat \<Rightarrow> 'b \<Rightarrow> 'a list \<times> 'b" where
  "get_all 0 b = ([], b)"
| "get_all (Suc n) b = (case get b of (x, b) \<Rightarrow> case get_all n b of (xs, b) \<Rightarrow> (x # xs, b))"

lemma put_all:
  "ok b \<Longrightarrow> length (content b) + length xs \<le> cap \<Longrightarrow>
    ok (fold put xs b) \<and> content (fold put xs b) = content b @ xs"
proof (induction xs arbitrary: b)
  case (Cons x xs)
  then have "ok (put x b)" "content (put x b) = content b @ [x]" using put_ok [of b x] by auto
  with Cons show ?case by simp
qed simp

lemma get_all_content:
  "ok b \<Longrightarrow> content b = xs @ ys \<Longrightarrow>
    fst (get_all (length xs) b) = xs \<and> ok (snd (get_all (length xs) b)) \<and> content (snd (get_all (length xs) b)) = ys"
proof (induction xs arbitrary: b)
  case (Cons x xs)
  then have "fst (get b) = x" "ok (snd (get b))" "content (snd (get b)) = xs @ ys" using get_ok [of b x "xs @ ys"] by auto
  with Cons.IH [of "snd (get b)"] show ?case by (simp add: split_def)
qed simp

text \<open>What is put in comes out in order.\<close>

lemma put_get_all:
  assumes "ok b" "content b = []" "length xs \<le> cap"
  shows "fst (get_all (length xs) (fold put xs b)) = xs"
  using put_all [of b xs] get_all_content [of "fold put xs b" xs "[]"] assms by simp

end

section \<open>The ring is such a queue\<close>

definition kb_ok :: "c_Buffer \<Rightarrow> bool" where
  "kb_ok b \<longleftrightarrow> length (buffer b) = 256 \<and> unat (rpointer b) < 256 \<and> unat (Bwritten b) \<le> 256 \<and>
     unat (wpointer b) = (unat (rpointer b) + unat (Bwritten b)) mod 256"

definition kb_content :: "c_Buffer \<Rightarrow> Byte list" where
  "kb_content b = map (\<lambda>i. buffer b ! ((unat (rpointer b) + i) mod 256)) [0..<unat (Bwritten b)]"

text \<open>Storing one byte, the inner block of \<open>keyboard_routine\<close>.\<close>

definition kb_put :: "Byte \<Rightarrow> c_Buffer \<Rightarrow> c_Buffer" where
  "kb_put x b = b\<lparr>buffer := (buffer b)[unat (wpointer b) := x],
     wpointer := (wpointer b + 1) mod CBUFFER_SIZE, Bwritten := Bwritten b + 1\<rparr>"

lemma keyboard_routine_put:
  "kb_ok b \<Longrightarrow> keyboard_routine beyond c b =
     (if c AND 0x80 \<noteq> 0 then kb_put (char_map_at beyond (unat (c AND 0x7f))) b else b)"
proof -
  assume "kb_ok b"
  then have "unat (wpointer b) < 256" by (simp add: kb_ok_def)
  then have "wpointer b < CBUFFER_SIZE" by (simp add: word_less_nat_alt CBUFFER_SIZE_def)
  then show ?thesis by (simp add: keyboard_routine_def kb_put_def Let_def)
qed

lemma unat_inc_mod: "unat (x :: DWord) < 256 \<Longrightarrow> unat ((x + 1) mod CBUFFER_SIZE) = (unat x + 1) mod 256"
  by (simp add: CBUFFER_SIZE_def unat_mod unat_word_ariths)

lemma kb_put_spec:
  assumes ok: "kb_ok b" and room: "length (kb_content b) < 256"
  shows "kb_ok (kb_put x b)" and "kb_content (kb_put x b) = kb_content b @ [x]"
proof -
  define r n w where "r = unat (rpointer b)" and "n = unat (Bwritten b)" and "w = unat (wpointer b)"
  have n: "n < 256" using room by (simp add: kb_content_def n_def)
  have w: "w = (r + n) mod 256" "w < 256" and l: "length (buffer b) = 256" and r: "r < 256"
    using ok by (simp_all add: kb_ok_def r_def n_def w_def)
  have n1: "unat (Bwritten b + 1) = n + 1" using n by (simp add: n_def unat_word_ariths)
  have w1: "unat ((wpointer b + 1) mod CBUFFER_SIZE) = (w + 1) mod 256"
    using w(2) unfolding w_def by (rule unat_inc_mod)
  show "kb_ok (kb_put x b)"
    using l r n n1 w1 w(1) unfolding kb_ok_def kb_put_def
    by (simp add: r_def [symmetric] mod_Suc_eq)
  have keep: "(buffer b)[w := x] ! ((r + i) mod 256) = buffer b ! ((r + i) mod 256)" if "i < n" for i
  proof -
    have "(r + i) mod 256 \<noteq> w" using mod_shift_inject [of r i 256 n] that n w(1) by auto
    then show ?thesis by simp
  qed
  have "kb_content (kb_put x b) = map (\<lambda>i. (buffer b)[w := x] ! ((r + i) mod 256)) ([0..<n] @ [n])"
    using n1 by (simp add: kb_content_def kb_put_def r_def w_def)
  also have "\<dots> = kb_content b @ [x]"
    using keep w l by (simp add: kb_content_def r_def n_def)
  finally show "kb_content (kb_put x b) = kb_content b @ [x]" .
qed

lemma take_key_spec:
  assumes ok: "kb_ok b" and c: "kb_content b = x # xs"
  shows "fst (take_key b) = x" and "kb_ok (snd (take_key b))" and "kb_content (snd (take_key b)) = xs"
proof -
  define r n where "r = unat (rpointer b)" and "n = unat (Bwritten b)"
  have r: "r < 256" and nn: "n \<le> 256" and w: "unat (wpointer b) = (r + n) mod 256" and l: "length (buffer b) = 256"
    using ok by (simp_all add: kb_ok_def r_def n_def)
  obtain m where m: "n = Suc m" using c by (cases n) (simp_all add: kb_content_def n_def)
  have cont: "kb_content b = buffer b ! (r mod 256) # map (\<lambda>i. buffer b ! ((r + Suc i) mod 256)) [0..<m]"
    using m by (simp add: kb_content_def r_def n_def map_upt_Suc del: upt_Suc)
  have m1: "unat (Bwritten b - 1) = m"
    using m n_def by (metis diff_Suc_1 nat.distinct(1) unat_minus_one unsigned_0)
  have r1: "unat ((rpointer b + 1) mod CBUFFER_SIZE) = (r + 1) mod 256"
    using r unfolding r_def by (rule unat_inc_mod)
  show "fst (take_key b) = x" using c cont r by (simp add: take_key_def Let_def r_def)
  show "kb_ok (snd (take_key b))"
    using l m1 r1 w m nn by (simp add: kb_ok_def take_key_def Let_def mod_simps)
  show "kb_content (snd (take_key b)) = xs"
    using c cont m1 r1 by (simp add: kb_content_def take_key_def Let_def mod_simps)
qed

interpretation kb: bounded_fifo kb_content kb_ok 256 kb_put take_key
  by unfold_locales (auto simp: kb_put_spec take_key_spec)

lemma init_cBuffer_ok: "kb_ok init_cBuffer" "kb_content init_cBuffer = []"
  by (simp_all add: kb_ok_def kb_content_def init_cBuffer_def)

text \<open>The keys released in a sequence of interrupts, in the bytes they are stored as.\<close>

definition released :: "(nat \<Rightarrow> Byte) \<Rightarrow> Byte list \<Rightarrow> Byte list" where
  "released beyond cs = map (\<lambda>c. char_map_at beyond (unat (c AND 0x7f))) (filter (\<lambda>c. c AND 0x80 \<noteq> 0) cs)"

lemma keyboard_interrupts:
  "kb_ok b \<Longrightarrow> length (kb_content b) + length (released beyond cs) \<le> 256 \<Longrightarrow>
    fold (keyboard_routine beyond) cs b = fold kb_put (released beyond cs) b"
proof (induction cs arbitrary: b)
  case (Cons c cs)
  show ?case
  proof (cases "c AND 0x80 \<noteq> 0")
    case True
    with Cons.prems have "length (kb_content b) < 256" by (simp add: released_def)
    with kb_put_spec [OF Cons.prems(1)] Cons True show ?thesis
      by (simp add: released_def keyboard_routine_put)
  next
    case False
    with Cons show ?thesis by (simp add: released_def keyboard_routine_put)
  qed
qed (simp add: released_def)

section \<open>Properties\<close>

text \<open>C25: The keyboard buffer is a first-in first-out queue: after any sequence of keyboard interrupts of
  which at most 256 are key releases, reading as many keys as were released returns their
  characters in order, and the buffer is then empty and well formed.\<close>

theorem keyboard_fifo:
  assumes "kb_ok b" and "kb_content b = []" and "length (released beyond cs) \<le> 256"
  shows "let b' = fold (keyboard_routine beyond) cs b; r = kb.get_all (length (released beyond cs)) b'
    in kb_content b' = released beyond cs \<and> fst r = released beyond cs \<and> kb_ok (snd r) \<and> kb_content (snd r) = []"
proof -
  have b: "fold (keyboard_routine beyond) cs b = fold kb_put (released beyond cs) b"
    using keyboard_interrupts assms by simp
  have "kb_ok (fold kb_put (released beyond cs) b) \<and> kb_content (fold kb_put (released beyond cs) b) = released beyond cs"
    using kb.put_all [OF assms(1), of "released beyond cs"] assms(2,3) by simp
  then show ?thesis
    unfolding Let_def b using kb.get_all_content [of _ "released beyond cs" "[]"] by simp
qed

theorem keyboard_fifo_witness:
  "kb_content (fold (keyboard_routine (\<lambda>_. 0)) [0x90, 0x11, 0x91] init_cBuffer) = [113, 119]"
  using keyboard_fifo [OF init_cBuffer_ok, of "\<lambda>_. 0" "[0x90, 0x11, 0x91]"]
  by (simp add: Let_def released_def char_map_at_def char_map_def)

text \<open>Nothing stops the 257th key: with 256 characters unread, the next key release overwrites the oldest
  character and the count becomes 257, one more than the buffer holds.\<close>

theorem keyboard_overflow:
  assumes "kb_ok b" and "length (kb_content b) = 256" and "c AND 0x80 \<noteq> 0"
  shows "let b' = keyboard_routine beyond c b
    in fst (take_key b') = char_map_at beyond (unat (c AND 0x7f)) \<and> Bwritten b' = 257 \<and> \<not> kb_ok b'"
proof -
  have n: "unat (Bwritten b) = 256" using assms(2) by (simp add: kb_content_def)
  then have B: "Bwritten b = 256" by (simp add: word_unat_eq_iff)
  have w: "wpointer b = rpointer b" and r: "unat (rpointer b) < 256" and l: "length (buffer b) = 256"
    using assms(1) n by (auto simp: kb_ok_def word_unat_eq_iff)
  then show ?thesis
    using assms(3) by (simp add: Let_def keyboard_routine_put [OF assms(1)] kb_put_def take_key_def B w kb_ok_def)
qed

theorem keyboard_overflow_witness:
  "Bwritten (keyboard_routine (\<lambda>_. 0) 0x91 (fold kb_put (replicate 256 113) init_cBuffer)) = 257"
proof -
  have "kb_ok (fold kb_put (replicate 256 113) init_cBuffer) \<and>
      kb_content (fold kb_put (replicate 256 113) init_cBuffer) = replicate 256 113"
    using kb.put_all [OF init_cBuffer_ok(1), of "replicate 256 113"] init_cBuffer_ok(2) by simp
  then show ?thesis
    using keyboard_overflow [of "fold kb_put (replicate 256 113) init_cBuffer" "0x91" "\<lambda>_. 0"]
    by (simp add: Let_def)
qed

end
