(* ===== verification/Zeos_Memory.thy ===== *)
theory Zeos_Memory
  imports Zeos_Sched
begin

text \<open>
  Memory as the kernel sees it through the page tables of the running task: the two-level walk of
  the processor, byte accesses and copies. An access to a page that is not present is a page
  fault, the value \<open>None\<close>. The kernel runs with write protection off, so only the present bits
  matter. Kernel objects are kept as typed values; \<open>ram\<close> holds the user pages and the local
  buffers on the kernel stacks.
\<close>

section \<open>Address translation\<close>

definition page_walk :: "mm_state \<Rightarrow> ptr \<Rightarrow> ptr option" where
  "page_walk m va =
     (let pde = ptes m (cr3 m + 4 * drop_bit 22 va)
      in if \<not> pte_present pde then None
         else let pte = ptes m (push_bit 12 (pbase_addr pde) + 4 * take_bit 10 (drop_bit 12 va))
              in if \<not> pte_present pte then None
                 else Some (push_bit 12 (pbase_addr pte) OR take_bit 12 va))"

definition to_phys :: "mm_state \<Rightarrow> ptr \<Rightarrow> ptr" where
  "to_phys m va = (case page_walk m va of None \<Rightarrow> 0 | Some pa \<Rightarrow> pa)"

definition paged_rd :: "mm_state \<Rightarrow> (ptr \<Rightarrow> Byte) \<Rightarrow> ptr \<Rightarrow> Byte" where
  "paged_rd m r a = r (to_phys m a)"

definition paged_wr :: "mm_state \<Rightarrow> ptr \<Rightarrow> Byte \<Rightarrow> (ptr \<Rightarrow> Byte) \<Rightarrow> (ptr \<Rightarrow> Byte)" where
  "paged_wr m a v r = r(to_phys m a := v)"

interpretation paged: byte_memory "paged_rd m" "paged_wr m" "to_phys m" for m
  by unfold_locales (simp add: paged_rd_def paged_wr_def)

text \<open>Every byte of a block is in a page that is present.\<close>

definition mapped :: "mm_state \<Rightarrow> ptr \<Rightarrow> nat \<Rightarrow> bool" where
  "mapped m a n \<longleftrightarrow> (\<forall>i<n. page_walk m (a + of_nat i) \<noteq> None)"

section \<open>Accesses of the kernel to user memory\<close>

definition user_view :: "kstate \<Rightarrow> ptr \<Rightarrow> Byte" where
  "user_view s a = paged_rd (mm s) (ram s) a"

definition put_byte :: "ptr \<Rightarrow> Byte \<Rightarrow> kstate \<Rightarrow> kstate option" where
  "put_byte a v s = (if mapped (mm s) a 1 then Some (s\<lparr>ram := paged_wr (mm s) a v (ram s)\<rparr>) else None)"

definition put_dword :: "ptr \<Rightarrow> DWord \<Rightarrow> kstate \<Rightarrow> kstate option" where
  "put_dword a v s = (if mapped (mm s) a 4 then Some (s\<lparr>ram := wr32 (paged_wr (mm s)) a v (ram s)\<rparr>) else None)"

text \<open>\<open>copy_data\<close> and \<open>copy_from_user\<close> between two blocks of the address space.\<close>

definition vm_copy :: "ptr \<Rightarrow> ptr \<Rightarrow> nat \<Rightarrow> kstate \<Rightarrow> kstate option" where
  "vm_copy start dest n s =
     (if mapped (mm s) start n \<and> mapped (mm s) dest n
      then Some (s\<lparr>ram := copy_data (paged_rd (mm s)) (paged_wr (mm s)) start dest (int n) (ram s)\<rparr>)
      else None)"

definition vm_copy_from_user :: "ptr \<Rightarrow> ptr \<Rightarrow> nat \<Rightarrow> kstate \<Rightarrow> kstate option" where
  "vm_copy_from_user start dest n s =
     (if mapped (mm s) start n \<and> mapped (mm s) dest n
      then Some (s\<lparr>ram := snd (copy_from_user (paged_rd (mm s)) (paged_wr (mm s)) start dest (int n) (ram s))\<rparr>)
      else None)"

text \<open>\<open>copy_to_user\<close> from a typed kernel object, given the bytes of the object in order.\<close>

fun put_bytes :: "ptr \<Rightarrow> Byte list \<Rightarrow> kstate \<Rightarrow> kstate option" where
  "put_bytes a [] s = Some s"
| "put_bytes a (v # vs) s = Option.bind (put_byte a v s) (put_bytes (a + 1) vs)"

definition dword_bytes :: "DWord \<Rightarrow> Byte list" where
  "dword_bytes v = [ucast v, ucast (drop_bit 8 v), ucast (drop_bit 16 v), ucast (drop_bit 24 v)]"

definition stats_bytes :: "stats \<Rightarrow> Byte list" where
  "stats_bytes st = concat (map dword_bytes [user_ticks st, system_ticks st, blocked_ticks st, ready_ticks st,
     elapsed_total_ticks st, total_trans st, remaining_ticks st])"

section \<open>Mapping fresh frames\<close>

lemma free_frame_phys:
  "phys_mem (free_frame f m) =
     (if NUM_PAG_KERNEL < unat f \<and> unat f < TOTAL_PAGES then (phys_mem m)[unat f := FREE_FRAME] else phys_mem m)"
  by (simp add: free_frame_def word_less_nat_alt layout_consts)

lemma mm_frame [simp]:
  "cr3 (free_frame f m) = cr3 m" "cr3 (del_ss_pag PT p m) = cr3 m" "cr3 (set_ss_pag PT p f m) = cr3 m"
  "ptes (del_ss_pag PT p m) a = (if a = pt_slot PT p then 0 else ptes m a)"
  by (simp_all add: free_frame_def del_ss_pag_def set_ss_pag_eq)

lemma get_frame_cong: "ptes m' (pt_slot PT p) = ptes m (pt_slot PT p) \<Longrightarrow> get_frame PT p m' = get_frame PT p m"
  by (simp add: get_frame_def)

lemma pt_slot_nat_inject:
  assumes "p < TOTAL_PAGES" "q < TOTAL_PAGES"
  shows "pt_slot PT (of_nat p) = pt_slot PT (of_nat q) \<longleftrightarrow> p = q"
proof -
  have "p < 2 ^ 30" "q < 2 ^ 30" using assms by (simp_all add: TOTAL_PAGES_def)
  then show ?thesis by (subst pt_slot_inject) (simp_all add: of_nat_word32_inject unat_of_nat)
qed

text \<open>The entry \<open>set_ss_pag\<close> writes.\<close>

definition user_pte :: "DWord \<Rightarrow> page_table_entry" where
  "user_pte f = set_present (set_rw (set_user (set_pbase_addr f 0)))"

lemma ptes_set_ss_pag: "ptes (set_ss_pag PT p f m) a = (if a = pt_slot PT p then user_pte f else ptes m a)"
  by (simp add: set_ss_pag_eq user_pte_def)

lemma user_pte_simps [simp]:
  "pte_present (user_pte f)" "pte_rw (user_pte f)" "pte_user (user_pte f)" "pbase_addr (user_pte f) = take_bit 20 f"
  by (simp_all add: user_pte_def)

text \<open>The frames \<open>alloc_frame\<close> can still return.\<close>

definition avail :: "mm_state \<Rightarrow> nat set" where
  "avail m = {k. NUM_PAG_KERNEL \<le> k \<and> even k \<and> frame_is_free m k}"

lemma finite_avail [simp]: "finite (avail m)"
  by (rule finite_subset [of _ "{..<length (phys_mem m)}"]) (auto simp: avail_def frame_is_free_def)

lemma avail_cong: "phys_mem m' = phys_mem m \<Longrightarrow> avail m' = avail m"
  by (simp add: avail_def frame_is_free_def)

lemma frames_wf_cong: "phys_mem m' = phys_mem m \<Longrightarrow> frames_wf m' = frames_wf m"
  by (simp add: frames_wf_def)

lemma frame_is_free_cong: "phys_mem m' = phys_mem m \<Longrightarrow> frame_is_free m' = frame_is_free m"
  by (simp add: frame_is_free_def fun_eq_iff)

lemma alloc_frame_avail:
  assumes wf: "frames_wf m" and a: "alloc_frame m = (f, m')"
  shows "f = -1 \<and> m' = m \<and> avail m = {} \<or> f \<noteq> -1 \<and> 0 \<le> f \<and> nat f \<in> avail m \<and> avail m' = avail m - {nat f}"
proof (cases m rule: alloc_frame_cases)
  case (found k)
  then show ?thesis
    using wf a by (auto simp: avail_def frame_is_free_def frames_wf_def nth_list_update FREE_FRAME_def
        USED_FRAME_def NUM_PAG_KERNEL_def split: if_splits)
next
  case none
  then show ?thesis using wf a by (auto simp: avail_def frame_is_free_def frames_wf_def no_free_between_def NUM_PAG_KERNEL_def)
qed

text \<open>Mapping a list of pages of a table to newly allocated frames, one after the other.\<close>

primrec map_frames :: "ptr \<Rightarrow> nat list \<Rightarrow> mm_state \<Rightarrow> mm_state option" where
  "map_frames PT [] m = Some m"
| "map_frames PT (p # ps) m =
     (case alloc_frame m of (f, m) \<Rightarrow>
        if f = -1 then None else map_frames PT ps (set_ss_pag PT (of_nat p) (dword_of_int f) m))"

definition mapped_fresh :: "ptr \<Rightarrow> nat list \<Rightarrow> nat list \<Rightarrow> mm_state \<Rightarrow> mm_state \<Rightarrow> bool" where
  "mapped_fresh PT ps fs m m' \<longleftrightarrow> length fs = length ps \<and> distinct fs \<and> set fs \<subseteq> avail m \<and> frames_wf m' \<and>
     avail m' = avail m - set fs \<and> (\<forall>k. frame_is_free m' k \<longleftrightarrow> frame_is_free m k \<and> k \<notin> set fs) \<and>
     cr3 m' = cr3 m \<and> cr0 m' = cr0 m \<and>
     (\<forall>i<length ps. ptes m' (pt_slot PT (of_nat (ps ! i))) = user_pte (of_nat (fs ! i))) \<and>
     (\<forall>a. a \<notin> (\<lambda>p. pt_slot PT (of_nat p)) ` set ps \<longrightarrow> ptes m' a = ptes m a)"

lemma mapped_fresh_Cons:
  assumes wf: "frames_wf m" and ps: "distinct (p # ps)" "set (p # ps) \<subseteq> {..<TOTAL_PAGES}" and a: "alloc_frame m = (f, m1)" "f \<noteq> -1"
    and m': "mapped_fresh PT ps fs (set_ss_pag PT (of_nat p) (dword_of_int f) m1) m'"
  shows "mapped_fresh PT (p # ps) (nat f # fs) m m'"
proof -
  let ?m = "set_ss_pag PT (of_nat p) (dword_of_int f) m1"
  have f: "0 \<le> f" "nat f \<in> avail m" "avail m1 = avail m - {nat f}" using alloc_frame_avail [OF wf a(1)] a(2) by auto
  have free: "frame_is_free m1 k \<longleftrightarrow> frame_is_free m k \<and> k \<noteq> nat f" for k using fp.alloc_some [OF wf a] by blast
  have av: "avail ?m = avail m1" "frame_is_free ?m = frame_is_free m1"
    by (simp_all add: avail_cong [of ?m m1] frame_is_free_cong [of ?m m1])
  have pt1: "ptes m1 = ptes m" "cr3 m1 = cr3 m" "cr0 m1 = cr0 m" using alloc_frame_frame [of m] a by simp_all
  have slot: "pt_slot PT (of_nat p) \<notin> (\<lambda>p. pt_slot PT (of_nat p)) ` set ps"
    using ps pt_slot_nat_inject [of p _ PT] by fastforce
  have fp: "dword_of_int f = of_nat (nat f)" using f(1) by (simp add: dword_of_int_def)
  show ?thesis
    unfolding mapped_fresh_def
  proof (intro conjI allI impI)
    fix i assume "i < length (p # ps)"
    then show "ptes m' (pt_slot PT (of_nat ((p # ps) ! i))) = user_pte (of_nat ((nat f # fs) ! i))"
      using m' slot fp by (cases i) (auto simp: mapped_fresh_def ptes_set_ss_pag)
  next
    fix a assume "a \<notin> (\<lambda>p. pt_slot PT (of_nat p)) ` set (p # ps)"
    then show "ptes m' a = ptes m a" using m' pt1 by (auto simp: mapped_fresh_def ptes_set_ss_pag)
  next
    fix k show "frame_is_free m' k = (frame_is_free m k \<and> k \<notin> set (nat f # fs))"
      using m' av free by (auto simp: mapped_fresh_def)
  qed (use m' av f pt1 in \<open>auto simp: mapped_fresh_def set_ss_pag_eq\<close>)
qed

lemma map_frames_fresh:
  assumes "frames_wf m" "distinct ps" "set ps \<subseteq> {..<TOTAL_PAGES}"
  shows "if length ps \<le> card (avail m) then \<exists>m' fs. map_frames PT ps m = Some m' \<and> mapped_fresh PT ps fs m m'
    else map_frames PT ps m = None"
  using assms
proof (induction ps arbitrary: m)
  case Nil
  then show ?case by (auto simp: mapped_fresh_def)
next
  case (Cons p ps)
  obtain f m1 where a: "alloc_frame m = (f, m1)" by fastforce
  let ?m = "set_ss_pag PT (of_nat p) (dword_of_int f) m1"
  have "frames_wf m1" using frames_wf_alloc [OF Cons.prems(1)] a by simp
  then have wf: "frames_wf ?m" by (simp add: frames_wf_cong [of ?m m1])
  show ?case
  proof (cases "f = -1")
    case True
    then have "card (avail m) = 0" using alloc_frame_avail [OF Cons.prems(1) a] by auto
    with True a show ?thesis by simp
  next
    case False
    then have f: "nat f \<in> avail m" "avail ?m = avail m - {nat f}"
      using alloc_frame_avail [OF Cons.prems(1) a] by (auto simp: avail_cong [of ?m m1])
    have card: "card (avail m) = Suc (card (avail ?m))" using f(2) card_Suc_Diff1 [OF finite_avail f(1)] by simp
    show ?thesis
    proof (cases "length ps \<le> card (avail ?m)")
      case True
      then obtain m' fs where m': "map_frames PT ps ?m = Some m'" "mapped_fresh PT ps fs ?m m'"
        using Cons.IH [OF wf] Cons.prems by auto
      from mapped_fresh_Cons [OF Cons.prems a False m'(2)] m' a False True card show ?thesis by auto
    next
      case F: False
      then have "map_frames PT ps ?m = None" using Cons.IH [OF wf] Cons.prems by auto
      with F a False card show ?thesis by simp
    qed
  qed
qed

lemma map_frames_append:
  "map_frames PT (ps @ qs) m = Option.bind (map_frames PT ps m) (map_frames PT qs)"
  by (induction ps arbitrary: m) (simp_all split: prod.split)

lemma map_frames_none:
  "map_frames PT ps m = None \<Longrightarrow>
     \<exists>j m'. j < length ps \<and> map_frames PT (take j ps) m = Some m' \<and> alloc_frame m' = (-1, m')"
proof (induction ps arbitrary: m)
  case (Cons p ps)
  obtain f m1 where a: "alloc_frame m = (f, m1)" by fastforce
  show ?case
  proof (cases "f = -1")
    case True
    then have "m1 = m" using a fp.alloc_none by blast
    with True a show ?thesis by (intro exI [of _ 0]) simp
  next
    case False
    with Cons.prems a have "map_frames PT ps (set_ss_pag PT (of_nat p) (dword_of_int f) m1) = None" by simp
    from Cons.IH [OF this] obtain j m' where "j < length ps" "alloc_frame m' = (-1, m')"
      "map_frames PT (take j ps) (set_ss_pag PT (of_nat p) (dword_of_int f) m1) = Some m'" by blast
    with False a show ?thesis by (intro exI [of _ "Suc j"] exI [of _ m']) simp
  qed
qed simp

text \<open>Unmapping pages and releasing their frames, one after the other.\<close>

definition unmap_page :: "ptr \<Rightarrow> nat \<Rightarrow> mm_state \<Rightarrow> mm_state" where
  "unmap_page PT p m = del_ss_pag PT (of_nat p) (free_frame (get_frame PT (of_nat p) m) m)"

lemma unmap_pages_effect:
  assumes "distinct ps" "set ps \<subseteq> {..<TOTAL_PAGES}" "length (phys_mem m) = TOTAL_PAGES" "n < TOTAL_PAGES"
  shows "phys_mem (fold (unmap_page PT) ps m) ! n =
      (if NUM_PAG_KERNEL < n \<and> (\<exists>p \<in> set ps. unat (get_frame PT (of_nat p) m) = n) then FREE_FRAME else phys_mem m ! n)"
    and "ptes (fold (unmap_page PT) ps m) a = (if a \<in> (\<lambda>p. pt_slot PT (of_nat p)) ` set ps then 0 else ptes m a)"
    and "length (phys_mem (fold (unmap_page PT) ps m)) = TOTAL_PAGES" and "cr3 (fold (unmap_page PT) ps m) = cr3 m"
    and "cr0 (fold (unmap_page PT) ps m) = cr0 m"
proof -
  have "phys_mem (fold (unmap_page PT) ps m) ! n =
      (if NUM_PAG_KERNEL < n \<and> (\<exists>p \<in> set ps. unat (get_frame PT (of_nat p) m) = n) then FREE_FRAME else phys_mem m ! n) \<and>
    (\<forall>a. ptes (fold (unmap_page PT) ps m) a = (if a \<in> (\<lambda>p. pt_slot PT (of_nat p)) ` set ps then 0 else ptes m a)) \<and>
    length (phys_mem (fold (unmap_page PT) ps m)) = TOTAL_PAGES \<and> cr3 (fold (unmap_page PT) ps m) = cr3 m \<and>
    cr0 (fold (unmap_page PT) ps m) = cr0 m"
    using assms(1-3)
  proof (induction ps rule: rev_induct)
    case (snoc p ps)
    let ?m = "fold (unmap_page PT) ps m"
    have IH: "phys_mem ?m ! n = (if NUM_PAG_KERNEL < n \<and> (\<exists>p \<in> set ps. unat (get_frame PT (of_nat p) m) = n)
        then FREE_FRAME else phys_mem m ! n)"
      "\<And>a. ptes ?m a = (if a \<in> (\<lambda>p. pt_slot PT (of_nat p)) ` set ps then 0 else ptes m a)"
      "length (phys_mem ?m) = TOTAL_PAGES" "cr3 ?m = cr3 m" "cr0 ?m = cr0 m"
      using snoc by auto
    have "pt_slot PT (of_nat p) \<notin> (\<lambda>p. pt_slot PT (of_nat p)) ` set ps"
      using snoc.prems pt_slot_nat_inject [of p _ PT] by fastforce
    then have f: "get_frame PT (of_nat p) ?m = get_frame PT (of_nat p) m"
      by (intro get_frame_cong) (simp add: IH(2))
    have step: "fold (unmap_page PT) (ps @ [p]) m = del_ss_pag PT (of_nat p) (free_frame (get_frame PT (of_nat p) m) ?m)"
      by (simp add: unmap_page_def f)
    have "phys_mem (free_frame (get_frame PT (of_nat p) m) ?m) ! n =
      (if NUM_PAG_KERNEL < n \<and> (\<exists>p \<in> set (ps @ [p]). unat (get_frame PT (of_nat p) m) = n) then FREE_FRAME else phys_mem m ! n)"
      using IH(1,3) assms(4) by (auto simp: free_frame_phys nth_list_update)
    moreover have "length (phys_mem (free_frame (get_frame PT (of_nat p) m) ?m)) = TOTAL_PAGES"
      using IH(3) by (simp add: free_frame_phys)
    moreover have "cr0 (del_ss_pag PT (of_nat p) (free_frame (get_frame PT (of_nat p) m) ?m)) = cr0 m"
      using IH(5) by (simp add: del_ss_pag_def free_frame_def)
    ultimately show ?case
      unfolding step phys_mem_paging mm_frame ptes_free_frame IH(2,4) by auto
  qed simp
  then show "phys_mem (fold (unmap_page PT) ps m) ! n =
      (if NUM_PAG_KERNEL < n \<and> (\<exists>p \<in> set ps. unat (get_frame PT (of_nat p) m) = n) then FREE_FRAME else phys_mem m ! n)"
    "ptes (fold (unmap_page PT) ps m) a = (if a \<in> (\<lambda>p. pt_slot PT (of_nat p)) ` set ps then 0 else ptes m a)"
    "length (phys_mem (fold (unmap_page PT) ps m)) = TOTAL_PAGES" "cr3 (fold (unmap_page PT) ps m) = cr3 m"
    "cr0 (fold (unmap_page PT) ps m) = cr0 m"
    by auto
qed

lemma avail_bounds: "frames_wf m \<Longrightarrow> k \<in> avail m \<Longrightarrow> NUM_PAG_KERNEL \<le> k \<and> k < TOTAL_PAGES"
  by (auto simp: avail_def frame_is_free_def frames_wf_def)

lemma frames_wf_eqI:
  assumes "frames_wf m" "length (phys_mem m') = TOTAL_PAGES" "\<And>n. n < TOTAL_PAGES \<Longrightarrow> phys_mem m' ! n = phys_mem m ! n"
  shows "phys_mem m' = phys_mem m"
  using assms by (intro nth_equalityI) (auto simp: frames_wf_def)

text \<open>Unmapping the pages just mapped gives the frames back, unless frame 256 was among them.\<close>

lemma unmap_mapped_fresh:
  assumes wf: "frames_wf m" and mf: "mapped_fresh PT ps fs m m'" and d: "distinct ps" "set ps \<subseteq> {..<TOTAL_PAGES}"
    and k: "NUM_PAG_KERNEL \<notin> avail m" and qs: "distinct qs" "set qs = set ps"
  shows "phys_mem (fold (unmap_page PT) qs m') = phys_mem m"
proof (rule frames_wf_eqI [OF wf])
  have l: "length (phys_mem m') = TOTAL_PAGES" and wf': "frames_wf m'"
    using mf by (auto simp: mapped_fresh_def frames_wf_def)
  have q2: "set qs \<subseteq> {..<TOTAL_PAGES}" using d qs by simp
  show "length (phys_mem (fold (unmap_page PT) qs m')) = TOTAL_PAGES"
    by (rule unmap_pages_effect(3) [OF qs(1) q2 l, of 0]) (simp add: TOTAL_PAGES_def)
  fix n assume n: "n < TOTAL_PAGES"
  have fs: "f \<in> avail m" "NUM_PAG_KERNEL < f" "f < TOTAL_PAGES" if "f \<in> set fs" for f
    using mf that k avail_bounds [OF wf, of f] by (auto simp: mapped_fresh_def le_less)
  have gf: "unat (get_frame PT (of_nat (ps ! i)) m') = fs ! i" if "i < length ps" for i
  proof -
    have "fs ! i < TOTAL_PAGES" using fs(3) [of "fs ! i"] mf that by (simp add: mapped_fresh_def)
    then show ?thesis
      using mf that by (simp add: get_frame_def mapped_fresh_def take_bit20_of_nat TOTAL_PAGES_def)
  qed
  have ex: "(\<exists>p \<in> set qs. unat (get_frame PT (of_nat p) m') = n) \<longleftrightarrow> n \<in> set fs"
  proof -
    have "length fs = length ps" using mf by (simp add: mapped_fresh_def)
    then show ?thesis unfolding qs(2) using gf by (metis in_set_conv_nth)
  qed
  have "phys_mem m ! n = FREE_FRAME" if "n \<in> set fs" using fs(1) [OF that] by (simp add: avail_def frame_is_free_def)
  moreover have "phys_mem m' ! n = phys_mem m ! n" if "n \<notin> set fs"
  proof -
    have "phys_mem m' ! n \<in> {FREE_FRAME, USED_FRAME}" "phys_mem m ! n \<in> {FREE_FRAME, USED_FRAME}"
      using wf wf' n l by (auto simp: frames_wf_def subset_iff)
    moreover have "frame_is_free m' n \<longleftrightarrow> frame_is_free m n" using mf that by (simp add: mapped_fresh_def)
    then have "phys_mem m' ! n = FREE_FRAME \<longleftrightarrow> phys_mem m ! n = FREE_FRAME"
      using l wf n by (simp add: frame_is_free_def frames_wf_def)
    ultimately show ?thesis by auto
  qed
  ultimately show "phys_mem (fold (unmap_page PT) qs m') ! n = phys_mem m ! n"
    using unmap_pages_effect(1) [OF qs(1) q2 l n] ex fs(2) by auto
qed

section \<open>Address spaces\<close>

text \<open>The directory of every task points to its own page table.\<close>

definition dirs_ok :: "symtab \<Rightarrow> mm_state \<Rightarrow> bool" where
  "dirs_ok L m \<longleftrightarrow> (\<forall>i<NR_TASKS. ptes m (dir_pages L i) = user_pte (drop_bit 12 (pagusr_table L i)))"

lemma get_PT_eq:
  assumes "symtab_ok L" "dirs_ok L (mm s)" "i < NR_TASKS" "dir_pages_baseAddr (tasks s t) = dir_pages L i"
  shows "get_PT t s = pagusr_table L i"
  using assms pagusr_table_aligned [OF assms(1,3)] by (simp add: get_PT_def dirs_ok_def)

lemma dir_not_slot:
  assumes "symtab_ok L" "i < NR_TASKS" "j < NR_TASKS" "q < TOTAL_PAGES"
  shows "dir_pages L i \<noteq> pt_slot (pagusr_table L j) (of_nat q)"
  using dir_slot_not_table [OF assms] by (simp add: pt_slot_def)

lemma ptes_map_new_frame:
  assumes "a \<notin> (\<lambda>p. pt_slot PT (of_nat (base + p))) ` set ps"
  shows "ptes (fold (map_new_frame PT base G) ps m) a = ptes m a"
  using assms
proof (induction ps arbitrary: m)
  case (Cons p ps)
  obtain f m1 where a: "alloc_frame m = (f, m1)" by fastforce
  then have "ptes m1 = ptes m" using alloc_frame_frame(1) [of m] by simp
  then have "ptes (map_new_frame PT base G p m) a = ptes m a"
    using Cons.prems by (auto simp: map_new_frame_def a)
  with Cons show ?case by simp
qed simp

lemma frames_wf_map_new_frame: "frames_wf m \<Longrightarrow> frames_wf (fold (map_new_frame PT base G) ps m)"
proof (induction ps arbitrary: m)
  case (Cons p ps)
  have "phys_mem (map_new_frame PT base G p m) = phys_mem (snd (alloc_frame m))"
    by (simp add: map_new_frame_def split: prod.split)
  then have "frames_wf (map_new_frame PT base G p m)"
    using frames_wf_alloc [OF Cons.prems] frames_wf_cong by blast
  with Cons show ?case by simp
qed simp

lemma phys_mem_fold_pte: "phys_mem (fold (\<lambda>i. pte_upd (f i) (g i)) xs m) = phys_mem m"
  by (induction xs arbitrary: m) auto

lemma phys_mem_init_pages [simp]:
  "phys_mem (init_dir_pages L m) = phys_mem m" "phys_mem (init_table_pages L m) = phys_mem m"
proof -
  show "phys_mem (init_dir_pages L m) = phys_mem m"
    by (simp add: init_dir_pages_def Let_def phys_mem_fold_pte)
  have "phys_mem (fold F xs m) = phys_mem m" if "\<And>j m. phys_mem (F j m) = phys_mem m"
    for F :: "nat \<Rightarrow> mm_state \<Rightarrow> mm_state" and xs
    using that by (induction xs arbitrary: m) auto
  then show "phys_mem (init_table_pages L m) = phys_mem m"
    by (simp add: init_table_pages_def Let_def phys_mem_fold_pte)
qed

lemma set_user_pages_frame:
  assumes "frames_wf m" "boot_frames 0 m"
  shows "frames_wf (set_user_pages PT m)" and "boot_frames (NUM_PAG_CODE + NUM_PAG_DATA) (set_user_pages PT m)"
    and "\<And>a. (\<And>q. q < TOTAL_PAGES \<Longrightarrow> a \<noteq> pt_slot PT (of_nat q)) \<Longrightarrow> ptes (set_user_pages PT m) a = ptes m a"
proof -
  show "frames_wf (set_user_pages PT m)"
    unfolding set_user_pages_eq by (intro frames_wf_map_new_frame assms)
  let ?C = "\<lambda>f. set_present (set_user (set_pbase_addr (dword_of_int f) 0))"
  have "boot_frames (0 + NUM_PAG_CODE) (fold (map_new_frame PT PAG_LOG_INIT_CODE ?C) [0..<NUM_PAG_CODE] m)"
    by (rule map_new_frame_loop [OF assms(2), THEN conjunct1]) (simp_all add: layout_consts)
  then show "boot_frames (NUM_PAG_CODE + NUM_PAG_DATA) (set_user_pages PT m)"
    unfolding set_user_pages_eq add_0
    by (rule map_new_frame_loop [THEN conjunct1]) (simp_all add: layout_consts)
  show "ptes (set_user_pages PT m) a = ptes m a" if "\<And>q. q < TOTAL_PAGES \<Longrightarrow> a \<noteq> pt_slot PT (of_nat q)" for a
  proof -
    have n: "a \<notin> (\<lambda>p. pt_slot PT (of_nat (b + p))) ` set [0..<n]" if "b + n \<le> TOTAL_PAGES" for b n
    proof
      assume "a \<in> (\<lambda>p. pt_slot PT (of_nat (b + p))) ` set [0..<n]"
      then obtain p where "p < n" "a = pt_slot PT (of_nat (b + p))" by auto
      moreover from this(1) that have "b + p < TOTAL_PAGES" by simp
      ultimately show False using \<open>\<And>q. q < TOTAL_PAGES \<Longrightarrow> a \<noteq> pt_slot PT (of_nat q)\<close> by blast
    qed
    have "PAG_LOG_INIT_CODE + NUM_PAG_CODE \<le> TOTAL_PAGES" "PAG_LOG_INIT_DATA + NUM_PAG_DATA \<le> TOTAL_PAGES"
      by (simp_all add: layout_consts)
    then show ?thesis unfolding set_user_pages_eq using n by (simp only: ptes_map_new_frame not_False_eq_True)
  qed
qed

text \<open>The memory of the first process.\<close>

lemma mm_init_mm: "mm (init_mm L s) =
    set_pe_flag (set_cr3 (dir_pages L 0) (init_dir_pages L (init_frames (init_table_pages L (mm s)))))"
  by (simp add: init_mm_def Let_def allocate_DIR_def get_DIR_def upd_mm_def upd_task_def)

lemma init_task1_mm:
  assumes L: "symtab_ok L" and d: "dlist (links s) (freequeue L) (tnode (task L 1) # xs)"
  defines "s' \<equiv> init_task1 L s" and "T \<equiv> tasks (init_task1 L s) (task L 1)"
  shows "dir_pages_baseAddr T = dir_pages L 1" and "heap_pointer_proc T = of_nat INIT_HEAP"
    and "heap_start_proc T = of_nat INIT_HEAP"
    and "mm s' = set_cr3 (dir_pages L 1)
      (set_user_pages (push_bit 12 (pbase_addr (ptes (mm s) (dir_pages L 1)))) (mm s))"
proof -
  have f: "list_first (freequeue L) (links s) = tnode (task L 1)" using d by (rule lq.first_repr)
  have "task L 1 \<in> tasks_of L" by (auto simp: tasks_of_def NR_TASKS_def)
  note t = node_to_task [OF L this]
  have "task L 1 - task L 0 = of_nat PAGE_SIZE" by (simp add: task_def protected_tasks_def)
  then have pos: "unat ((task L 1 - task L 0) div of_nat PAGE_SIZE) = 1" by (simp add: PAGE_SIZE_def)
  note pos' = pos [unfolded One_nat_def] and t' = t [unfolded One_nat_def]
  note defs = s'_def T_def init_task1_def Let_def f t t' init_sems_eq allocate_DIR_def pos' get_DIR_def get_PT_def
  show "dir_pages_baseAddr T = dir_pages L 1" by (simp add: defs)
  show "heap_pointer_proc T = of_nat INIT_HEAP" by (simp add: defs)
  show "heap_start_proc T = of_nat INIT_HEAP" by (simp add: defs)
  show "mm s' = set_cr3 (dir_pages L 1)
      (set_user_pages (push_bit 12 (pbase_addr (ptes (mm s) (dir_pages L 1)))) (mm s))"
    by (simp add: defs)
qed

lemma ptes_set_cr3 [simp]: "ptes (set_cr3 d m) = ptes m"
  by (simp add: set_cr3_def)

lemma boot_mm_eq:
  assumes L: "symtab_ok L"
  shows "mm (init_kernel L s) = set_cr3 (dir_pages L 1) (set_user_pages (pagusr_table L 1)
    (set_pe_flag (set_cr3 (dir_pages L 0) (init_dir_pages L (init_frames (init_table_pages L (mm s)))))))"
    (is "_ = set_cr3 _ (set_user_pages _ ?m3)")
proof -
  have nr: "0 < NR_TASKS" "1 < NR_TASKS" by (simp_all add: NR_TASKS_def)
  note q = init_kernel_links [OF L, of s]
  let ?s3 = "init_idle L (init_sched L (init_mm L s))"
  have k: "init_kernel L s = init_task1 L ?s3" by (simp add: init_kernel_def Let_def)
  have m3: "mm ?s3 = ?m3"
    using init_idle_effect(4) [OF L q(1) nr(1)]
    by (simp add: mm_init_mm init_sched_def init_freequeue_eq Let_def)
  have "ptes ?m3 (dir_pages L 1) = user_pte (drop_bit 12 (pagusr_table L 1))"
    using init_dir_pages_entry [OF L nr(2)] by (simp add: set_pe_flag_def set_cr3_def user_pte_def pt_slot_def)
  then have "push_bit 12 (pbase_addr (ptes (mm ?s3) (dir_pages L 1))) = pagusr_table L 1"
    unfolding m3 using pagusr_table_aligned [OF L nr(2)] by simp
  with init_task1_mm(4) [OF L q(2), folded k] show ?thesis unfolding m3 by simp
qed

lemma boot_mm:
  assumes L: "symtab_ok L" and len: "length (phys_mem (mm s)) = TOTAL_PAGES"
  defines "m \<equiv> mm (init_kernel L s)" and "T \<equiv> tasks (init_kernel L s) (task L 1)"
  shows "frames_wf m" and "boot_frames (NUM_PAG_CODE + NUM_PAG_DATA) m" and "dirs_ok L m"
    and "dir_pages_baseAddr T = dir_pages L 1" and "heap_pointer_proc T = of_nat INIT_HEAP"
    and "heap_start_proc T = of_nat INIT_HEAP"
proof -
  have nr: "1 < NR_TASKS" by (simp add: NR_TASKS_def)
  have "init_kernel L s = init_task1 L (init_idle L (init_sched L (init_mm L s)))" by (simp add: init_kernel_def Let_def)
  note e = init_task1_mm [OF L init_kernel_links(2) [OF L, of s], folded this]
  show "dir_pages_baseAddr T = dir_pages L 1" "heap_pointer_proc T = of_nat INIT_HEAP"
    "heap_start_proc T = of_nat INIT_HEAP"
    unfolding T_def by (rule e)+
  let ?m3 = "set_pe_flag (set_cr3 (dir_pages L 0) (init_dir_pages L (init_frames (init_table_pages L (mm s)))))"
  have ph: "phys_mem ?m3 = phys_mem (init_frames (init_table_pages L (mm s)))"
    by (simp add: set_pe_flag_def set_cr3_def)
  have l: "length (phys_mem (init_table_pages L (mm s))) = TOTAL_PAGES" using len by simp
  have wf: "frames_wf ?m3" using frames_wf_init(1) [OF l] frames_wf_cong [OF ph] by simp
  have bf: "boot_frames 0 ?m3" using boot_frames_init [OF l] ph by (simp add: boot_frames_def)
  note u = set_user_pages_frame [OF wf bf, where PT = "pagusr_table L 1"]
  have m: "m = set_cr3 (dir_pages L 1) (set_user_pages (pagusr_table L 1) ?m3)"
    unfolding m_def by (rule boot_mm_eq [OF L])
  show "frames_wf m" using u(1) by (simp add: m set_cr3_def frames_wf_def)
  show "boot_frames (NUM_PAG_CODE + NUM_PAG_DATA) m" using u(2) by (simp add: m set_cr3_def boot_frames_def)
  show "dirs_ok L m"
    unfolding dirs_ok_def
  proof (intro allI impI)
    fix i assume i: "i < NR_TASKS"
    have "ptes m (dir_pages L i) = ptes ?m3 (dir_pages L i)"
      unfolding m ptes_set_cr3 using dir_not_slot [OF L i nr] by (rule u(3))
    also have "\<dots> = user_pte (drop_bit 12 (pagusr_table L i))"
      using init_dir_pages_entry [OF L i] by (simp add: set_pe_flag_def set_cr3_def user_pte_def pt_slot_def)
    finally show "ptes m (dir_pages L i) = user_pte (drop_bit 12 (pagusr_table L i))" .
  qed
qed

section \<open>The address space of a task\<close>

lemma phys_addr_unat:
  fixes f a :: "32 word"
  assumes "unat f < 2 ^ 20"
  shows "unat (push_bit 12 f OR take_bit 12 a) = unat f * 4096 + unat a mod 4096"
proof -
  have "push_bit 12 f AND take_bit 12 a = 0" by (rule bit_word_eqI) (auto simp: bit_simps)
  then have "push_bit 12 f OR take_bit 12 a = push_bit 12 f + take_bit 12 a" using disjunctive_add_eq_or [of "push_bit 12 f" "take_bit 12 a"] by simp
  moreover have "unat (push_bit 12 f) = unat f * 4096"
    using assms by (simp add: push_bit_eq_mult unat_word_ariths)
  moreover have "unat (take_bit 12 a) = unat a mod 4096" by (simp add: take_bit_eq_mod unat_mod)
  ultimately show ?thesis using assms by (simp add: unat_plus_word32)
qed

text \<open>The walk of the processor in the address space of task \<open>i\<close>, for an address of its page table.\<close>

definition pte_of :: "symtab \<Rightarrow> nat \<Rightarrow> mm_state \<Rightarrow> nat \<Rightarrow> page_table_entry" where
  "pte_of L i m p = ptes m (pt_slot (pagusr_table L i) (of_nat p))"

lemma page_walk_pt:
  assumes d: "pte_present (ptes m (cr3 m))" "push_bit 12 (pbase_addr (ptes m (cr3 m))) = PT" and a: "unat a < TOTAL_PAGES * 4096"
  shows "page_walk m a =
    (let e = ptes m (pt_slot PT (of_nat (unat a div 4096)))
     in if pte_present e then Some (push_bit 12 (pbase_addr e) OR take_bit 12 a) else None)"
proof -
  have "drop_bit 22 a = 0"
  proof -
    have "unat (drop_bit 22 a) = unat a div 2 ^ 22" by (simp add: drop_bit_eq_div unat_div)
    also have "\<dots> = 0" using a by (simp add: TOTAL_PAGES_def)
    finally show ?thesis by (simp add: unat_eq_0)
  qed
  moreover have "take_bit 10 (drop_bit 12 a) = of_nat (unat a div 4096)"
  proof -
    have "unat (take_bit 10 (drop_bit 12 a)) = unat a div 4096 mod 1024"
      by (simp add: take_bit_eq_mod drop_bit_eq_div unat_mod unat_div)
    also have "\<dots> = unat a div 4096" using a by (simp add: TOTAL_PAGES_def)
    finally have "unat (take_bit 10 (drop_bit 12 a)) = unat (of_nat (unat a div 4096) :: ptr)"
      using a by (simp add: TOTAL_PAGES_def unat_of_nat)
    then show ?thesis by (simp only: word_unat_eq_iff)
  qed
  ultimately show ?thesis using d by (simp add: page_walk_def pt_slot_def Let_def)
qed

text \<open>A block whose pages are all present is mapped.\<close>

lemma mapped_pt:
  assumes d: "pte_present (ptes m (cr3 m))" "push_bit 12 (pbase_addr (ptes m (cr3 m))) = PT"
    and a: "unat a + n \<le> TOTAL_PAGES * 4096"
    and p: "\<And>p. unat a div 4096 \<le> p \<Longrightarrow> p * 4096 < unat a + n \<Longrightarrow> pte_present (ptes m (pt_slot PT (of_nat p)))"
  shows "mapped m a n"
  unfolding mapped_def
proof (intro allI impI)
  fix k assume k: "k < n"
  have "k < 2 ^ 32" using k a by (simp add: TOTAL_PAGES_def)
  then have u: "unat (a + of_nat k) = unat a + k"
    using k a by (subst unat_plus_word32) (simp_all add: TOTAL_PAGES_def unat_of_nat)
  have "pte_present (ptes m (pt_slot PT (of_nat (unat (a + of_nat k) div 4096))))"
  proof (rule p)
    show "unat a div 4096 \<le> unat (a + of_nat k) div 4096" unfolding u by (rule div_le_mono) simp
    have "(unat a + k) div 4096 * 4096 \<le> unat a + k" by simp
    then show "unat (a + of_nat k) div 4096 * 4096 < unat a + n" unfolding u using k by linarith
  qed
  then show "page_walk m (a + of_nat k) \<noteq> None"
    using page_walk_pt [OF d, of "a + of_nat k"] u k a by (simp add: Let_def)
qed

lemma cr3_task:
  assumes L: "symtab_ok L" and d: "dirs_ok L m" and i: "i < NR_TASKS" and c: "cr3 m = dir_pages L i"
  shows "pte_present (ptes m (cr3 m))" "push_bit 12 (pbase_addr (ptes m (cr3 m))) = pagusr_table L i"
  using d i c pagusr_table_aligned [OF L i] by (simp_all add: dirs_ok_def)

lemma page_walk_task:
  assumes L: "symtab_ok L" and d: "dirs_ok L m" and i: "i < NR_TASKS" and c: "cr3 m = dir_pages L i"
    and a: "unat a < TOTAL_PAGES * 4096"
  shows "page_walk m a =
    (let e = pte_of L i m (unat a div 4096)
     in if pte_present e then Some (push_bit 12 (pbase_addr e) OR take_bit 12 a) else None)"
  unfolding pte_of_def by (rule page_walk_pt [OF cr3_task [OF L d i c] a])

lemma to_phys_task:
  assumes "symtab_ok L" "dirs_ok L m" "i < NR_TASKS" "cr3 m = dir_pages L i" "unat a < TOTAL_PAGES * 4096"
    "pte_present (pte_of L i m (unat a div 4096))" "unat (pbase_addr (pte_of L i m (unat a div 4096))) = f" "f < 2 ^ 20"
  shows "unat (to_phys m a) = f * 4096 + unat a mod 4096"
  using page_walk_task [OF assms(1-5)] assms(6-8) phys_addr_unat by (simp add: to_phys_def Let_def)

lemma mapped_task:
  assumes "symtab_ok L" "dirs_ok L m" "i < NR_TASKS" "cr3 m = dir_pages L i" "unat a + n \<le> TOTAL_PAGES * 4096"
    "\<And>p. unat a div 4096 \<le> p \<Longrightarrow> p * 4096 < unat a + n \<Longrightarrow> pte_present (pte_of L i m p)"
  shows "mapped m a n"
  by (rule mapped_pt [OF cr3_task [OF assms(1-4)] assms(5)]) (use assms(6) in \<open>simp add: pte_of_def\<close>)

text \<open>Two blocks that share no page frame are apart.\<close>

definition block_pages :: "ptr \<Rightarrow> nat \<Rightarrow> nat set" where
  "block_pages a n = {p. unat a div 4096 \<le> p \<and> p * 4096 < unat a + n}"

lemma pbase_addr_less: "unat (pbase_addr e) < 2 ^ 20"
proof -
  have "unat (pbase_addr e) = unat e div 2 ^ 12" by (simp add: pbase_addr_def drop_bit_eq_div unat_div)
  moreover have "unat e < 2 ^ 32" by (rule unat_word32_less)
  then have "unat e div 2 ^ 12 < 2 ^ 20" by (intro less_mult_imp_div_less) simp
  ultimately show ?thesis by simp
qed

lemma block_page:
  assumes "unat a + n \<le> 2 ^ 32" "k < n"
  shows "unat (a + of_nat k) = unat a + k" and "unat (a + of_nat k) div 4096 \<in> block_pages a n"
proof -
  have "k < 2 ^ 32" using assms by simp
  then show u: "unat (a + of_nat k) = unat a + k"
    using assms by (subst unat_plus_word32) (simp_all add: unat_of_nat)
  have "(unat a + k) div 4096 * 4096 \<le> unat a + k" by simp
  then have "(unat a + k) div 4096 * 4096 < unat a + n" using assms(2) by linarith
  then show "unat (a + of_nat k) div 4096 \<in> block_pages a n"
    unfolding u block_pages_def by (simp add: div_le_mono)
qed

lemma to_phys_inject:
  assumes "symtab_ok L" "dirs_ok L m" "i < NR_TASKS" "cr3 m = dir_pages L i"
    "unat a < TOTAL_PAGES * 4096" "unat b < TOTAL_PAGES * 4096"
    "unat a div 4096 \<in> S" "unat b div 4096 \<in> S" "\<forall>p \<in> S. pte_present (pte_of L i m p)"
    "inj_on (\<lambda>p. pbase_addr (pte_of L i m p)) S" "to_phys m a = to_phys m b"
  shows "a = b"
proof -
  let ?f = "\<lambda>p. pbase_addr (pte_of L i m p)"
  have "unat (to_phys m c) = unat (?f (unat c div 4096)) * 4096 + unat c mod 4096"
    if "unat c < TOTAL_PAGES * 4096" "unat c div 4096 \<in> S" for c
    using to_phys_task [OF assms(1-4) that(1) bspec [OF assms(9) that(2)] refl pbase_addr_less] .
  with assms(5-8,11) have e: "unat (?f (unat a div 4096)) * 4096 + unat a mod 4096 =
      unat (?f (unat b div 4096)) * 4096 + unat b mod 4096" by metis
  have dm: "x = y \<and> u = v" if "x * 4096 + u = y * 4096 + v" "u < 4096" "v < 4096" for x y u v :: nat
  proof -
    have "(x * 4096 + u) div 4096 = x" "(y * 4096 + v) div 4096 = y" using that(2,3) by simp_all
    with that(1) show ?thesis by simp
  qed
  have "unat (?f (unat a div 4096)) = unat (?f (unat b div 4096)) \<and> unat a mod 4096 = unat b mod 4096"
    by (rule dm [OF e]) simp_all
  then have "unat a div 4096 = unat b div 4096" "unat a mod 4096 = unat b mod 4096"
    using assms(7,8,10) by (auto simp: inj_on_def word_unat_eq_iff)
  then have "unat a = unat b" by (metis div_mult_mod_eq)
  then show ?thesis by (simp only: word_unat_eq_iff)
qed

lemma apart_task:
  assumes "symtab_ok L" "dirs_ok L m" "i < NR_TASKS" "cr3 m = dir_pages L i"
    "unat p + n \<le> TOTAL_PAGES * 4096" "unat q + n \<le> TOTAL_PAGES * 4096"
    "unat p + n \<le> unat q \<or> unat q + n \<le> unat p"
    "\<forall>r \<in> block_pages p n \<union> block_pages q n. pte_present (pte_of L i m r)"
    "inj_on (\<lambda>r. pbase_addr (pte_of L i m r)) (block_pages p n \<union> block_pages q n)"
  shows "paged.apart m p q n"
proof -
  let ?S = "block_pages p n \<union> block_pages q n"
  have lim: "unat p + n \<le> 2 ^ 32" "unat q + n \<le> 2 ^ 32" using assms(5,6) by (simp_all add: TOTAL_PAGES_def)
  have P: "unat (p + of_nat k) = unat p + k" "unat (p + of_nat k) div 4096 \<in> ?S" "unat (p + of_nat k) < TOTAL_PAGES * 4096"
    if "k < n" for k using block_page [OF lim(1) that] that assms(5) by auto
  have Q: "unat (q + of_nat k) = unat q + k" "unat (q + of_nat k) div 4096 \<in> ?S" "unat (q + of_nat k) < TOTAL_PAGES * 4096"
    if "k < n" for k using block_page [OF lim(2) that] that assms(6) by auto
  note inj = to_phys_inject [OF assms(1-4) _ _ _ _ assms(8,9)]
  show ?thesis
    unfolding paged.apart_def
  proof (intro conjI allI impI)
    fix k j assume kj: "k < n" "j < n"
    show "k = j" if "to_phys m (q + of_nat k) = to_phys m (q + of_nat j)"
      using inj [OF Q(3) Q(3) Q(2) Q(2) that] kj Q(1) by (metis add_left_cancel)
    show "to_phys m (q + of_nat k) \<noteq> to_phys m (p + of_nat j)"
    proof
      assume "to_phys m (q + of_nat k) = to_phys m (p + of_nat j)"
      then have "q + of_nat k = p + of_nat j" using inj [OF Q(3) P(3) Q(2) P(2)] kj by blast
      then have "unat q + k = unat p + j" using Q(1) P(1) kj by metis
      then show False using assms(7) kj by linarith
    qed
  qed
qed

text \<open>A copy changes only the bytes it writes.\<close>

lemma copy_bytes_keeps:
  assumes "\<And>i v m. i < n \<Longrightarrow> P m \<Longrightarrow> P (wr (q + of_nat i) v m)" "P m"
  shows "P (copy_bytes rd wr p q (int n) m)"
  using assms
proof (induction n arbitrary: p q m)
  case 0
  then show ?case by (simp add: copy_bytes.simps)
next
  case (Suc n)
  have "P (copy_bytes rd wr (p + 1) (q + 1) (int n) (wr q (rd m p) m))"
  proof (rule Suc.IH)
    show "P (wr (q + 1 + of_nat i) v m)" if "i < n" "P m" for i v m
      using Suc.prems(1) [of "Suc i" m v] that by (simp add: add.assoc)
    show "P (wr q (rd m p) m)" using Suc.prems(1) [of 0 m] Suc.prems(2) by simp
  qed
  then show ?case by (subst copy_bytes.simps) simp
qed

lemma copy_data_keeps:
  assumes "\<And>i v m. i < n \<Longrightarrow> P m \<Longrightarrow> P (wr (q + of_nat i) v m)" "P m"
  shows "P (copy_data rd wr p q (int n) m)"
  using assms
proof (induction n arbitrary: p q m rule: less_induct)
  case (less n)
  show ?case
  proof (cases "n > 4")
    case True
    have w: "P (wr (q + of_nat i) v m)" if "i < 4" "P m" for i v m using less.prems(1) that True by simp
    have "P (copy_data rd wr (p + 4) (q + 4) (int (n - 4)) (wr32 wr q (rd32 rd m p) m))"
    proof (rule less.IH)
      show "P (wr (q + 4 + of_nat i) v m)" if "i < n - 4" "P m" for i v m
      proof -
        have e: "q + 4 + of_nat i = q + of_nat (i + 4)" by (simp add: ac_simps)
        show ?thesis unfolding e using that by (intro less.prems(1)) auto
      qed
      show "P (wr32 wr q (rd32 rd m p) m)"
        using w [of 3] w [of 2] w [of 1] w [of 0] less.prems(2) unfolding wr32_def by simp
    qed (use True in simp)
    then show ?thesis using True by (subst copy_data_unfold) (simp add: of_nat_diff)
  next
    case False
    then show ?thesis using copy_bytes_keeps [of n P wr q m] less.prems by (subst copy_data_unfold) simp
  qed
qed

lemma vm_copy_task:
  assumes "symtab_ok L" "dirs_ok L (mm s)" "i < NR_TASKS" "cr3 (mm s) = dir_pages L i"
    "unat p + n \<le> TOTAL_PAGES * 4096" "unat q + n \<le> TOTAL_PAGES * 4096"
    "unat p + n \<le> unat q \<or> unat q + n \<le> unat p"
    "\<forall>r \<in> block_pages p n \<union> block_pages q n. pte_present (pte_of L i (mm s) r)"
    "inj_on (\<lambda>r. pbase_addr (pte_of L i (mm s) r)) (block_pages p n \<union> block_pages q n)"
  obtains r where "vm_copy p q n s = Some (s\<lparr>ram := r\<rparr>)" "paged.copied (mm s) p q n (ram s) r"
    "\<forall>x. (\<forall>k<n. x \<noteq> to_phys (mm s) (q + of_nat k)) \<longrightarrow> r x = ram s x"
proof -
  let ?r = "copy_data (paged_rd (mm s)) (paged_wr (mm s)) p q (int n) (ram s)"
  have "mapped (mm s) p n" "mapped (mm s) q n"
    using assms(8) by (auto intro!: mapped_task [OF assms(1-4)] assms(5,6) simp: block_pages_def)
  then have "vm_copy p q n s = Some (s\<lparr>ram := ?r\<rparr>)" by (simp add: vm_copy_def)
  moreover have "?r x = ram s x" if "\<forall>k<n. x \<noteq> to_phys (mm s) (q + of_nat k)" for x
    by (rule copy_data_keeps [where P = "\<lambda>r. r x = ram s x"]) (use that in \<open>simp_all add: paged_wr_def\<close>)
  ultimately show thesis using that [OF _ paged.copy_data_copied [OF apart_task [OF assms]]] by blast
qed

text \<open>Copying one page to another.\<close>

lemma block_pages_page:
  assumes "p < TOTAL_PAGES"
  shows "unat (of_nat (p * 2 ^ 12) :: ptr) = p * 4096" "block_pages (of_nat (p * 2 ^ 12)) 4096 = {p}"
proof -
  have "p * 2 ^ 12 < 2 ^ 32" using assms by (simp add: TOTAL_PAGES_def)
  then show u: "unat (of_nat (p * 2 ^ 12) :: ptr) = p * 4096" by (subst unat_of_nat_word32) simp_all
  show "block_pages (of_nat (p * 2 ^ 12)) 4096 = {p}" unfolding block_pages_def u by auto
qed

lemma to_phys_page:
  assumes L: "symtab_ok L" "dirs_ok L m" "i < NR_TASKS" "cr3 m = dir_pages L i"
    and k: "k < 4096" and x: "x < TOTAL_PAGES" and e: "pte_present (pte_of L i m x)" "unat (pbase_addr (pte_of L i m x)) = h"
  shows "to_phys m (of_nat (x * 2 ^ 12) + of_nat k) = of_nat (h * 4096 + k)"
proof -
  let ?a = "of_nat (x * 2 ^ 12) + of_nat k :: ptr"
  have ua: "unat ?a = x * 4096 + k"
    using block_page(1) [of "of_nat (x * 2 ^ 12)" 4096 k] block_pages_page(1) [OF x] k x by (simp add: TOTAL_PAGES_def)
  have h: "h < 2 ^ 20" using e(2) pbase_addr_less [of "pte_of L i m x"] by simp
  have "unat ?a div 4096 = x" "unat ?a mod 4096 = k" unfolding ua using k by simp_all
  then have "unat (to_phys m ?a) = h * 4096 + k"
    using to_phys_task [OF L, of ?a h] e k x ua h by (simp add: TOTAL_PAGES_def)
  moreover have "h * 4096 + k < 2 ^ 32" using h k by simp
  ultimately show ?thesis by (metis unat_of_nat_word32 word_unat_eq_iff)
qed

lemma vm_copy_page:
  assumes L: "symtab_ok L" "dirs_ok L (mm s)" "i < NR_TASKS" "cr3 (mm s) = dir_pages L i"
    and pq: "p < TOTAL_PAGES" "q < TOTAL_PAGES" "p \<noteq> q"
    and P: "pte_present (pte_of L i (mm s) p)" "unat (pbase_addr (pte_of L i (mm s) p)) = g"
    and Q: "pte_present (pte_of L i (mm s) q)" "unat (pbase_addr (pte_of L i (mm s) q)) = f" and fg: "f \<noteq> g"
  obtains r where "vm_copy (of_nat (p * 2 ^ 12)) (of_nat (q * 2 ^ 12)) PAGE_SIZE s = Some (s\<lparr>ram := r\<rparr>)"
    "\<And>k. k < 4096 \<Longrightarrow> r (of_nat (f * 4096 + k)) = ram s (of_nat (g * 4096 + k))"
    "\<And>x. unat x div 4096 \<noteq> f \<Longrightarrow> r x = ram s x"
proof -
  let ?p = "of_nat (p * 2 ^ 12) :: ptr" and ?q = "of_nat (q * 2 ^ 12) :: ptr"
  note bp = block_pages_page [OF pq(1)] and bq = block_pages_page [OF pq(2)]
  note ph = to_phys_page [OF L]
  have inj: "inj_on (\<lambda>r. pbase_addr (pte_of L i (mm s) r)) {p, q}" using P(2) Q(2) fg by (auto simp: inj_on_def)
  have lim: "unat ?p + 4096 \<le> TOTAL_PAGES * 4096" "unat ?q + 4096 \<le> TOTAL_PAGES * 4096"
    "unat ?p + 4096 \<le> unat ?q \<or> unat ?q + 4096 \<le> unat ?p" unfolding bp(1) bq(1) using pq by auto
  have pr: "\<forall>r\<in>block_pages ?p 4096 \<union> block_pages ?q 4096. pte_present (pte_of L i (mm s) r)"
    unfolding bp(2) bq(2) using P(1) Q(1) by simp
  have "inj_on (\<lambda>r. pbase_addr (pte_of L i (mm s) r)) (block_pages ?p 4096 \<union> block_pages ?q 4096)"
    unfolding bp(2) bq(2) using inj by (simp add: insert_commute)
  then obtain r where r: "vm_copy ?p ?q 4096 s = Some (s\<lparr>ram := r\<rparr>)" "paged.copied (mm s) ?p ?q 4096 (ram s) r"
    "\<forall>x. (\<forall>k<4096. x \<noteq> to_phys (mm s) (?q + of_nat k)) \<longrightarrow> r x = ram s x"
    by (rule vm_copy_task [OF L lim pr])
  show thesis
  proof (rule that [of r])
    show "vm_copy ?p ?q PAGE_SIZE s = Some (s\<lparr>ram := r\<rparr>)" using r(1) by (simp add: PAGE_SIZE_def)
    show "r (of_nat (f * 4096 + k)) = ram s (of_nat (g * 4096 + k))" if k: "k < 4096" for k
      using r(2) k ph [OF k pq(1) P] ph [OF k pq(2) Q] unfolding paged.copied_def paged_rd_def by auto
    show "r x = ram s x" if x: "unat x div 4096 \<noteq> f" for x
    proof (rule r(3) [rule_format])
      fix k :: nat assume k: "k < 4096"
      have "f < 2 ^ 20" using Q(2) pbase_addr_less [of "pte_of L i (mm s) q"] by simp
      then have "unat (of_nat (f * 4096 + k) :: ptr) = f * 4096 + k" using k by (subst unat_of_nat_word32) simp_all
      then have "unat (of_nat (f * 4096 + k) :: ptr) div 4096 = f" using k by simp
      then show "x \<noteq> to_phys (mm s) (?q + of_nat k)" unfolding ph [OF k pq(2) Q] using x by auto
    qed
  qed
qed

text \<open>The page table of the first process after boot.\<close>

lemma ptes_init_frames [simp]: "ptes (init_frames m) = ptes m"
proof -
  have "ptes (fold (\<lambda>i m. m\<lparr>phys_mem := (phys_mem m)[i := v]\<rparr>) xs m) = ptes m" for v xs and m :: mm_state
    by (induction xs arbitrary: m) auto
  then show ?thesis by (simp add: init_frames_def Let_def)
qed

definition boot_pte :: "symtab \<Rightarrow> nat \<Rightarrow> page_table_entry" where
  "boot_pte L p =
     (if PAG_LOG_INIT_DATA \<le> p \<and> p < PAG_LOG_INIT_DATA + NUM_PAG_DATA then user_pte (of_nat (2 * p - 256))
      else if PAG_LOG_INIT_CODE \<le> p \<and> p < PAG_LOG_INIT_DATA
      then set_present (set_user (set_pbase_addr (of_nat (2 * p - 256)) 0))
      else if 1 \<le> p \<and> p < NUM_PAG_KERNEL \<and> \<not> guard_page L p then kernel_pte p
      else if 1 \<le> p \<and> p < NUM_PAG_KERNEL then clear_present (kernel_pte p) else 0)"

lemma boot_ptes:
  assumes L: "symtab_ok L" and len: "length (phys_mem (mm s)) = TOTAL_PAGES" and p: "p < TOTAL_PAGES"
  shows "pte_of L 1 (mm (init_kernel L s)) p = boot_pte L p"
proof -
  let ?m3 = "set_pe_flag (set_cr3 (dir_pages L 0) (init_dir_pages L (init_frames (init_table_pages L (mm s)))))"
  let ?PT = "pagusr_table L 1"
  let ?C = "\<lambda>f. set_present (set_user (set_pbase_addr (dword_of_int f) 0))"
  let ?D = "\<lambda>f. set_present (set_rw (set_user (set_pbase_addr (dword_of_int f) 0)))"
  let ?m1 = "fold (map_new_frame ?PT PAG_LOG_INIT_CODE ?C) [0..<NUM_PAG_CODE] ?m3"
  have nr: "1 < NR_TASKS" by (simp add: NR_TASKS_def)
  have l: "length (phys_mem (init_table_pages L (mm s))) = TOTAL_PAGES" using len by simp
  have bf: "boot_frames 0 ?m3" using boot_frames_init [OF l] by (simp add: boot_frames_def set_pe_flag_def set_cr3_def)
  have 1: "boot_frames (0 + NUM_PAG_CODE) ?m1 \<and> (\<forall>q<TOTAL_PAGES. ptes ?m1 (pt_slot ?PT (of_nat q)) =
      (if PAG_LOG_INIT_CODE \<le> q \<and> q < PAG_LOG_INIT_CODE + NUM_PAG_CODE
       then ?C (int (NUM_PAG_KERNEL + 2 * (0 + (q - PAG_LOG_INIT_CODE)))) else ptes ?m3 (pt_slot ?PT (of_nat q))))"
    by (rule map_new_frame_loop [OF bf]) (simp_all add: layout_consts)
  have 2: "\<forall>q<TOTAL_PAGES. ptes (set_user_pages ?PT ?m3) (pt_slot ?PT (of_nat q)) =
      (if PAG_LOG_INIT_DATA \<le> q \<and> q < PAG_LOG_INIT_DATA + NUM_PAG_DATA
       then ?D (int (NUM_PAG_KERNEL + 2 * (0 + NUM_PAG_CODE + (q - PAG_LOG_INIT_DATA))))
       else ptes ?m1 (pt_slot ?PT (of_nat q)))"
    unfolding set_user_pages_eq
    by (rule map_new_frame_loop [OF conjunct1 [OF 1], of NUM_PAG_DATA PAG_LOG_INIT_DATA, THEN conjunct2])
      (simp_all add: layout_consts)
  have 3: "ptes ?m3 (pt_slot ?PT (of_nat p)) = (if 1 \<le> p \<and> p < NUM_PAG_KERNEL
      then if guard_page L p then clear_present (kernel_pte p) else kernel_pte p else 0)"
    using init_dir_pages_table [OF L nr p] init_table_pages_entry [OF L nr p]
    by (simp add: set_pe_flag_def set_cr3_def Let_def clear_present_def)
  have m: "pte_of L 1 (mm (init_kernel L s)) p = ptes (set_user_pages ?PT ?m3) (pt_slot ?PT (of_nat p))"
    unfolding pte_of_def boot_mm_eq [OF L] by (simp add: set_cr3_def)
  have c: "PAG_LOG_INIT_CODE = 256" "PAG_LOG_INIT_DATA = 264" "NUM_PAG_CODE = 8" "NUM_PAG_DATA = 20" "NUM_PAG_KERNEL = 256"
    by (simp_all add: layout_consts)
  show ?thesis
    unfolding m 2 [rule_format, OF p] conjunct2 [OF 1, rule_format, OF p] 3
    unfolding boot_pte_def user_pte_def c dword_of_int_def
    by (simp add: of_nat_diff)
qed

text \<open>After boot 356 frames can still be allocated.\<close>

lemma avail_boot_frames:
  assumes "boot_frames 28 m"
  shows "avail m = (\<lambda>i. 2 * i) ` {156..<512}" and "card (avail m) = 356" and "NUM_PAG_KERNEL \<notin> avail m"
proof -
  have l: "length (phys_mem m) = 1024" using assms by (simp add: boot_frames_def TOTAL_PAGES_def)
  have b: "phys_mem m ! k = FREE_FRAME \<longleftrightarrow> 312 \<le> k" if "256 \<le> k" "k < 1024" "even k" for k
    using assms that by (simp add: boot_frames_def layout_consts)
  show eq: "avail m = (\<lambda>i. 2 * i) ` {156..<512}"
  proof (rule set_eqI)
    fix k
    have "k \<in> avail m \<longleftrightarrow> even k \<and> 312 \<le> k \<and> k < 1024"
      using b [of k] l by (auto simp: avail_def frame_is_free_def NUM_PAG_KERNEL_def)
    also have "\<dots> \<longleftrightarrow> k \<in> (\<lambda>i. 2 * i) ` {156..<512}" by (auto simp: image_iff elim!: evenE)
    finally show "k \<in> avail m \<longleftrightarrow> k \<in> (\<lambda>i. 2 * i) ` {156..<512}" .
  qed
  have "inj_on (\<lambda>i. 2 * i :: nat) {156..<512}" by (simp add: inj_on_def)
  from card_image [OF this] show "card (avail m) = 356" unfolding eq by simp
  show "NUM_PAG_KERNEL \<notin> avail m" unfolding eq by (auto simp: NUM_PAG_KERNEL_def)
qed

lemma booted_mm:
  shows "frames_wf (mm booted)" and "boot_frames 28 (mm booted)" and "dirs_ok example_symtab (mm booted)"
    and "current booted = task example_symtab 1"
    and "dir_pages_baseAddr (tasks booted (current booted)) = dir_pages example_symtab 1"
    and "heap_pointer_proc (tasks booted (current booted)) = of_nat INIT_HEAP"
    and "heap_start_proc (tasks booted (current booted)) = of_nat INIT_HEAP"
    and "card (avail (mm booted)) = 356" and "NUM_PAG_KERNEL \<notin> avail (mm booted)"
proof -
  have m: "mm booted = mm (init_kernel example_symtab zero_kstate)"
    "tasks booted = tasks (init_kernel example_symtab zero_kstate)" by (simp_all add: booted_def kernel_entry_def)
  show c: "current booted = task example_symtab 1"
    using booted_rel by (simp add: sched_rel_def boot_abs_def)
  have "length (phys_mem (mm zero_kstate)) = TOTAL_PAGES" by (simp add: zero_kstate_def)
  note b = boot_mm [OF example_symtab_ok this, folded m]
  show "frames_wf (mm booted)" and d: "boot_frames 28 (mm booted)" and "dirs_ok example_symtab (mm booted)"
    using b by (simp_all add: NUM_PAG_CODE_def NUM_PAG_DATA_def)
  show "dir_pages_baseAddr (tasks booted (current booted)) = dir_pages example_symtab 1"
    "heap_pointer_proc (tasks booted (current booted)) = of_nat INIT_HEAP"
    "heap_start_proc (tasks booted (current booted)) = of_nat INIT_HEAP" using b(4-6) c by simp_all
  show "card (avail (mm booted)) = 356" "NUM_PAG_KERNEL \<notin> avail (mm booted)"
    by (rule avail_boot_frames [OF d])+
qed

end
