(* ===== verification/Zeos_Sys.thy ===== *)
theory Zeos_Sys
  imports Zeos_Memory Zeos_Sem Zeos_Keyboard
begin

text \<open>
  The system calls of \<open>sys.c\<close> other than the semaphores. A call returns the value of the C
  function and the new state; calls that touch user memory return \<open>None\<close> for a page fault, and
  calls with a loop that need not end return \<open>None\<close> when it does not.
\<close>

section \<open>Simple calls\<close>

definition LECTURA :: int where "LECTURA = 0"
definition ESCRIPTURA :: int where "ESCRIPTURA = 1"

definition check_fd :: "int \<Rightarrow> int \<Rightarrow> int" where
  "check_fd fd permissions = (if fd \<noteq> 1 then - EBADF else if permissions \<noteq> ESCRIPTURA then - EACCES else 0)"

definition user_to_system :: "kstate \<Rightarrow> kstate" where
  "user_to_system s = charge_user (current s) s"

definition system_to_user :: "kstate \<Rightarrow> kstate" where
  "system_to_user s = charge_system (current s) s"

definition sys_ni_syscall :: "kstate \<Rightarrow> int \<times> kstate" where
  "sys_ni_syscall s = (- ENOSYS, s)"

definition sys_getpid :: "kstate \<Rightarrow> int \<times> kstate" where
  "sys_getpid s = (PID (tasks s (current s)), s)"

definition sys_gettime :: "kstate \<Rightarrow> int \<times> kstate" where
  "sys_gettime s = (zeos_ticks s, s)"

definition sys_yield :: "symtab \<Rightarrow> kstate \<Rightarrow> int \<times> kstate" where
  "sys_yield L s = (0, force_task_switch L s)"

definition sys_getKey :: "ptr \<Rightarrow> kstate \<Rightarrow> (int \<times> kstate) option" where
  "sys_getKey b s =
     (if Bwritten (cBuffer s) = 0 then Some (0, s)
      else if b = 0 then Some (- EINVAL, s)
      else if \<not> access_ok VERIFY_WRITE b 1 None then Some (- EFAULT, s)
      else case take_key (cBuffer s) of (c, kb) \<Rightarrow>
        Option.bind (put_byte b c s) (\<lambda>s. Some (1, s\<lparr>cBuffer := kb\<rparr>)))"

definition con_call :: "(console \<Rightarrow> int \<times> console) \<Rightarrow> kstate \<Rightarrow> int \<times> kstate" where
  "con_call f s = (case f (con s) of (r, c) \<Rightarrow> (r, s\<lparr>con := c\<rparr>))"

definition sys_gotoXY :: "int \<Rightarrow> int \<Rightarrow> kstate \<Rightarrow> int \<times> kstate" where
  "sys_gotoXY posX posY s = con_call (cursor_move posX posY) s"

definition sys_SetColor :: "int \<Rightarrow> int \<Rightarrow> kstate \<Rightarrow> int \<times> kstate" where
  "sys_SetColor color background s = con_call (asthetic_change color background) s"

text \<open>
  The bytes of a sprite that \<open>spriteDraw\<close> reads: the structure, once the pointer and the position
  have passed their checks, and the content up to the first zero.
\<close>

definition sprite_read_len :: "(ptr \<Rightarrow> Byte) \<Rightarrow> ptr \<Rightarrow> nat" where
  "sprite_read_len um sp =
     (let n = nat (sprite_x um sp * sprite_y um sp)
      in min n (Suc (length (takeWhile (\<lambda>k. um (sprite_content um sp + of_nat k) \<noteq> 0) [0..<n]))))"

definition sprite_faults :: "int \<Rightarrow> int \<Rightarrow> ptr \<Rightarrow> kstate \<Rightarrow> bool" where
  "sprite_faults posX posY sp s \<longleftrightarrow>
     (let um = user_view s in
      access_ok 0 sp 12 None \<and> 0 \<le> posY \<and> posY < int NUM_ROWS \<and> 0 \<le> posX \<and> posX < int NUM_COLUMNS \<and>
      sp \<noteq> 0 \<and>
      (\<not> mapped (mm s) sp 12 \<or>
       sprite_content um sp \<noteq> 0 \<and> 0 < sprite_x um sp \<and> sprite_x um sp \<le> int NUM_ROWS \<and>
       0 < sprite_y um sp \<and> sprite_y um sp \<le> int NUM_COLUMNS \<and>
       \<not> mapped (mm s) (sprite_content um sp) (sprite_read_len um sp)))"

definition sys_spritePut :: "int \<Rightarrow> int \<Rightarrow> ptr \<Rightarrow> kstate \<Rightarrow> (int \<times> kstate) option" where
  "sys_spritePut posX posY sp s =
     (if sprite_faults posY posX sp s then None
      else Some (con_call (spriteDraw posY posX sp (user_view s)) s))"

section \<open>Writing\<close>

definition TAM_BUFFER :: nat where "TAM_BUFFER = 512"

text \<open>The loop of \<open>sys_write\<close>; \<open>localbuffer\<close> is the address of its local buffer on the kernel stack.\<close>

function write_loop :: "ptr \<Rightarrow> ptr \<Rightarrow> int \<Rightarrow> kstate \<Rightarrow> (ptr \<times> int \<times> kstate) option" where
  "write_loop localbuffer buff bytes_left s =
     (if bytes_left > int TAM_BUFFER then
        Option.bind (vm_copy_from_user buff localbuffer TAM_BUFFER s) (\<lambda>s.
          case sys_write_console (\<lambda>i. user_view s (localbuffer + word_of_int i)) (int TAM_BUFFER) (con s) of
            (ret, c) \<Rightarrow> write_loop localbuffer (buff + word_of_int ret) (bytes_left - ret) (s\<lparr>con := c\<rparr>))
      else Some (buff, bytes_left, s))"
  by pat_completeness auto
termination
  by (relation "measure (\<lambda>(lb, b, n, s). nat n)") (auto simp: sys_write_console_def TAM_BUFFER_def)

declare write_loop.simps [simp del]

definition sys_write :: "ptr \<Rightarrow> int \<Rightarrow> ptr \<Rightarrow> int \<Rightarrow> kstate \<Rightarrow> (int \<times> kstate) option" where
  "sys_write localbuffer fd buff nbytes s =
     (let ret = check_fd fd ESCRIPTURA in
      if ret \<noteq> 0 then Some (ret, s)
      else if nbytes < 0 then Some (- EINVAL, s)
      else if \<not> access_ok VERIFY_READ buff (word_of_int nbytes) None then Some (- EFAULT, s)
      else Option.bind (write_loop localbuffer buff nbytes s) (\<lambda>(buff, bytes_left, s).
        if bytes_left > 0 then
          Option.bind (vm_copy_from_user buff localbuffer (nat bytes_left) s) (\<lambda>s.
            case sys_write_console (\<lambda>i. user_view s (localbuffer + word_of_int i)) bytes_left (con s) of
              (ret, c) \<Rightarrow> Some (nbytes - (bytes_left - ret), s\<lparr>con := c\<rparr>))
        else Some (nbytes - bytes_left, s)))"

section \<open>Statistics\<close>

primrec get_stats_loop :: "symtab \<Rightarrow> nat list \<Rightarrow> int \<Rightarrow> ptr \<Rightarrow> kstate \<Rightarrow> (int \<times> kstate) option" where
  "get_stats_loop L [] pid st s = Some (- ESRCH, s)"
| "get_stats_loop L (i # is) pid st s =
     (if PID (tasks s (task L i)) = pid then
        let s = upd_task (task L i)
              (\<lambda>T. T\<lparr>p_stats := (p_stats T)\<lparr>remaining_ticks := dword_of_int (remaining_quantum s)\<rparr>\<rparr>) s
        in Option.bind (put_bytes st (stats_bytes (p_stats (tasks s (task L i)))) s) (\<lambda>s. Some (0, s))
      else get_stats_loop L is pid st s)"

definition sys_get_stats :: "symtab \<Rightarrow> int \<Rightarrow> ptr \<Rightarrow> kstate \<Rightarrow> (int \<times> kstate) option" where
  "sys_get_stats L pid st s =
     (if \<not> access_ok VERIFY_WRITE st 28 None then Some (- EFAULT, s)
      else if pid < 0 then Some (- EINVAL, s)
      else get_stats_loop L [0..<NR_TASKS] pid st s)"

section \<open>Interrupt handlers\<close>

text \<open>The routines of \<open>interrupt.c\<close> and the calls \<open>entry.S\<close> makes around them. \<open>zeos_show_clock\<close> is library
  code that draws on the screen, the parameter \<open>show_clock\<close>.\<close>

definition clock_routine :: "symtab \<Rightarrow> (console \<Rightarrow> console) \<Rightarrow> kstate \<Rightarrow> kstate" where
  "clock_routine L show_clock s =
     (let s = upd_con show_clock s;
          s = s\<lparr>zeos_ticks := wrap32 (zeos_ticks s + 1)\<rparr>
      in schedule L s)"

definition clock_handler :: "symtab \<Rightarrow> (console \<Rightarrow> console) \<Rightarrow> kstate \<Rightarrow> kstate" where
  "clock_handler L show_clock s = system_to_user (clock_routine L show_clock (user_to_system s))"

definition keyboard_handler :: "(nat \<Rightarrow> Byte) \<Rightarrow> Byte \<Rightarrow> kstate \<Rightarrow> kstate" where
  "keyboard_handler beyond c s =
     (let s = user_to_system s
      in system_to_user (s\<lparr>cBuffer := keyboard_routine beyond c (cBuffer s)\<rparr>))"

section \<open>The bytes a write prints\<close>

definition bytes_at :: "kstate \<Rightarrow> ptr \<Rightarrow> nat \<Rightarrow> Byte list" where
  "bytes_at s a n = map (\<lambda>k. user_view s (a + of_nat k)) [0..<n]"

text \<open>The user buffer and the local buffer of \<open>sys_write\<close> are mapped and share no byte.\<close>

definition write_ready :: "mm_state \<Rightarrow> ptr \<Rightarrow> ptr \<Rightarrow> nat \<Rightarrow> bool" where
  "write_ready m lb buff n \<longleftrightarrow> mapped m buff n \<and> mapped m lb TAM_BUFFER \<and>
     (\<forall>i<TAM_BUFFER. \<forall>j<TAM_BUFFER. to_phys m (lb + of_nat i) = to_phys m (lb + of_nat j) \<longrightarrow> i = j) \<and>
     (\<forall>k<n. \<forall>i<TAM_BUFFER. to_phys m (lb + of_nat i) \<noteq> to_phys m (buff + of_nat k))"

lemma ptr_shift: "(a :: ptr) + of_nat k + of_nat i = a + of_nat (k + i)"
  by (simp add: add.assoc)

lemma bytes_at_append: "bytes_at s a (k + n) = bytes_at s a k @ bytes_at s (a + of_nat k) n"
proof -
  have "[0..<k + n] = [0..<k] @ [k..<k + n]" by (rule upt_add_eq_append) simp
  also have "[k..<k + n] = map (\<lambda>i. k + i) [0..<n]" using map_add_upt [of k n] unfolding add.commute [of _ k] by simp
  finally show ?thesis unfolding bytes_at_def ptr_shift by (simp add: comp_def del: of_nat_add)
qed

lemma write_ready_shift: "write_ready m lb buff (k + n) \<Longrightarrow> write_ready m lb (buff + of_nat k) n"
  unfolding write_ready_def mapped_def ptr_shift by (meson nat_add_left_cancel_less)

lemma sys_write_console_bytes:
  "sys_write_console (\<lambda>i. user_view s (a + word_of_int i)) (int n) c = (int n, fold printc (bytes_at s a n) c)"
  by (simp add: sys_write_console_fold bytes_at_def)

lemma write_chunk:
  assumes w: "write_ready (mm s) lb buff n" and k: "k \<le> n" "k \<le> TAM_BUFFER"
  obtains r where "vm_copy_from_user buff lb k s = Some (s\<lparr>ram := r\<rparr>)"
    "bytes_at (s\<lparr>ram := r\<rparr>) lb k = bytes_at s buff k"
    "\<forall>j<n. user_view (s\<lparr>ram := r\<rparr>) (buff + of_nat j) = user_view s (buff + of_nat j)"
proof -
  let ?r = "copy_data (paged_rd (mm s)) (paged_wr (mm s)) buff lb (int k) (ram s)"
  have ap: "paged.apart (mm s) buff lb k" using w k unfolding write_ready_def paged.apart_def by (meson order_less_le_trans)
  note c = paged.copy_data_copied [OF ap, of "ram s"]
  have "mapped (mm s) buff k" "mapped (mm s) lb k" using w k by (auto simp: write_ready_def mapped_def)
  then have "vm_copy_from_user buff lb k s = Some (s\<lparr>ram := ?r\<rparr>)"
    by (simp add: vm_copy_from_user_def copy_from_user_def copy_data_def split: prod.splits)
  moreover have "bytes_at (s\<lparr>ram := ?r\<rparr>) lb k = bytes_at s buff k"
    using c by (simp add: bytes_at_def user_view_def paged.copied_def)
  moreover have "user_view (s\<lparr>ram := ?r\<rparr>) (buff + of_nat j) = user_view s (buff + of_nat j)" if "j < n" for j
  proof -
    have "\<forall>i<k. to_phys (mm s) (buff + of_nat j) \<noteq> to_phys (mm s) (lb + of_nat i)"
      using w k(2) that unfolding write_ready_def by (metis order_less_le_trans)
    then show ?thesis using c by (simp add: user_view_def paged.copied_def)
  qed
  ultimately show thesis using that by blast
qed

lemma write_loop_spec:
  "write_ready (mm s) lb buff n \<Longrightarrow> \<exists>n' r. n' \<le> n \<and> n' \<le> TAM_BUFFER \<and>
     write_loop lb buff (int n) s = Some (buff + of_nat (n - n'), int n',
       s\<lparr>con := fold printc (bytes_at s buff (n - n')) (con s), ram := r\<rparr>) \<and>
     bytes_at (s\<lparr>ram := r\<rparr>) (buff + of_nat (n - n')) n' = bytes_at s (buff + of_nat (n - n')) n'"
proof (induction n arbitrary: buff s rule: less_induct)
  case (less n)
  show ?case
  proof (cases "n \<le> TAM_BUFFER")
    case True
    then show ?thesis by (intro exI [of _ n] exI [of _ "ram s"]) (simp add: write_loop.simps bytes_at_def)
  next
    case False
    let ?k = "TAM_BUFFER"
    obtain m where m: "n = ?k + m" using False by (metis le_Suc_ex nat_le_linear)
    have k0: "0 < ?k" by (simp add: TAM_BUFFER_def)
    obtain r where r: "vm_copy_from_user buff lb ?k s = Some (s\<lparr>ram := r\<rparr>)"
      "bytes_at (s\<lparr>ram := r\<rparr>) lb ?k = bytes_at s buff ?k"
      "\<forall>j<n. user_view (s\<lparr>ram := r\<rparr>) (buff + of_nat j) = user_view s (buff + of_nat j)"
      by (rule write_chunk [OF less.prems, of ?k]) (use False in auto)
    let ?s1 = "s\<lparr>ram := r, con := fold printc (bytes_at s buff ?k) (con s)\<rparr>" and ?b = "buff + of_nat ?k"
    have step: "write_loop lb buff (int n) s = write_loop lb ?b (int m) ?s1"
      using False r(1,2) by (subst write_loop.simps) (simp add: m sys_write_console_bytes)
    have "\<exists>n' r'. n' \<le> m \<and> n' \<le> ?k \<and> write_loop lb ?b (int m) ?s1 = Some (?b + of_nat (m - n'), int n',
          ?s1\<lparr>con := fold printc (bytes_at ?s1 ?b (m - n')) (con ?s1), ram := r'\<rparr>) \<and>
        bytes_at (?s1\<lparr>ram := r'\<rparr>) (?b + of_nat (m - n')) n' = bytes_at ?s1 (?b + of_nat (m - n')) n'"
      by (rule less.IH) (use write_ready_shift [of "mm s" lb buff ?k m] less.prems m k0 in simp_all)
    then obtain n' r' where n': "n' \<le> m" "n' \<le> ?k" "write_loop lb ?b (int m) ?s1 = Some (?b + of_nat (m - n'), int n',
          ?s1\<lparr>con := fold printc (bytes_at ?s1 ?b (m - n')) (con ?s1), ram := r'\<rparr>)"
      "bytes_at (?s1\<lparr>ram := r'\<rparr>) (?b + of_nat (m - n')) n' = bytes_at ?s1 (?b + of_nat (m - n')) n'" by blast
    have sub: "bytes_at ?s1 (buff + of_nat i) j = bytes_at s (buff + of_nat i) j" if "i + j \<le> n" for i j
      unfolding bytes_at_def ptr_shift using r(3) that by (simp add: user_view_def del: of_nat_add)
    have d: "n - n' = ?k + (m - n')" using n'(1) m by simp
    have e: "?b + of_nat (m - n') = buff + of_nat (n - n')" unfolding d by (simp add: add.assoc)
    have f: "fold printc (bytes_at ?s1 ?b (m - n')) (con ?s1) = fold printc (bytes_at s buff (n - n')) (con s)"
      unfolding d bytes_at_append using sub [of ?k "m - n'"] m by simp
    have g: "bytes_at (s\<lparr>ram := r'\<rparr>) a i = bytes_at (?s1\<lparr>ram := r'\<rparr>) a i" for a i by (simp add: bytes_at_def user_view_def)
    have st: "?s1\<lparr>con := x, ram := r'\<rparr> = s\<lparr>con := x, ram := r'\<rparr>" for x by simp
    have 1: "write_loop lb buff (int n) s = Some (buff + of_nat (n - n'), int n',
       s\<lparr>con := fold printc (bytes_at s buff (n - n')) (con s), ram := r'\<rparr>)"
      unfolding step using n'(3) unfolding e f st .
    have 2: "bytes_at (s\<lparr>ram := r'\<rparr>) (buff + of_nat (n - n')) n' = bytes_at s (buff + of_nat (n - n')) n'"
      by (rule trans [OF g trans [OF n'(4) [unfolded e] sub]]) (use n'(1) m in simp)
    show ?thesis by (intro exI [of _ n'] exI [of _ r'] conjI 1 2 n'(2)) (use n'(1) m in simp)
  qed
qed

lemma sys_write_prints:
  assumes w: "write_ready (mm s) lb buff n" and ok: "access_ok VERIFY_READ buff (of_nat n) None"
  shows "\<exists>r. sys_write lb 1 buff (int n) s = Some (int n, s\<lparr>con := fold printc (bytes_at s buff n) (con s), ram := r\<rparr>)"
proof -
  obtain n' r where l: "n' \<le> n" "n' \<le> TAM_BUFFER" "write_loop lb buff (int n) s = Some (buff + of_nat (n - n'), int n',
       s\<lparr>con := fold printc (bytes_at s buff (n - n')) (con s), ram := r\<rparr>)"
     "bytes_at (s\<lparr>ram := r\<rparr>) (buff + of_nat (n - n')) n' = bytes_at s (buff + of_nat (n - n')) n'"
    using write_loop_spec [OF w] by blast
  let ?s1 = "s\<lparr>con := fold printc (bytes_at s buff (n - n')) (con s), ram := r\<rparr>" and ?b = "buff + of_nat (n - n')"
  have "write_ready (mm ?s1) lb ?b n'" using write_ready_shift [of "mm s" lb buff "n - n'" n'] w l(1) by simp
  then obtain r' where r': "vm_copy_from_user ?b lb n' ?s1 = Some (?s1\<lparr>ram := r'\<rparr>)" "bytes_at (?s1\<lparr>ram := r'\<rparr>) lb n' = bytes_at ?s1 ?b n'"
    by (rule write_chunk [OF _ order_refl l(2)])
  have "bytes_at ?s1 ?b n' = bytes_at s ?b n'" using l(4) by (simp add: bytes_at_def user_view_def)
  moreover have "bytes_at s buff n = bytes_at s buff (n - n') @ bytes_at s ?b n'"
    using bytes_at_append [of s buff "n - n'" n'] l(1) by simp
  ultimately have f: "fold printc (bytes_at (?s1\<lparr>ram := r'\<rparr>) lb n') (con ?s1) = fold printc (bytes_at s buff n) (con s)"
    using r'(2) by simp
  show ?thesis
  proof (cases "n' = 0")
    case True
    then show ?thesis using l ok by (intro exI [of _ r]) (simp add: sys_write_def check_fd_def ESCRIPTURA_def Let_def)
  next
    case False
    then show ?thesis using l ok r'(1) f
      by (intro exI [of _ r']) (simp add: sys_write_def check_fd_def ESCRIPTURA_def Let_def sys_write_console_bytes)
  qed
qed

text \<open>Two blocks below 4 MB whose pages are present and in different frames.\<close>

lemma write_ready_task:
  assumes L: "symtab_ok L" "dirs_ok L m" "i < NR_TASKS" "cr3 m = dir_pages L i"
    and b: "unat lb + TAM_BUFFER \<le> unat buff" "unat buff + n \<le> TOTAL_PAGES * 4096"
    and p: "\<forall>r \<in> block_pages buff n \<union> block_pages lb TAM_BUFFER. pte_present (pte_of L i m r)"
    and inj: "inj_on (\<lambda>r. pbase_addr (pte_of L i m r)) (block_pages buff n \<union> block_pages lb TAM_BUFFER)"
  shows "write_ready m lb buff n"
proof -
  let ?S = "block_pages buff n \<union> block_pages lb TAM_BUFFER"
  have lim: "unat lb + TAM_BUFFER \<le> TOTAL_PAGES * 4096" "unat lb + TAM_BUFFER \<le> 2 ^ 32" "unat buff + n \<le> 2 ^ 32"
    using b by (simp_all add: TOTAL_PAGES_def)
  note B = block_page [OF lim(3)] and C = block_page [OF lim(2)]
  have inS: "unat (buff + of_nat k) div 4096 \<in> ?S" "unat (buff + of_nat k) < TOTAL_PAGES * 4096" if "k < n" for k
    using B [OF that] that b by auto
  have inS': "unat (lb + of_nat k) div 4096 \<in> ?S" "unat (lb + of_nat k) < TOTAL_PAGES * 4096" if "k < TAM_BUFFER" for k
    using C [OF that] that lim(1) by auto
  note toinj = to_phys_inject [OF L _ _ _ _ p inj]
  have "mapped m buff n" "mapped m lb TAM_BUFFER"
    using p by (auto intro!: mapped_task [OF L] b lim simp: block_pages_def)
  moreover have "j = k" if "j < TAM_BUFFER" "k < TAM_BUFFER" "to_phys m (lb + of_nat j) = to_phys m (lb + of_nat k)" for j k
  proof -
    have "lb + of_nat j = lb + of_nat k"
      by (rule toinj [OF inS'(2) [OF that(1)] inS'(2) [OF that(2)] inS'(1) [OF that(1)] inS'(1) [OF that(2)] that(3)])
    then have "unat lb + j = unat lb + k" using C(1) [OF that(1)] C(1) [OF that(2)] by (simp only:)
    then show ?thesis by simp
  qed
  moreover have "to_phys m (lb + of_nat j) \<noteq> to_phys m (buff + of_nat k)" if "j < TAM_BUFFER" "k < n" for j k
  proof
    assume "to_phys m (lb + of_nat j) = to_phys m (buff + of_nat k)"
    then have "lb + of_nat j = buff + of_nat k"
      by (rule toinj [OF inS'(2) [OF that(1)] inS(2) [OF that(2)] inS'(1) [OF that(1)] inS(1) [OF that(2)]])
    then have "unat lb + j = unat buff + k" using B(1) [OF that(2)] C(1) [OF that(1)] by (simp only:)
    then show False using b(1) that(1) by linarith
  qed
  ultimately show ?thesis by (simp add: write_ready_def)
qed

section \<open>Properties\<close>

text \<open>C30: \<open>sys_write\<close>. With a good descriptor and a readable buffer it prints exactly the bytes of the user buffer, in
  order, however many times it has to fill its local buffer, returns their number, and changes
  nothing but the console and its local buffer. A bad descriptor, a negative size and a bad buffer are
  refused, in this order, and nothing changes.\<close>

theorem sys_write_spec:
  "(write_ready (mm s) lb buff n \<and> access_ok VERIFY_READ buff (of_nat n) None \<longrightarrow>
      (\<exists>r. sys_write lb 1 buff (int n) s = Some (int n, s\<lparr>con := fold printc (bytes_at s buff n) (con s), ram := r\<rparr>))) \<and>
   (fd \<noteq> 1 \<longrightarrow> sys_write lb fd buff nb s = Some (- EBADF, s)) \<and>
   (nb < 0 \<longrightarrow> sys_write lb 1 buff nb s = Some (- EINVAL, s)) \<and>
   (0 \<le> nb \<and> \<not> access_ok VERIFY_READ buff (word_of_int nb) None \<longrightarrow> sys_write lb 1 buff nb s = Some (- EFAULT, s))"
  using sys_write_prints [of s lb buff n] by (auto simp: sys_write_def check_fd_def ESCRIPTURA_def EBADF_def)

theorem sys_write_spec_witness:
  "\<exists>r. sys_write 0x22800 1 (of_nat (264 * 4096)) 600 booted =
     Some (600, booted\<lparr>con := fold printc (bytes_at booted (of_nat (264 * 4096)) 600) (con booted), ram := r\<rparr>)"
proof -
  let ?L = "example_symtab" and ?b = "of_nat (264 * 4096) :: ptr"
  have m: "mm booted = mm (init_kernel ?L zero_kstate)" by (simp add: booted_def kernel_entry_def)
  have e: "pte_of ?L 1 (mm booted) p = boot_pte ?L p" if "p < TOTAL_PAGES" for p
    unfolding m by (rule boot_ptes [OF example_symtab_ok _ that]) (simp add: zero_kstate_def)
  have bp: "block_pages ?b 600 \<union> block_pages 0x22800 TAM_BUFFER = {264, 34}"
    by (auto simp: block_pages_def TAM_BUFFER_def)
  have g: "\<not> guard_page ?L 34"
    by (simp add: guard_page_def protected_tasks_def example_symtab_def PAGE_SIZE_def NR_TASKS_def)
  have "write_ready (mm booted) 0x22800 ?b 600"
  proof (rule write_ready_task [OF example_symtab_ok booted_mm(3), of 1])
    show "cr3 (mm booted) = dir_pages ?L 1" using sched_relD(10) [OF booted_rel] booted_mm(5) by simp
    show "\<forall>r\<in>block_pages ?b 600 \<union> block_pages 0x22800 TAM_BUFFER. pte_present (pte_of ?L 1 (mm booted) r)"
      unfolding bp using g by (simp add: e [unfolded One_nat_def] boot_pte_def layout_consts kernel_pte_def)
    show "inj_on (\<lambda>r. pbase_addr (pte_of ?L 1 (mm booted) r)) (block_pages ?b 600 \<union> block_pages 0x22800 TAM_BUFFER)"
      unfolding bp using g by (simp add: e [unfolded One_nat_def] boot_pte_def layout_consts kernel_pte_def)
  qed (simp_all add: NR_TASKS_def TAM_BUFFER_def TOTAL_PAGES_def)
  moreover have "access_ok VERIFY_READ ?b (of_nat 600) None"
    by (simp add: access_ok_def Let_def layout_consts drop_bit_eq_div VERIFY_READ_def VERIFY_WRITE_def)
  ultimately show ?thesis using sys_write_spec [of booted "0x22800" ?b 600] by simp
qed

end
