(* ===== verification/Zeos_Process.thy ===== *)
theory Zeos_Process
  imports Zeos_Memory Zeos_Sem
begin

text \<open>
  The system calls of \<open>sys.c\<close> that create and end processes and threads and that move the heap
  limit: \<open>sys_fork\<close>, \<open>sys_exit\<close>, \<open>sys_threadCreate\<close>, \<open>sys_threadExit\<close> and \<open>sys_sbrk\<close>. Loops whose
  end depends on pointer arithmetic are partial functions; \<open>None\<close> stands for a page fault or for
  a loop that does not end.
\<close>

section \<open>Heap\<close>

text \<open>\<open>current()->heap_pointer_proc\<close>, and its assignment.\<close>

definition cur_heap :: "kstate \<Rightarrow> ptr" where
  "cur_heap s = heap_pointer_proc (tasks s (current s))"

definition move_heap :: "(ptr \<Rightarrow> ptr) \<Rightarrow> kstate \<Rightarrow> kstate" where
  "move_heap f s = upd_task (current s) (\<lambda>T. T\<lparr>heap_pointer_proc := f (heap_pointer_proc T)\<rparr>) s"

definition page_of :: "ptr \<Rightarrow> DWord" where
  "page_of a = a div of_nat PAGE_SIZE"

text \<open>Division of C integers truncates.\<close>

definition cdiv :: "int \<Rightarrow> int \<Rightarrow> int" where
  "cdiv a b = (if 0 \<le> a then a div b else - ((- a) div b))"

partial_function (option) sbrk_unwind :: "ptr \<Rightarrow> ptr \<Rightarrow> kstate \<Rightarrow> kstate option" where
  "sbrk_unwind PT old_pointer s =
     (if cur_heap s > old_pointer then
        let s = move_heap (\<lambda>p. p - of_nat PAGE_SIZE) s;
            s = upd_mm (free_frame (get_frame PT (page_of (cur_heap s)) (mm s))) s;
            s = upd_mm (del_ss_pag PT (page_of (cur_heap s))) s
        in sbrk_unwind PT old_pointer s
      else Some s)"

partial_function (option) sbrk_grow :: "ptr \<Rightarrow> ptr \<Rightarrow> ptr \<Rightarrow> kstate \<Rightarrow> (ptr \<times> kstate) option" where
  "sbrk_grow PT old_pointer new_pointer s =
     (if cur_heap s < new_pointer then
        if cur_heap s mod of_nat PAGE_SIZE = 0 then
          case alloc_frame (mm s) of (new_ph_pg, m) \<Rightarrow>
            let s = s\<lparr>mm := m\<rparr> in
            if new_ph_pg = -1 then Option.bind (sbrk_unwind PT old_pointer s) (\<lambda>s. Some (0, s))
            else
              let s = upd_mm (set_ss_pag PT (page_of (cur_heap s)) (dword_of_int new_ph_pg)) s
              in sbrk_grow PT old_pointer new_pointer (move_heap (\<lambda>p. p + of_nat PAGE_SIZE) s)
        else sbrk_grow PT old_pointer new_pointer (move_heap (\<lambda>p. p + of_nat PAGE_SIZE) s)
      else Some (old_pointer, s))"

partial_function (option) sbrk_shrink :: "ptr \<Rightarrow> ptr \<Rightarrow> kstate \<Rightarrow> kstate option" where
  "sbrk_shrink PT new_pointer s =
     (if cur_heap s > new_pointer then
        let s = (if cur_heap s mod of_nat PAGE_SIZE = 0 \<and> cur_heap s > of_nat DATA_END then
                   let s = upd_mm (del_ss_pag PT (page_of (cur_heap s))) s
                   in upd_mm (free_frame (get_frame PT (page_of (cur_heap s)) (mm s))) s
                 else s)
        in sbrk_shrink PT new_pointer (move_heap (\<lambda>p. p - of_nat PAGE_SIZE) s)
      else Some s)"

definition sys_sbrk :: "int \<Rightarrow> kstate \<Rightarrow> (ptr \<times> kstate) option" where
  "sys_sbrk sz s =
     (if sz = 0 then Some (cur_heap s, s)
      else
        let old_pointer = cur_heap s;
            new_pointer = old_pointer + word_of_int sz;
            PT = get_PT (current s) s
        in if new_pointer < of_nat INIT_HEAP then Some (0, s)
           else if sz > 0 then
             let p_log_nec = cdiv (wrap32 (sz + int PAGE_SIZE - 1)) (int PAGE_SIZE);
                 paginas_reservadas =
                   cdiv (int_of_dword (cur_heap s - heap_start_proc (tasks s (current s)))) (int PAGE_SIZE)
             in if wrap32 (int NUM_PAG_CODE + 2 * int NUM_PAG_DATA + int NUM_PAG_KERNEL + p_log_nec + paginas_reservadas)
                   > int TOTAL_PAGES then Some (0, s)
                else sbrk_grow PT old_pointer new_pointer s
           else Option.bind (sbrk_shrink PT new_pointer s) (\<lambda>s. Some (old_pointer, s)))"

section \<open>Exit\<close>

text \<open>The loops that release the data pages and the heap of a process.\<close>

definition release_data :: "ptr \<Rightarrow> nat list \<Rightarrow> mm_state \<Rightarrow> mm_state" where
  "release_data PT is m =
     fold (\<lambda>i m.
         let m = free_frame (get_frame PT (of_nat (PAG_LOG_INIT_DATA + i)) m) m
         in del_ss_pag PT (of_nat (PAG_LOG_INIT_DATA + i)) m) is m"

partial_function (option) release_heap :: "ptr \<Rightarrow> kstate \<Rightarrow> kstate option" where
  "release_heap PT s =
     (if cur_heap s < heap_start_proc (tasks s (current s)) then
        let s = upd_mm (free_frame (get_frame PT (page_of (cur_heap s)) (mm s))) s;
            s = upd_mm (del_ss_pag PT (page_of (cur_heap s))) s
        in release_heap PT (move_heap (\<lambda>p. p - of_nat PAGE_SIZE) s)
      else Some s)"

definition sys_exit :: "symtab \<Rightarrow> kstate \<Rightarrow> kstate option" where
  "sys_exit L s =
     (let process_PT = get_PT (current s) s;
          s = upd_mm (release_data process_PT [0..<NUM_PAG_DATA]) s
      in Option.bind (release_heap process_PT s) (\<lambda>s.
        let s = upd_links (list_add_tail (tnode (current s)) (freequeue L)) s;
            s = upd_task (current s) (\<lambda>T. T\<lparr>PID := -1\<rparr>) s
        in Some (sched_next_rr L s)))"

definition sys_threadExit :: "symtab \<Rightarrow> kstate \<Rightarrow> kstate" where
  "sys_threadExit L s =
     (let process_PT = get_PT (current s) s;
          s = upd_mm (free_frame (get_frame process_PT (page_of (cur_heap s)) (mm s))) s;
          s = upd_mm (del_ss_pag process_PT (page_of (cur_heap s))) s;
          s = move_heap (\<lambda>p. p - of_nat PAGE_SIZE) s;
          s = upd_links (list_add_tail (tnode (current s)) (freequeue L)) s
      in sched_next_rr L s)"

section \<open>Copying a task\<close>

text \<open>\<open>copy_data(current(), uchild, sizeof(union task_union))\<close>: the structure, its list node and the
  kernel stack.\<close>

definition copy_task :: "ptr \<Rightarrow> ptr \<Rightarrow> kstate \<Rightarrow> kstate" where
  "copy_task t child s =
     s\<lparr>tasks := (tasks s)(child := tasks s t),
       links := (links s)(tnode child := links s (tnode t)),
       kstack := (\<lambda>a. if unat child \<le> unat a \<and> unat a < unat child + PAGE_SIZE
                      then kstack s (a - child + t) else kstack s a)\<rparr>"

section \<open>Threads\<close>

definition task_heap :: "kstate \<Rightarrow> (ptr \<times> ptr) option" where
  "task_heap s = Some (heap_start_proc (tasks s (current s)), heap_end_proc (tasks s (current s)))"

definition sys_threadCreate :: "symtab \<Rightarrow> ptr \<Rightarrow> ptr \<Rightarrow> ptr \<Rightarrow> kstate \<Rightarrow> (int \<times> kstate) option" where
  "sys_threadCreate L func parameter wrapp s =
     (if \<not> access_ok VERIFY_READ func 4 (task_heap s) then Some (- EFAULT, s)
      else if parameter \<noteq> 0 \<and> \<not> access_ok VERIFY_READ parameter 4 (task_heap s) then Some (- EFAULT, s)
      else if \<not> access_ok VERIFY_READ wrapp 4 (task_heap s) then Some (- EFAULT, s)
      else if list_empty (freequeue L) (links s) then Some (- ENOMEM, s)
      else
        let lhcurrent = list_first (freequeue L) (links s);
            s = upd_links (list_del lhcurrent) s;
            uchild = list_head_to_task_struct lhcurrent;
            s = copy_task (current s) uchild s;
            s = s\<lparr>global_TID := wrap32 (global_TID s + 1)\<rparr>;
            s = upd_task uchild (\<lambda>T. T\<lparr>TID := global_TID s\<rparr>) s;
            s = upd_task uchild (\<lambda>T. T\<lparr>PID := PID (tasks s (current s))\<rparr>) s;
            s = upd_task uchild (\<lambda>T. T\<lparr>state := ST_READY\<rparr>) s;
            s = upd_task uchild (\<lambda>T. T\<lparr>semafors := semafors (tasks s (current s))\<rparr>) s;
            pag_heap = page_of (cur_heap s)
        in if int_of_dword pag_heap > int TOTAL_PAGES then Some (-1, s)
           else
             let process_PT = get_PT uchild s
             in case alloc_frame (mm s) of (new_ph_pag, m) \<Rightarrow>
               let s = s\<lparr>mm := m\<rparr> in
               if new_ph_pag = -1 then
                 Option.bind (release_heap process_PT s) (\<lambda>s.
                   Some (- EAGAIN, upd_links (list_add_tail lhcurrent (freequeue L)) s))
               else
                 let s = upd_mm (set_ss_pag process_PT pag_heap (dword_of_int new_ph_pag)) s;
                     s = move_heap (\<lambda>p. p + of_nat PAGE_SIZE) s;
                     us = push_bit 12 pag_heap;
                     s = upd_task uchild (\<lambda>T. T\<lparr>ustack := us\<rparr>) s
                 in Option.bind (put_dword (us + 4 * 1021) 0x777 s) (\<lambda>s.
                    Option.bind (put_dword (us + 4 * 1022) func s) (\<lambda>s.
                    Option.bind (put_dword (us + 4 * 1023) parameter s) (\<lambda>s.
                    let s = put_kstack (stack_slot uchild (KERNEL_STACK_SIZE - 2)) (us + 4 * 1021) s;
                        s = put_kstack (stack_slot uchild (KERNEL_STACK_SIZE - 5)) wrapp s;
                        s = upd_task uchild (\<lambda>T. T\<lparr>register_esp := stack_slot uchild (KERNEL_STACK_SIZE - 18)\<rparr>) s;
                        s = init_stats uchild s;
                        s = upd_links (list_add_tail (tnode uchild) (readyqueue L)) s
                    in Some (TID (tasks s uchild), s)))))"

section \<open>Fork\<close>

text \<open>The loop that allocates the data pages of the child; without a free frame it gives back the
  frames it has taken.\<close>

primrec fork_alloc :: "ptr \<Rightarrow> nat list \<Rightarrow> mm_state \<Rightarrow> bool \<times> mm_state" where
  "fork_alloc PT [] m = (True, m)"
| "fork_alloc PT (pag # pags) m =
     (case alloc_frame m of (new_ph_pag, m) \<Rightarrow>
        if new_ph_pag \<noteq> -1 then
          fork_alloc PT pags (set_ss_pag PT (of_nat (PAG_LOG_INIT_DATA + pag)) (dword_of_int new_ph_pag) m)
        else (False, release_data PT [0..<pag] m))"

text \<open>The loops that share the kernel and code pages of the parent with the child.\<close>

definition fork_share :: "ptr \<Rightarrow> ptr \<Rightarrow> mm_state \<Rightarrow> mm_state" where
  "fork_share process_PT parent_PT m =
     (let m = fold (\<lambda>pag m. set_ss_pag process_PT (of_nat pag) (get_frame parent_PT (of_nat pag) m) m)
                [0..<NUM_PAG_KERNEL] m
      in fold (\<lambda>pag m. set_ss_pag process_PT (of_nat (PAG_LOG_INIT_CODE + pag))
             (get_frame parent_PT (of_nat (PAG_LOG_INIT_CODE + pag)) m) m) [0..<NUM_PAG_CODE] m)"

text \<open>The loop that copies the data pages through a window in the address space of the parent.\<close>

primrec fork_copy :: "ptr \<Rightarrow> ptr \<Rightarrow> nat list \<Rightarrow> kstate \<Rightarrow> kstate option" where
  "fork_copy process_PT parent_PT [] s = Some s"
| "fork_copy process_PT parent_PT (pag # pags) s =
     (let s = upd_mm (set_ss_pag parent_PT (of_nat (pag + NUM_PAG_DATA)) (get_frame process_PT (of_nat pag) (mm s))) s
      in Option.bind (vm_copy (of_nat (pag * 2 ^ 12)) (of_nat ((pag + NUM_PAG_DATA) * 2 ^ 12)) PAGE_SIZE s) (\<lambda>s.
           fork_copy process_PT parent_PT pags (upd_mm (del_ss_pag parent_PT (of_nat (pag + NUM_PAG_DATA))) s)))"

text \<open>The two nested loops over the heap of the parent: \<open>i\<close> runs over the data pages and starts again.\<close>

partial_function (option) fork_heap :: "ptr \<Rightarrow> ptr \<Rightarrow> nat \<Rightarrow> ptr \<Rightarrow> kstate \<Rightarrow> kstate option" where
  "fork_heap process_PT parent_PT i pointer_current_start s =
     (if \<not> pointer_current_start < cur_heap s then Some s
      else if i < NUM_PAG_KERNEL + NUM_PAG_CODE + NUM_PAG_DATA then
        let ph_page = get_frame parent_PT
              (word_of_int (cdiv (int_of_dword pointer_current_start) (int PAGE_SIZE))) (mm s);
            s = upd_mm (set_ss_pag process_PT (of_nat (i + NUM_PAG_DATA)) ph_page) s
        in Option.bind (vm_copy (of_nat (i * 2 ^ 12)) (of_nat ((i + NUM_PAG_DATA) * 2 ^ 12)) PAGE_SIZE s) (\<lambda>s.
             fork_heap process_PT parent_PT (i + 1) (pointer_current_start + of_nat PAGE_SIZE)
               (upd_mm (del_ss_pag parent_PT (of_nat (i + NUM_PAG_DATA))) s))
      else fork_heap process_PT parent_PT (NUM_PAG_KERNEL + NUM_PAG_CODE) pointer_current_start s)"

text \<open>The end of \<open>sys_fork\<close>: \<open>get_ebp\<close> is the frame pointer of \<open>sys_fork\<close>, two words below the stack
  pointer of its caller.\<close>

definition fork_finish :: "symtab \<Rightarrow> ptr \<Rightarrow> kstate \<Rightarrow> int \<times> kstate" where
  "fork_finish L uchild s =
     (let s = upd_mm (set_cr3 (get_DIR (current s) s)) s;
          s = s\<lparr>global_PID := wrap32 (global_PID s + 1)\<rparr>;
          s = upd_task uchild (\<lambda>T. T\<lparr>PID := global_PID s\<rparr>) s;
          s = upd_task uchild (\<lambda>T. T\<lparr>state := ST_READY\<rparr>) s;
          register_ebp = esp s - 8;
          register_ebp = (register_ebp - current s) + uchild;
          s = upd_task uchild (\<lambda>T. T\<lparr>register_esp := register_ebp + 4\<rparr>) s;
          temp_ebp = kstack s register_ebp;
          s = upd_task uchild (\<lambda>T. T\<lparr>register_esp := register_esp T - 4\<rparr>) s;
          s = put_kstack (register_esp (tasks s uchild)) (sym_ret_from_fork L) s;
          s = upd_task uchild (\<lambda>T. T\<lparr>register_esp := register_esp T - 4\<rparr>) s;
          s = put_kstack (register_esp (tasks s uchild)) temp_ebp s;
          s = init_stats uchild s;
          s = upd_task uchild (\<lambda>T. T\<lparr>state := ST_READY\<rparr>) s;
          s = upd_links (list_add_tail (tnode uchild) (readyqueue L)) s
      in (PID (tasks s uchild), s))"

definition sys_fork :: "symtab \<Rightarrow> kstate \<Rightarrow> (int \<times> kstate) option" where
  "sys_fork L s =
     (if list_empty (freequeue L) (links s) then Some (- ENOMEM, s)
      else
        let lhcurrent = list_first (freequeue L) (links s);
            s = upd_links (list_del lhcurrent) s;
            uchild = list_head_to_task_struct lhcurrent;
            s = copy_task (current s) uchild s;
            s = init_sems (semafors (tasks s uchild)) s;
            s = allocate_DIR L uchild s;
            process_PT = get_PT uchild s
        in case fork_alloc process_PT [0..<NUM_PAG_DATA] (mm s) of (ok, m) \<Rightarrow>
          let s = s\<lparr>mm := m\<rparr> in
          if \<not> ok then Some (- EAGAIN, upd_links (list_add_tail lhcurrent (freequeue L)) s)
          else
            let parent_PT = get_PT (current s) s;
                s = upd_mm (fork_share process_PT parent_PT) s
            in Option.bind (fork_copy process_PT parent_PT
                  [NUM_PAG_KERNEL + NUM_PAG_CODE..<NUM_PAG_KERNEL + NUM_PAG_CODE + NUM_PAG_DATA] s) (\<lambda>s.
               Option.bind (fork_heap process_PT parent_PT (NUM_PAG_KERNEL + NUM_PAG_CODE)
                  (heap_start_proc (tasks s (current s))) s) (\<lambda>s.
               Some (fork_finish L uchild s))))"

text \<open>What the child runs first: the scheduler switches to it, and \<open>switch_stack\<close> pops the frame pointer and returns to
  the address \<open>fork_finish\<close> has put above it.\<close>

definition ret_from_fork :: int where
  "ret_from_fork = 0"

text \<open>The registers a process has back after \<open>system_call_handler\<close>; \<open>sysexit\<close> takes the program counter from \<open>edx\<close> and
  the stack pointer from \<open>ecx\<close>.\<close>

record sysexit_regs =
  x_ebx :: DWord
  x_esi :: DWord
  x_edi :: DWord
  x_ebp :: DWord
  x_eax :: DWord
  x_ds :: DWord
  x_es :: DWord
  x_fs :: DWord
  x_gs :: DWord
  x_eip :: DWord
  x_esp :: DWord

text \<open>The end of \<open>system_call_handler\<close> from \<open>sysenter_fin\<close> on, with the stack pointer \<open>sp\<close> on the kernel stack \<open>K\<close> and
  the value of the call in \<open>eax\<close>.\<close>

definition sysenter_fin :: "(ptr \<Rightarrow> DWord) \<Rightarrow> ptr \<Rightarrow> DWord \<Rightarrow> sysexit_regs" where
  "sysenter_fin K sp eax =
     (let K = K(sp + 0x18 := eax)
      in \<lparr>x_ebx = K sp, x_esi = K (sp + 0xC), x_edi = K (sp + 0x10), x_ebp = K (sp + 0x14), x_eax = K (sp + 0x18),
         x_ds = K (sp + 0x1C), x_es = K (sp + 0x20), x_fs = K (sp + 0x24), x_gs = K (sp + 0x28),
         x_eip = K (sp + 0x2C), x_esp = K (sp + 0x38)\<rparr>)"

text \<open>The first run of a task whose saved stack leads to \<open>ret_from_fork\<close>: the address that function returns to, and the
  registers the process has when that is the end of \<open>system_call_handler\<close>.\<close>

definition first_run :: "symtab \<Rightarrow> ptr \<Rightarrow> kstate \<Rightarrow> (DWord \<times> sysexit_regs) option" where
  "first_run L c s =
     (let s = inner_task_switch c s
      in if kstack s (esp s - 4) = sym_ret_from_fork L
         then Some (kstack s (esp s), sysenter_fin (kstack s) (esp s + 4) (dword_of_int ret_from_fork))
         else None)"

section \<open>Releasing pages\<close>

lemma same_restD:
  assumes "same_rest s s'"
  shows "phys_mem (mm s') = phys_mem (mm s)" "ptes (mm s') = ptes (mm s)" "same_task (tasks s u) (tasks s' u)"
    "ram s' = ram s" "kstack s' = kstack s" "sems s' = sems s"
  using assms unfolding same_rest_def by blast+

lemma release_data_unmap:
  "release_data PT is m = fold (unmap_page PT) (map (\<lambda>i. PAG_LOG_INIT_DATA + i) is) m"
  by (simp add: release_data_def unmap_page_def [abs_def] Let_def fold_map comp_def)

lemma distinct_pages [simp]: "distinct (map (\<lambda>i. b + i) [0..<n :: nat])"
  by (simp add: distinct_map)

text \<open>The frames of the data pages of a table.\<close>

definition data_frames :: "ptr \<Rightarrow> mm_state \<Rightarrow> nat set" where
  "data_frames PT m = (\<lambda>p. unat (get_frame PT (of_nat p) m)) ` {PAG_LOG_INIT_DATA..<PAG_LOG_INIT_DATA + NUM_PAG_DATA}"

lemma release_data_frames:
  assumes "length (phys_mem m) = TOTAL_PAGES" "n < TOTAL_PAGES"
  shows "phys_mem (release_data PT [0..<NUM_PAG_DATA] m) ! n =
     (if NUM_PAG_KERNEL < n \<and> n \<in> data_frames PT m then FREE_FRAME else phys_mem m ! n)"
proof -
  let ?ps = "map (\<lambda>i. PAG_LOG_INIT_DATA + i) [0..<NUM_PAG_DATA]"
  have "set ?ps \<subseteq> {..<TOTAL_PAGES}" by (auto simp: layout_consts)
  note e = unmap_pages_effect(1) [OF distinct_pages this assms, of PT]
  have "set ?ps = {PAG_LOG_INIT_DATA..<PAG_LOG_INIT_DATA + NUM_PAG_DATA}" by (simp add: add.commute)
  then have "(\<exists>p \<in> set ?ps. unat (get_frame PT (of_nat p) m) = n) \<longleftrightarrow> n \<in> data_frames PT m"
    by (auto simp: data_frames_def)
  with e show ?thesis unfolding release_data_unmap by presburger
qed

section \<open>Exit\<close>

lemma exit_placed:
  assumes L: "symtab_ok L" and rel: "sched_rel L s A" and ni: "current s \<noteq> idle_task s"
    and s': "links s' = list_add_tail (tnode (current s)) (freequeue L) (links s)"
      "\<And>u. state (tasks s' u) = state (tasks s u)" "\<And>u. register_esp (tasks s' u) = register_esp (tasks s u)"
      "esp s' = esp s" "idle_task s' = idle_task s"
  defines "Q \<equiv> (a_queue A)(freequeue L := a_queue A (freequeue L) @ [current s])"
  shows "tasks_placed L s' Q" and "tasks_of L \<subseteq> insert (idle_task s') (queued L Q)"
    and "next_task L (idle_task s') Q \<noteq> current s'"
proof -
  note r = sched_relD [OF rel]
  have cur: "current s' = current s" using s'(4) by (rule current_cong)
  have qs: "queued L Q = insert (current s) (queued L (a_queue A))"
    unfolding Q_def by (rule queued_add) auto
  show "tasks_of L \<subseteq> insert (idle_task s') (queued L Q)" using r(6) qs s'(5) by auto
  have nq: "current s \<notin> set (a_queue A r)" if "r \<in> heads L" for r by (rule not_queuedD [OF r(5) that])
  have "queues L (links s') Q" unfolding s'(1) Q_def by (rule queues_enq [OF L r(2,4,5)]) simp
  moreover have "resumable s' u = resumable s u" for u using s'(3) by (simp add: resumable_def)
  ultimately show "tasks_placed L s' Q"
    using r(1) L nq cur s'(2,5) ni by (auto simp: tasks_placed_def Q_def)
  have "Q (readyqueue L) = a_queue A (readyqueue L)" using L by (simp add: Q_def)
  then show "next_task L (idle_task s') Q \<noteq> current s'"
    using nq [of "readyqueue L"] ni cur s'(5) by (cases "a_queue A (readyqueue L)") (auto simp: next_task_def)
qed

definition a_exit :: "symtab \<Rightarrow> ptr \<Rightarrow> sched_abs \<Rightarrow> sched_abs" where
  "a_exit L idle A = a_next L idle ((a_queue A)(freequeue L := a_queue A (freequeue L) @ [a_cur A]))"

lemma exit_inv:
  assumes L: "symtab_ok L" and inv: "kernel_inv L s A" and ni: "current s \<noteq> idle_task s"
    and s': "links s' = list_add_tail (tnode (current s)) (freequeue L) (links s)"
      "\<And>u. state (tasks s' u) = state (tasks s u)" "\<And>u. register_esp (tasks s' u) = register_esp (tasks s u)"
      "esp s' = esp s" "idle_task s' = idle_task s" "sems s' = sems s"
      "\<And>u. semafors (tasks s' u) = semafors (tasks s u)"
  shows "kernel_inv L (sched_next_rr L s') (a_exit L (idle_task s) A)"
proof -
  let ?Q = "(a_queue A)(freequeue L := a_queue A (freequeue L) @ [current s])"
  have rel: "sched_rel L s A" and sinv: "sem_inv L s (a_queue A)" using inv by (auto simp: kernel_inv_def)
  note p = exit_placed [OF L rel ni s'(1-5)]
  have "sched_rel L (sched_next_rr L s') (a_next L (idle_task s') ?Q)"
    using p by (intro sched_next_rel [OF L]) auto
  moreover have "sem_inv L s' ?Q"
    using sinv s'(5-7) L by (simp add: sem_inv_def)
  then have "sem_inv L (sched_next_rr L s') (drop_next L ?Q)"
    using p(1) by (intro sem_inv_sched_next [OF L]) (auto simp: tasks_placed_def)
  ultimately show ?thesis
    using s'(5) sched_relD(3) [OF rel] by (simp add: kernel_inv_def a_exit_def a_next_def)
qed

lemma cur_heap_simps [simp]:
  "cur_heap (upd_mm f s) = cur_heap s" "cur_heap (upd_links h s) = cur_heap s" "cur_heap (s\<lparr>mm := m\<rparr>) = cur_heap s"
  by (simp_all add: cur_heap_def current_def)

lemma release_heap_none:
  "heap_start_proc (tasks s (current s)) \<le> cur_heap s \<Longrightarrow> release_heap PT s = Some s"
  by (subst release_heap.simps) (simp only: leD if_False)

lemma sys_exit_eq:
  assumes "heap_start_proc (tasks s (current s)) \<le> cur_heap s"
  shows "sys_exit L s = Some (sched_next_rr L (upd_task (current s) (\<lambda>T. T\<lparr>PID := -1\<rparr>)
    (upd_links (list_add_tail (tnode (current s)) (freequeue L))
      (upd_mm (release_data (get_PT (current s) s) [0..<NUM_PAG_DATA]) s))))"
proof -
  let ?s = "upd_mm (release_data (get_PT (current s) s) [0..<NUM_PAG_DATA]) s"
  have "release_heap (get_PT (current s) s) ?s = Some ?s"
    using assms by (intro release_heap_none) simp
  then show ?thesis by (simp add: sys_exit_def Let_def)
qed

section \<open>Heap\<close>

definition set_heap :: "ptr \<Rightarrow> kstate \<Rightarrow> kstate" where
  "set_heap v s = upd_task (current s) (\<lambda>T. T\<lparr>heap_pointer_proc := v\<rparr>) s"

lemma set_heap_simps [simp]:
  "cur_heap (set_heap v s) = v" "mm (set_heap v s) = mm s" "current (set_heap v s) = current s"
  "set_heap v (set_heap w s) = set_heap v s" "set_heap v (s\<lparr>mm := m\<rparr>) = (set_heap v s)\<lparr>mm := m\<rparr>"
  "set_heap (cur_heap s) s = s" "upd_mm f (set_heap v s) = set_heap v (upd_mm f s)"
  by (simp_all add: set_heap_def cur_heap_def upd_task_def upd_mm_def current_def)

lemma move_heap_set: "move_heap f s = set_heap (f (cur_heap s)) s"
  by (simp add: move_heap_def set_heap_def cur_heap_def upd_task_def)

text \<open>The heap pointer at the start of page \<open>p\<close>.\<close>

definition page_addr :: "nat \<Rightarrow> ptr" where
  "page_addr p = of_nat (p * PAGE_SIZE)"

lemma page_addr_simps:
  assumes "p \<le> TOTAL_PAGES"
  shows "unat (page_addr p) = p * 4096" "page_of (page_addr p) = of_nat p" "page_addr p mod of_nat PAGE_SIZE = 0"
    "page_addr p + of_nat PAGE_SIZE = page_addr (Suc p)" "0 < p \<Longrightarrow> page_addr p - of_nat PAGE_SIZE = page_addr (p - 1)"
proof -
  have lt: "p * 4096 < 2 ^ 32" using assms by (simp add: TOTAL_PAGES_def)
  show u: "unat (page_addr p) = p * 4096" unfolding page_addr_def PAGE_SIZE_def using unat_of_nat_word32 [of "p * 4096"] lt by simp
  show "page_of (page_addr p) = of_nat p"
    using lt by (simp add: word_unat_eq_iff page_of_def unat_div u PAGE_SIZE_def unat_of_nat)
  show "page_addr p mod of_nat PAGE_SIZE = 0"
    by (simp add: word_unat_eq_iff unat_mod u PAGE_SIZE_def)
  show "page_addr p + of_nat PAGE_SIZE = page_addr (Suc p)" by (simp add: page_addr_def)
  show "page_addr p - of_nat PAGE_SIZE = page_addr (p - 1)" if "0 < p"
    using that by (cases p) (simp_all add: page_addr_def)
qed

text \<open>The growing loop maps one page after the other.\<close>

lemma sbrk_grow_steps:
  assumes "cur_heap s = page_addr p" "p + k \<le> TOTAL_PAGES" "map_frames PT [p..<p + k] (mm s) = Some m'"
    "0 < k \<longrightarrow> (p + k - 1) * 4096 < unat new"
  shows "sbrk_grow PT old new s = sbrk_grow PT old new (set_heap (page_addr (p + k)) (s\<lparr>mm := m'\<rparr>))"
  using assms
proof (induction k arbitrary: s p)
  case 0
  then have "set_heap (page_addr (p + 0)) (s\<lparr>mm := m'\<rparr>) = s" by (simp flip: 0(1))
  then show ?case by simp
next
  case (Suc k)
  obtain f m1 where a: "alloc_frame (mm s) = (f, m1)" by fastforce
  have up: "[p..<p + Suc k] = p # [Suc p..<Suc p + k]" by (simp add: upt_conv_Cons)
  let ?m = "set_ss_pag PT (of_nat p) (dword_of_int f) m1"
  let ?s = "set_heap (page_addr (Suc p)) (s\<lparr>mm := ?m\<rparr>)"
  have f: "f \<noteq> -1" and mf: "map_frames PT [Suc p..<Suc p + k] ?m = Some m'"
    using Suc.prems(3) unfolding up by (auto simp: a split: if_splits)
  have p: "p \<le> TOTAL_PAGES" using Suc.prems(2) by simp
  have "unat (cur_heap s) < unat new" using Suc.prems(1,4) page_addr_simps(1) [OF p] by (cases k) auto
  then have lt: "cur_heap s < new" by (simp add: word_less_nat_alt)
  have "sbrk_grow PT old new s = sbrk_grow PT old new ?s"
    using lt f Suc.prems(1) page_addr_simps(2-4) [OF p]
    by (subst sbrk_grow.simps) (simp add: a Let_def move_heap_set upd_mm_def)
  also have "\<dots> = sbrk_grow PT old new (set_heap (page_addr (Suc p + k)) (?s\<lparr>mm := m'\<rparr>))"
    by (rule Suc.IH) (use Suc.prems mf in auto)
  finally show ?case by simp
qed

lemma sbrk_grow_done: "\<not> cur_heap s < new \<Longrightarrow> sbrk_grow PT old new s = Some (old, s)"
  by (subst sbrk_grow.simps) simp

lemma sbrk_unwind_pages:
  assumes "cur_heap s = page_addr (p + k)" "p + k \<le> TOTAL_PAGES"
  shows "sbrk_unwind PT (page_addr p) s =
    Some (set_heap (page_addr p) (s\<lparr>mm := fold (unmap_page PT) (rev [p..<p + k]) (mm s)\<rparr>))"
  using assms
proof (induction k arbitrary: s)
  case 0
  then have "sbrk_unwind PT (page_addr p) s = Some s" by (subst sbrk_unwind.simps) simp
  moreover have "set_heap (page_addr p) s = s" using 0(1) set_heap_simps(6) [of s] by simp
  ultimately show ?case by simp
next
  case (Suc k)
  let ?q = "p + k"
  have le: "p \<le> TOTAL_PAGES" "p + Suc k \<le> TOTAL_PAGES" "?q \<le> TOTAL_PAGES" using Suc.prems(2) by auto
  have gt: "cur_heap s > page_addr p"
    using Suc.prems(1) page_addr_simps(1) [OF le(1)] page_addr_simps(1) [OF le(2)] by (simp add: word_less_nat_alt)
  have sub: "page_addr (p + Suc k) - of_nat PAGE_SIZE = page_addr ?q"
    using page_addr_simps(5) [OF le(2)] by simp
  let ?s = "set_heap (page_addr ?q) (s\<lparr>mm := unmap_page PT ?q (mm s)\<rparr>)"
  have "sbrk_unwind PT (page_addr p) s = sbrk_unwind PT (page_addr p) ?s"
    using gt Suc.prems(1) page_addr_simps(2) [OF le(3)] sub
    by (subst sbrk_unwind.simps) (simp add: move_heap_set Let_def upd_mm_def unmap_page_def)
  also have "\<dots> = Some (set_heap (page_addr p) (?s\<lparr>mm := fold (unmap_page PT) (rev [p..<p + k]) (mm ?s)\<rparr>))"
    by (rule Suc.IH) (use le in auto)
  finally show ?case by simp
qed

text \<open>A task with a heap as \<open>init_task1\<close> and \<open>sys_sbrk\<close> leave it: it starts at \<open>INIT_HEAP\<close> and ends at the
  start of page \<open>p\<close>.\<close>

definition heap_at :: "kstate \<Rightarrow> nat \<Rightarrow> bool" where
  "heap_at s p \<longleftrightarrow> heap_start_proc (tasks s (current s)) = of_nat INIT_HEAP \<and> cur_heap s = page_addr p \<and>
     304 \<le> p \<and> p \<le> TOTAL_PAGES"

definition pages_for :: "int \<Rightarrow> nat" where
  "pages_for sz = nat ((sz + 4095) div 4096)"

lemma pages_for_bounds:
  assumes "0 < sz"
  shows "0 < pages_for sz" "sz \<le> int (pages_for sz) * 4096" "(int (pages_for sz) - 1) * 4096 < sz"
proof -
  have "0 \<le> (sz + 4095) div 4096" using assms by simp
  then have k: "int (pages_for sz) = (sz + 4095) div 4096" by (simp add: pages_for_def)
  have d: "(sz + 4095) div 4096 * 4096 + (sz + 4095) mod 4096 = sz + 4095" by (rule div_mult_mod_eq)
  have m: "0 \<le> (sz + 4095) mod 4096" "(sz + 4095) mod 4096 \<le> 4095" by simp_all
  show "sz \<le> int (pages_for sz) * 4096" unfolding k using d m by linarith
  show "(int (pages_for sz) - 1) * 4096 < sz" unfolding k left_diff_distrib using d m by linarith
  show "0 < pages_for sz" using \<open>sz \<le> int (pages_for sz) * 4096\<close> assms by (cases "pages_for sz") auto
qed

lemma unat_heap_plus:
  assumes "p \<le> TOTAL_PAGES" "0 < sz" "sz < 2 ^ 31"
  shows "unat (page_addr p + word_of_int sz) = p * 4096 + nat sz"
proof -
  have "unat (word_of_int sz :: ptr) = nat sz"
    using assms(2,3) by (simp add: unat_eq_nat_uint uint_word_of_int)
  then show ?thesis
    using assms page_addr_simps(1) [OF assms(1)]
    by (subst unat_plus_word32) (simp_all add: TOTAL_PAGES_def)
qed

lemma int_of_page_diff:
  assumes "304 \<le> p" "p \<le> TOTAL_PAGES"
  shows "cdiv (int_of_dword (page_addr p - of_nat INIT_HEAP)) (int PAGE_SIZE) = int p - 304"
proof -
  have "page_addr p - of_nat INIT_HEAP = (of_nat (p * 4096 - 304 * 4096) :: ptr)"
    using assms(1) by (simp add: page_addr_def layout_consts of_nat_diff)
  also have "\<dots> = word_of_int (int (p - 304) * 4096)"
    using assms(1) by (simp add: diff_mult_distrib of_nat_diff)
  finally have "int_of_dword (page_addr p - of_nat INIT_HEAP) = int (p - 304) * 4096"
    using int_of_dword_of_int [of "int (p - 304) * 4096"] assms
    by (simp add: dword_of_int_def int32_def TOTAL_PAGES_def)
  then show ?thesis using assms(1) by (simp add: cdiv_def PAGE_SIZE_def)
qed

lemma sys_sbrk_unfold:
  assumes h: "heap_at s p" and sz: "0 < sz" "sz < 2 ^ 31 - 4096"
  shows "sys_sbrk sz s =
    (if TOTAL_PAGES < p + pages_for sz then Some (0, s)
     else sbrk_grow (get_PT (current s) s) (page_addr p) (page_addr p + word_of_int sz) s)"
proof -
  have hp: "cur_heap s = page_addr p" "heap_start_proc (tasks s (current s)) = of_nat INIT_HEAP" "304 \<le> p" "p \<le> TOTAL_PAGES"
    using h by (auto simp: heap_at_def)
  have "unat (page_addr p + word_of_int sz) = p * 4096 + nat sz"
    using sz hp(4) by (intro unat_heap_plus) auto
  then have n: "\<not> page_addr p + word_of_int sz < of_nat INIT_HEAP"
    using hp(3) by (simp add: word_less_nat_alt layout_consts)
  have w: "cdiv (wrap32 (sz + int PAGE_SIZE - 1)) (int PAGE_SIZE) = int (pages_for sz)"
  proof -
    have "wrap32 (sz + int PAGE_SIZE - 1) = sz + 4095"
      using sz by (subst wrap32_id) (simp_all add: int32_def PAGE_SIZE_def)
    then show ?thesis using sz by (simp add: cdiv_def PAGE_SIZE_def pages_for_def)
  qed
  have "(int (pages_for sz) - 1) * 4096 < sz" by (rule pages_for_bounds [OF sz(1)])
  then have "int (pages_for sz) < 2 ^ 20" using sz(2) by simp
  then have t: "wrap32 (int NUM_PAG_CODE + 2 * int NUM_PAG_DATA + int NUM_PAG_KERNEL + int (pages_for sz) + (int p - 304)) =
      int (p + pages_for sz)"
    using hp(4) by (subst wrap32_id) (simp_all add: int32_def layout_consts)
  show ?thesis
    using sz n by (simp add: sys_sbrk_def Let_def hp(1,2) w int_of_page_diff [OF hp(3,4)] t)
qed

lemma sys_sbrk_grow_cases:
  assumes h: "heap_at s p" and sz: "0 < sz" "sz < 2 ^ 31 - 4096" and wf: "frames_wf (mm s)"
    and k: "k = pages_for sz" and le: "p + k \<le> TOTAL_PAGES"
  defines "PT \<equiv> get_PT (current s) s"
  shows "map_frames PT [p..<p + k] (mm s) = Some m' \<Longrightarrow>
      sys_sbrk sz s = Some (page_addr p, set_heap (page_addr (p + k)) (s\<lparr>mm := m'\<rparr>))"
    and "j < k \<Longrightarrow> map_frames PT [p..<p + j] (mm s) = Some mj \<Longrightarrow> alloc_frame mj = (-1, mj) \<Longrightarrow>
      sys_sbrk sz s = Some (0, s\<lparr>mm := fold (unmap_page PT) (rev [p..<p + j]) mj\<rparr>)"
proof -
  have hp: "cur_heap s = page_addr p" "p \<le> TOTAL_PAGES" using h by (auto simp: heap_at_def)
  let ?new = "page_addr p + word_of_int sz"
  have u: "unat ?new = p * 4096 + nat sz" using sz hp(2) by (intro unat_heap_plus) auto
  note b = pages_for_bounds [OF sz(1), folded k]
  have eq: "sys_sbrk sz s = sbrk_grow PT (page_addr p) ?new s"
    using sys_sbrk_unfold [OF h sz] le k by (simp add: PT_def)
  have lt: "(p + i - 1) * 4096 < unat ?new" if "0 < i" "i \<le> k" for i
  proof -
    have "(int i - 1) * 4096 \<le> (int k - 1) * 4096" using that by simp
    then have "int ((p + i - 1) * 4096) < int (unat ?new)" using b(3) that sz(1) u by (simp add: of_nat_diff algebra_simps)
    then show ?thesis by (simp only: of_nat_less_iff)
  qed
  have steps: "sys_sbrk sz s = sbrk_grow PT (page_addr p) ?new (set_heap (page_addr (p + i)) (s\<lparr>mm := mi\<rparr>))"
    if "i \<le> k" "map_frames PT [p..<p + i] (mm s) = Some mi" for i mi
    unfolding eq by (rule sbrk_grow_steps [OF hp(1)]) (use that le lt in auto)
  show "sys_sbrk sz s = Some (page_addr p, set_heap (page_addr (p + k)) (s\<lparr>mm := m'\<rparr>))"
    if m: "map_frames PT [p..<p + k] (mm s) = Some m'"
  proof -
    have "\<not> page_addr (p + k) < ?new"
      using b(2) u page_addr_simps(1) [OF le] sz(1) by (simp add: word_less_nat_alt)
    then show ?thesis using steps [OF order_refl m] by (simp add: sbrk_grow_done)
  qed
  show "sys_sbrk sz s = Some (0, s\<lparr>mm := fold (unmap_page PT) (rev [p..<p + j]) mj\<rparr>)"
    if j: "j < k" and m: "map_frames PT [p..<p + j] (mm s) = Some mj" and a: "alloc_frame mj = (-1, mj)"
  proof -
    let ?s = "set_heap (page_addr (p + j)) (s\<lparr>mm := mj\<rparr>)"
    have pj: "p + j \<le> TOTAL_PAGES" using j le by simp
    have "unat (page_addr (p + j)) < unat ?new" using lt [of "Suc j"] j page_addr_simps(1) [OF pj] by simp
    then have c: "cur_heap ?s < ?new" by (simp add: word_less_nat_alt)
    have "sbrk_unwind PT (page_addr p) ?s =
        Some (set_heap (page_addr p) (?s\<lparr>mm := fold (unmap_page PT) (rev [p..<p + j]) (mm ?s)\<rparr>))"
      using pj by (intro sbrk_unwind_pages) simp_all
    moreover have "set_heap (page_addr p) s = s" using hp(1) set_heap_simps(6) [of s] by simp
    ultimately have "sbrk_grow PT (page_addr p) ?new ?s = Some (0, s\<lparr>mm := fold (unmap_page PT) (rev [p..<p + j]) mj\<rparr>)"
      using c page_addr_simps(3) [OF pj] a by (subst sbrk_grow.simps) (simp add: Let_def)
    then show ?thesis using steps [OF less_imp_le [OF j] m] by simp
  qed
qed

text \<open>The shrinking loop: it clears the entry before it looks up the frame.\<close>

lemma get_frame_deleted [simp]: "get_frame PT p (del_ss_pag PT p m) = 0"
  by (simp add: get_frame_def)

lemma free_frame_zero [simp]: "free_frame 0 m = m"
  by (simp add: free_frame_def word_less_nat_alt layout_consts)

lemma sbrk_shrink_pages:
  assumes "cur_heap s = page_addr (q + k)" "304 \<le> q" "q + k \<le> TOTAL_PAGES"
    "q * 4096 \<le> unat new" "unat new < (q + 1) * 4096"
  shows "sbrk_shrink PT new s = Some (set_heap (page_addr q)
    (s\<lparr>mm := fold (\<lambda>p. del_ss_pag PT (of_nat p)) (rev [q + 1..<q + k + 1]) (mm s)\<rparr>))"
  using assms(1,3)
proof (induction k arbitrary: s)
  case 0
  then have "\<not> new < cur_heap s"
    using assms(4) page_addr_simps(1) [of q] by (simp add: word_less_nat_alt)
  then have "sbrk_shrink PT new s = Some s" by (subst sbrk_shrink.simps) simp
  moreover have "set_heap (page_addr q) s = s" using 0(1) set_heap_simps(6) [of s] by simp
  ultimately show ?case by simp
next
  case (Suc k)
  have le: "q + Suc k \<le> TOTAL_PAGES" using Suc.prems(2) .
  have "(q + 1) * 4096 \<le> (q + Suc k) * 4096" by simp
  then have "unat new < unat (cur_heap s)" using assms(5) Suc.prems(1) page_addr_simps(1) [OF le] by simp
  then have gt: "new < cur_heap s" by (simp add: word_less_nat_alt)
  have "unat (of_nat DATA_END :: ptr) < unat (page_addr (q + Suc k))"
    using assms(2) page_addr_simps(1) [OF le] by (simp add: layout_consts)
  then have de: "of_nat DATA_END < page_addr (q + Suc k)" by (simp add: word_less_nat_alt)
  have sub: "page_addr (q + Suc k) - of_nat PAGE_SIZE = page_addr (q + k)"
    using page_addr_simps(5) [OF le] by simp
  let ?s = "set_heap (page_addr (q + k)) (s\<lparr>mm := del_ss_pag PT (of_nat (q + Suc k)) (mm s)\<rparr>)"
  have "sbrk_shrink PT new s = sbrk_shrink PT new ?s"
    using gt Suc.prems(1) de sub page_addr_simps(2,3) [OF le]
    by (subst sbrk_shrink.simps) (simp add: Let_def move_heap_set upd_mm_def)
  also have "\<dots> = Some (set_heap (page_addr q)
      (?s\<lparr>mm := fold (\<lambda>p. del_ss_pag PT (of_nat p)) (rev [q + 1..<q + k + 1]) (mm ?s)\<rparr>))"
    by (rule Suc.IH) (use Suc.prems in auto)
  finally show ?case by simp
qed

lemma fold_del_ss_pag:
  "phys_mem (fold (\<lambda>p. del_ss_pag PT (of_nat p)) ps m) = phys_mem m"
  "ptes (fold (\<lambda>p. del_ss_pag PT (of_nat p)) ps m) a = (if a \<in> (\<lambda>p. pt_slot PT (of_nat p)) ` set ps then 0 else ptes m a)"
  by (induction ps arbitrary: m) auto

lemma sys_sbrk_shrink_eq:
  assumes h: "heap_at s p" and sz: "sz < 0" and k: "k = pages_for (- sz)" and q: "304 + k \<le> p"
  defines "PT \<equiv> get_PT (current s) s"
  shows "sys_sbrk sz s = Some (page_addr p, set_heap (page_addr (p - k))
    (s\<lparr>mm := fold (\<lambda>p. del_ss_pag PT (of_nat p)) (rev [p - k + 1..<p + 1]) (mm s)\<rparr>))"
proof -
  have hp: "cur_heap s = page_addr p" "p \<le> TOTAL_PAGES" using h by (auto simp: heap_at_def)
  note b = pages_for_bounds [of "- sz", folded k]
  have n: "- sz \<le> int k * 4096" "(int k - 1) * 4096 < - sz" using b sz by auto
  let ?new = "page_addr p + word_of_int sz"
  have new: "?new = (of_nat (nat (int (p * 4096) + sz)) :: ptr)"
  proof -
    have "0 \<le> int (p * 4096) + sz" using n(1) q by simp
    then have "(of_nat (nat (int (p * 4096) + sz)) :: ptr) = word_of_int (int (p * 4096) + sz)" by simp
    then show ?thesis by (simp add: page_addr_def PAGE_SIZE_def)
  qed
  have "nat (int (p * 4096) + sz) < 2 ^ 32" using hp(2) sz by (simp add: TOTAL_PAGES_def nat_less_iff)
  then have u: "int (unat ?new) = int (p * 4096) + sz"
    unfolding new using n(1) q by (subst unat_of_nat_word32) auto
  have lo: "(p - k) * 4096 \<le> unat ?new"
  proof -
    have "int ((p - k) * 4096) \<le> int (unat ?new)" unfolding u using n(1) q by (simp add: of_nat_diff algebra_simps)
    then show ?thesis by (simp only: of_nat_le_iff)
  qed
  have hi: "unat ?new < (p - k + 1) * 4096"
  proof -
    have "int (unat ?new) < int ((p - k + 1) * 4096)" unfolding u using n(2) q by (simp add: of_nat_diff algebra_simps)
    then show ?thesis by (simp only: of_nat_less_iff)
  qed
  have "304 * 4096 \<le> (p - k) * 4096" using q by simp
  then have "INIT_HEAP \<le> unat ?new" using lo by (simp add: layout_consts)
  then have ih: "\<not> ?new < of_nat INIT_HEAP" by (simp add: word_less_nat_alt layout_consts)
  have "sbrk_shrink PT ?new s = Some (set_heap (page_addr (p - k))
      (s\<lparr>mm := fold (\<lambda>p. del_ss_pag PT (of_nat p)) (rev [p - k + 1..<p - k + k + 1]) (mm s)\<rparr>))"
    by (rule sbrk_shrink_pages) (use hp q lo hi in auto)
  then show ?thesis
    using sz ih q by (simp add: sys_sbrk_def Let_def hp(1) PT_def)
qed

text \<open>Unmapping the pages that were mapped gives every frame back and leaves their entries empty.\<close>

lemma map_frames_undone:
  assumes wf: "frames_wf m" and nk: "NUM_PAG_KERNEL \<notin> avail m" and mj: "map_frames PT [p..<p + j] m = Some mj"
    and le: "p + j \<le> TOTAL_PAGES"
  defines "m' \<equiv> fold (unmap_page PT) (rev [p..<p + j]) mj"
  shows "phys_mem m' = phys_mem m" "ptes m' a = ptes m a \<or> ptes m' a = 0 \<and> a \<in> (\<lambda>p. pt_slot PT (of_nat p)) ` {p..<p + j}"
proof -
  have sub: "set [p..<p + j] \<subseteq> {..<TOTAL_PAGES}" using le by auto
  obtain fs where fs: "mapped_fresh PT [p..<p + j] fs m mj"
    using map_frames_fresh [OF wf distinct_upt sub, of PT] mj by (auto split: if_splits)
  then have len: "length (phys_mem mj) = TOTAL_PAGES" by (simp add: mapped_fresh_def frames_wf_def)
  show "phys_mem m' = phys_mem m" unfolding m'_def by (rule unmap_mapped_fresh [OF wf fs distinct_upt sub nk]) simp_all
  note e = unmap_pages_effect(2) [of "rev [p..<p + j]" mj 0 PT a, folded m'_def]
  show "ptes m' a = ptes m a \<or> ptes m' a = 0 \<and> a \<in> (\<lambda>p. pt_slot PT (of_nat p)) ` {p..<p + j}"
    using e len sub fs by (cases "a \<in> (\<lambda>p. pt_slot PT (of_nat p)) ` {p..<p + j}") (simp_all add: mapped_fresh_def TOTAL_PAGES_def)
qed

section \<open>Properties\<close>

text \<open>C26: \<open>sys_sbrk\<close> with a positive size: when the \<open>k\<close> pages needed fit below page 1024 and \<open>k\<close> frames are
  available, it returns the old end of the heap, moves the end by \<open>k\<close> whole pages and maps each
  new page, user-accessible and writable, to a frame of its own that was free; when the pages do
  not fit it returns null and changes nothing; when the frames run out it returns null, leaves
  the end of the heap, and all frames taken are free again and their pages unmapped.\<close>

theorem sys_sbrk_grow_spec:
  assumes "heap_at s p" and "0 < sz" and "sz < 2 ^ 31 - 4096" and "frames_wf (mm s)"
    and "NUM_PAG_KERNEL \<notin> avail (mm s)"
  defines "k \<equiv> pages_for sz" and "PT \<equiv> get_PT (current s) s"
  shows "if TOTAL_PAGES < p + k then sys_sbrk sz s = Some (0, s)
    else if k \<le> card (avail (mm s))
    then \<exists>fs m'. sys_sbrk sz s = Some (page_addr p, set_heap (page_addr (p + k)) (s\<lparr>mm := m'\<rparr>)) \<and>
      mapped_fresh PT [p..<p + k] fs (mm s) m'
    else \<exists>m'. sys_sbrk sz s = Some (0, s\<lparr>mm := m'\<rparr>) \<and> phys_mem m' = phys_mem (mm s) \<and>
      (\<forall>a. ptes m' a = ptes (mm s) a \<or> ptes m' a = 0 \<and> a \<in> (\<lambda>p. pt_slot PT (of_nat p)) ` {p..<p + k})"
proof (cases "TOTAL_PAGES < p + k")
  case True
  then show ?thesis using sys_sbrk_unfold [OF assms(1-3)] by (simp add: k_def)
next
  case False
  then have le: "p + k \<le> TOTAL_PAGES" by simp
  note cs = sys_sbrk_grow_cases [OF assms(1-4) meta_eq_to_obj_eq [OF k_def] le, folded PT_def]
  have sub: "set [p..<p + k] \<subseteq> {..<TOTAL_PAGES}" using le by auto
  note mf = map_frames_fresh [OF assms(4) distinct_upt sub, of PT]
  show ?thesis
  proof (cases "k \<le> card (avail (mm s))")
    case True
    then obtain m' fs where "map_frames PT [p..<p + k] (mm s) = Some m'" "mapped_fresh PT [p..<p + k] fs (mm s) m'"
      using mf by auto
    with cs(1) True False show ?thesis by auto
  next
    case F: False
    then have "map_frames PT [p..<p + k] (mm s) = None" using mf by simp
    then obtain j mj where j: "j < k" "alloc_frame mj = (-1, mj)" "map_frames PT [p..<p + j] (mm s) = Some mj"
      using map_frames_none [of PT "[p..<p + k]" "mm s"] by (auto simp: take_upt)
    from cs(2) [OF j(1,3,2)] map_frames_undone [OF assms(4,5) j(3)] j(1) le F False show ?thesis by fastforce
  qed
qed

theorem sys_sbrk_grow_spec_witness:
  "\<exists>fs m'. sys_sbrk 8000 booted = Some (page_addr 304, set_heap (page_addr 306) (booted\<lparr>mm := m'\<rparr>)) \<and>
    mapped_fresh (get_PT (current booted) booted) [304..<306] fs (mm booted) m'"
proof -
  have h: "heap_at booted 304"
    using booted_mm(6,7) by (simp add: heap_at_def cur_heap_def page_addr_def layout_consts)
  have k: "pages_for 8000 = 2" by (simp add: pages_for_def)
  have "(0 :: int) < 8000" "(8000 :: int) < 2 ^ 31 - 4096" by simp_all
  from sys_sbrk_grow_spec [OF h this booted_mm(1,9)] show ?thesis
    by (simp add: k booted_mm(8) TOTAL_PAGES_def)
qed

text \<open>\<open>sys_sbrk\<close> with a negative size returns the old end of the heap and lowers the end by whole
  pages, but it frees no frame: it clears the entry of each page before it reads the frame
  number from it. The pages it unmaps are the ones above those released, so the lowest released
  page stays accessible to the process.\<close>

theorem sys_sbrk_shrink_frees_nothing:
  assumes "heap_at s p" and "sz < 0" and "304 + pages_for (- sz) \<le> p"
  defines "q \<equiv> p - pages_for (- sz)" and "PT \<equiv> get_PT (current s) s"
  shows "\<exists>m'. sys_sbrk sz s = Some (page_addr p, set_heap (page_addr q) (s\<lparr>mm := m'\<rparr>)) \<and>
    phys_mem m' = phys_mem (mm s) \<and>
    (\<forall>r<TOTAL_PAGES. ptes m' (pt_slot PT (of_nat r)) =
       (if q < r \<and> r \<le> p then 0 else ptes (mm s) (pt_slot PT (of_nat r))))"
proof (intro exI conjI allI impI)
  let ?ps = "rev [q + 1..<p + 1]"
  let ?m = "fold (\<lambda>p. del_ss_pag PT (of_nat p)) ?ps (mm s)"
  show "sys_sbrk sz s = Some (page_addr p, set_heap (page_addr q) (s\<lparr>mm := ?m\<rparr>))"
    unfolding q_def PT_def by (rule sys_sbrk_shrink_eq [OF assms(1,2) refl assms(3)])
  show "phys_mem ?m = phys_mem (mm s)" by (rule fold_del_ss_pag(1))
  fix r assume r: "r < TOTAL_PAGES"
  have p: "p \<le> TOTAL_PAGES" using assms(1) by (simp add: heap_at_def)
  have "pt_slot PT (of_nat r) = pt_slot PT (of_nat k) \<longleftrightarrow> r = k" if "k \<le> p" for k
  proof -
    have "k < 2 ^ 30" "r < 2 ^ 30" using that p r by (simp_all add: TOTAL_PAGES_def)
    then show ?thesis by (subst pt_slot_inject) (simp_all add: of_nat_word32_inject unat_of_nat)
  qed
  then have inj: "k \<le> p \<Longrightarrow> pt_slot PT (of_nat r) = pt_slot PT (of_nat k) \<Longrightarrow> r = k" for k by blast
  have "set ?ps = {q<..p}" by auto
  with inj have "pt_slot PT (of_nat r) \<in> (\<lambda>p. pt_slot PT (of_nat p)) ` set ?ps \<longleftrightarrow> q < r \<and> r \<le> p"
    by (metis (no_types, lifting) greaterThanAtMost_iff imageE imageI)
  then show "ptes ?m (pt_slot PT (of_nat r)) = (if q < r \<and> r \<le> p then 0 else ptes (mm s) (pt_slot PT (of_nat r)))"
    unfolding fold_del_ss_pag(2) by (rule if_cong) (rule refl)+
qed

theorem sys_sbrk_shrink_frees_nothing_witness:
  "let s = set_heap (page_addr 310) booted in
   \<exists>m'. sys_sbrk (- 5000) s = Some (page_addr 310, set_heap (page_addr 308) (s\<lparr>mm := m'\<rparr>)) \<and>
     phys_mem m' = phys_mem (mm s)"
proof -
  let ?s = "set_heap (page_addr 310) booted"
  have "heap_start_proc (tasks ?s (current ?s)) = of_nat INIT_HEAP"
    using booted_mm(7) by (simp add: set_heap_def)
  then have h: "heap_at ?s 310" by (simp add: heap_at_def TOTAL_PAGES_def)
  have k: "pages_for 5000 = 2" by (simp add: pages_for_def)
  from sys_sbrk_shrink_frees_nothing [OF h, of "- 5000"] show ?thesis by (auto simp: k Let_def)
qed

text \<open>C27: \<open>sys_exit\<close> of a process returns, with the processor on the first ready task, or on the idle task; the
  exiting task ends in the free queue with PID -1 and no other task moves. Its 20 data pages are
  unmapped and their frames are free, except frame 256; every other frame keeps its
  mark: the frames of the heap are never given back, since the loop over the heap runs while the
  end of the heap is below its start.\<close>

theorem sys_exit_spec:
  assumes "symtab_ok L" and "kernel_inv L s A" and "current s \<noteq> idle_task s"
    and "heap_start_proc (tasks s (current s)) \<le> cur_heap s" and "length (phys_mem (mm s)) = TOTAL_PAGES"
  defines "PT \<equiv> get_PT (current s) s"
  shows "\<exists>s'. sys_exit L s = Some s' \<and> kernel_inv L s' (a_exit L (idle_task s) A) \<and>
    PID (tasks s' (current s)) = -1 \<and>
    (\<forall>n<TOTAL_PAGES. phys_mem (mm s') ! n =
       (if NUM_PAG_KERNEL < n \<and> n \<in> data_frames PT (mm s) then FREE_FRAME else phys_mem (mm s) ! n)) \<and>
    (\<forall>a. ptes (mm s') a = (if a \<in> (\<lambda>p. pt_slot PT (of_nat p)) ` {PAG_LOG_INIT_DATA..<PAG_LOG_INIT_DATA + NUM_PAG_DATA}
       then 0 else ptes (mm s) a))"
proof -
  let ?m = "release_data PT [0..<NUM_PAG_DATA] (mm s)"
  let ?s = "upd_task (current s) (\<lambda>T. T\<lparr>PID := -1\<rparr>)
    (upd_links (list_add_tail (tnode (current s)) (freequeue L)) (upd_mm (release_data PT [0..<NUM_PAG_DATA]) s))"
  let ?s' = "sched_next_rr L ?s"
  have inv: "kernel_inv L ?s' (a_exit L (idle_task s) A)"
    by (rule exit_inv [OF assms(1-3)]) simp_all
  have rel: "sched_rel L s A" using assms(2) by (simp add: kernel_inv_def)
  have "tasks_placed L ?s ((a_queue A)(freequeue L := a_queue A (freequeue L) @ [current s]))"
    by (rule exit_placed(1) [OF assms(1) rel assms(3)]) simp_all
  then have "queues L (links ?s) ((a_queue A)(freequeue L := a_queue A (freequeue L) @ [current s]))"
    unfolding tasks_placed_def by (rule conjunct1)
  note e = sched_next_rr_effect(9) [OF assms(1) this]
  have mm: "phys_mem (mm ?s') = phys_mem ?m" "ptes (mm ?s') = ptes ?m" using same_restD(1,2) [OF e] by simp_all
  from same_task_fields [OF same_restD(3) [OF e, of "current s"]] have pid: "PID (tasks ?s' (current s)) = -1" by simp
  let ?ps = "map (\<lambda>i. PAG_LOG_INIT_DATA + i) [0..<NUM_PAG_DATA]"
  have ps: "set ?ps = {PAG_LOG_INIT_DATA..<PAG_LOG_INIT_DATA + NUM_PAG_DATA}" by (simp add: add.commute)
  have sub: "set ?ps \<subseteq> {..<TOTAL_PAGES}" by (auto simp: layout_consts)
  have "ptes ?m a = (if a \<in> (\<lambda>p. pt_slot PT (of_nat p)) ` set ?ps then 0 else ptes (mm s) a)" for a
    unfolding release_data_unmap by (rule unmap_pages_effect(2) [OF distinct_pages sub assms(5), of 0]) (simp add: TOTAL_PAGES_def)
  then show ?thesis
    unfolding ps using release_data_frames [OF assms(5), of _ PT]
    by (intro exI [of _ ?s'] conjI allI impI inv pid)
      (simp_all only: sys_exit_eq [OF assms(4), of L, folded PT_def] mm)
qed

theorem sys_exit_spec_witness:
  "\<exists>s'. sys_exit example_symtab booted = Some s' \<and> current s' = task example_symtab 0 \<and>
    PID (tasks s' (task example_symtab 1)) = -1"
proof -
  have "heap_start_proc (tasks booted (current booted)) \<le> cur_heap booted"
    using booted_mm(6,7) by (simp add: cur_heap_def)
  moreover have "length (phys_mem (mm booted)) = TOTAL_PAGES" using booted_mm(1) by (simp add: frames_wf_def)
  ultimately obtain s' where s': "sys_exit example_symtab booted = Some s'" "PID (tasks s' (current booted)) = -1"
    "kernel_inv example_symtab s' (a_exit example_symtab (idle_task booted) (boot_abs example_symtab))"
    using sys_exit_spec [OF example_symtab_ok booted_inv(1,3)] by blast
  have "current s' = task example_symtab 0"
    using s'(3) example_symtab_ok boot_abs_queues(1) [OF example_symtab_ok] booted_idle(1)
    by (simp add: kernel_inv_def sched_rel_def a_exit_def a_next_def next_task_def)
  with s'(1,2) booted_mm(4) show ?thesis by auto
qed

end
