(* ===== verification/Zeos_Fork.thy ===== *)
theory Zeos_Fork
  imports Zeos_Process
begin

text \<open>
  \<open>sys_fork\<close> of \<open>sys.c\<close>: what its loops do to page tables, frames and memory, and the
  properties of the whole call. The definitions are in \<open>Zeos_Process\<close>.
\<close>

section \<open>Allocation of the child's pages\<close>

abbreviation data_pages :: "nat list" where
  "data_pages \<equiv> map (\<lambda>i. PAG_LOG_INIT_DATA + i) [0..<NUM_PAG_DATA]"

lemma data_pages_props: "distinct data_pages" "set data_pages = {264..<284}" "length data_pages = 20"
  "set data_pages \<subseteq> {..<TOTAL_PAGES}"
  by (auto simp: layout_consts image_iff)

lemma fork_alloc_some:
  "map_frames PT (map (\<lambda>i. PAG_LOG_INIT_DATA + i) pags) m = Some m' \<Longrightarrow> fork_alloc PT pags m = (True, m')"
  by (induction pags arbitrary: m) (auto split: prod.splits if_splits)

lemma fork_alloc_none:
  "map_frames PT (map (\<lambda>i. PAG_LOG_INIT_DATA + i) (take j pags)) m = Some mj \<Longrightarrow> alloc_frame mj = (-1, mj) \<Longrightarrow>
     j < length pags \<Longrightarrow> fork_alloc PT pags m = (False, release_data PT [0..<pags ! j] mj)"
proof (induction pags arbitrary: m j)
  case (Cons p ps)
  then show ?case by (cases j) (auto split: prod.splits if_splits)
qed simp

lemma fork_alloc_cases:
  assumes wf: "frames_wf m" and k: "NUM_PAG_KERNEL \<notin> avail m"
  shows "if 20 \<le> card (avail m) then \<exists>fs m'. fork_alloc PT [0..<NUM_PAG_DATA] m = (True, m') \<and> mapped_fresh PT data_pages fs m m'
    else \<exists>m'. fork_alloc PT [0..<NUM_PAG_DATA] m = (False, m') \<and> phys_mem m' = phys_mem m \<and> cr3 m' = cr3 m \<and>
      (\<forall>a. ptes m' a = ptes m a \<or> ptes m' a = 0 \<and> a \<in> (\<lambda>p. pt_slot PT (of_nat p)) ` set data_pages)"
proof (cases "20 \<le> card (avail m)")
  case True
  then obtain m' fs where "map_frames PT data_pages m = Some m'" "mapped_fresh PT data_pages fs m m'"
    using map_frames_fresh [OF wf data_pages_props(1,4), of PT] data_pages_props(3) by auto
  then show ?thesis using True fork_alloc_some by auto
next
  case False
  then have "map_frames PT data_pages m = None"
    using map_frames_fresh [OF wf data_pages_props(1,4), of PT] data_pages_props(3) by simp
  from map_frames_none [OF this] obtain j mj where j: "j < 20" "alloc_frame mj = (-1, mj)"
    "map_frames PT (take j data_pages) m = Some mj" unfolding data_pages_props(3) by blast
  have n: "NUM_PAG_DATA = 20" by (simp add: NUM_PAG_DATA_def)
  let ?ps = "map (\<lambda>i. PAG_LOG_INIT_DATA + i) [0..<j]"
  have t: "take j data_pages = ?ps" using j(1) by (simp add: take_map n)
  have ps: "distinct ?ps" "set ?ps \<subseteq> {..<TOTAL_PAGES}" "set ?ps \<subseteq> set data_pages"
    using data_pages_props(1,4) set_take_subset [of j data_pages] distinct_take [of data_pages j] unfolding t by (blast+)
  obtain fs where fs: "mapped_fresh PT ?ps fs m mj"
    using map_frames_fresh [OF wf ps(1,2), of PT] j(3) unfolding t by (auto split: if_splits)
  let ?m = "fold (unmap_page PT) ?ps mj"
  have "fork_alloc PT [0..<NUM_PAG_DATA] m = (False, release_data PT [0..<[0..<NUM_PAG_DATA] ! j] mj)"
    using j t by (intro fork_alloc_none) (simp_all add: n take_map)
  then have eq: "fork_alloc PT [0..<NUM_PAG_DATA] m = (False, ?m)" using j(1) by (simp add: n release_data_unmap)
  have "phys_mem ?m = phys_mem m" by (rule unmap_mapped_fresh [OF wf fs ps(1,2) k ps(1) refl])
  moreover have l: "length (phys_mem mj) = TOTAL_PAGES" using fs by (simp add: mapped_fresh_def frames_wf_def)
  have "ptes ?m a = ptes m a \<or> ptes ?m a = 0 \<and> a \<in> (\<lambda>p. pt_slot PT (of_nat p)) ` set data_pages" for a
    using unmap_pages_effect(2) [OF ps(1,2) l, of 0 PT a] fs ps(3) by (auto simp: mapped_fresh_def TOTAL_PAGES_def)
  moreover have "cr3 ?m = cr3 m"
    using unmap_pages_effect(4) [OF ps(1,2) l, of 0 PT] fs by (simp add: mapped_fresh_def TOTAL_PAGES_def)
  ultimately show ?thesis using eq False by auto
qed

section \<open>Sharing kernel and code pages\<close>

lemma fold_share:
  assumes L: "symtab_ok L" and ij: "i < NR_TASKS" "j < NR_TASKS" "i \<noteq> j" and ps: "set ps \<subseteq> {..<TOTAL_PAGES}"
  defines "F \<equiv> \<lambda>p m. set_ss_pag (pagusr_table L i) (of_nat p) (get_frame (pagusr_table L j) (of_nat p) m) m"
  shows "\<And>p. p < TOTAL_PAGES \<Longrightarrow> pte_of L i (fold F ps m) p =
      (if p \<in> set ps then user_pte (pbase_addr (pte_of L j m p)) else pte_of L i m p)"
    and "\<And>a. (\<And>p. p \<in> set ps \<Longrightarrow> a \<noteq> pt_slot (pagusr_table L i) (of_nat p)) \<Longrightarrow> ptes (fold F ps m) a = ptes m a"
    and "phys_mem (fold F ps m) = phys_mem m" and "cr3 (fold F ps m) = cr3 m"
proof -
  have "(\<forall>p<TOTAL_PAGES. pte_of L i (fold F ps m) p =
      (if p \<in> set ps then user_pte (pbase_addr (pte_of L j m p)) else pte_of L i m p)) \<and>
    (\<forall>a. (\<forall>p \<in> set ps. a \<noteq> pt_slot (pagusr_table L i) (of_nat p)) \<longrightarrow> ptes (fold F ps m) a = ptes m a) \<and>
    phys_mem (fold F ps m) = phys_mem m \<and> cr3 (fold F ps m) = cr3 m"
    using ps
  proof (induction ps rule: rev_induct)
    case (snoc q ps)
    let ?m = "fold F ps m"
    have IH: "\<And>p. p < TOTAL_PAGES \<Longrightarrow> pte_of L i ?m p = (if p \<in> set ps then user_pte (pbase_addr (pte_of L j m p)) else pte_of L i m p)"
      "\<And>a. (\<forall>p \<in> set ps. a \<noteq> pt_slot (pagusr_table L i) (of_nat p)) \<Longrightarrow> ptes ?m a = ptes m a"
      "phys_mem ?m = phys_mem m" "cr3 ?m = cr3 m" using snoc by auto
    have q: "q < TOTAL_PAGES" using snoc.prems by simp
    have "pte_of L j ?m q = pte_of L j m q"
      unfolding pte_of_def by (rule IH(2)) (use table_slot_inject [OF L ij(2) q ij(1)] ij(3) snoc.prems in auto)
    then have "get_frame (pagusr_table L j) (of_nat q) ?m = pbase_addr (pte_of L j m q)"
      by (simp add: get_frame_def pte_of_def)
    then have eq: "fold F (ps @ [q]) m = set_ss_pag (pagusr_table L i) (of_nat q) (pbase_addr (pte_of L j m q)) ?m"
      by (simp add: F_def)
    show ?case
      unfolding eq using IH table_slot_inject [OF L ij(1) _ ij(1) q]
      by (auto simp: pte_of_def ptes_set_ss_pag)
  qed (auto simp: pte_of_def)
  then show "\<And>p. p < TOTAL_PAGES \<Longrightarrow> pte_of L i (fold F ps m) p =
      (if p \<in> set ps then user_pte (pbase_addr (pte_of L j m p)) else pte_of L i m p)"
    "\<And>a. (\<And>p. p \<in> set ps \<Longrightarrow> a \<noteq> pt_slot (pagusr_table L i) (of_nat p)) \<Longrightarrow> ptes (fold F ps m) a = ptes m a"
    "phys_mem (fold F ps m) = phys_mem m" "cr3 (fold F ps m) = cr3 m" by auto
qed

text \<open>\<open>fork_share\<close> gives the child the frames of the kernel and code pages of the parent, all of them accessible
  from user mode and writable.\<close>

lemma fork_share_fold:
  "fork_share PT PT' m = fold (\<lambda>p m. set_ss_pag PT (of_nat p) (get_frame PT' (of_nat p) m) m) [0..<264] m"
proof -
  have c: "NUM_PAG_KERNEL = 256" "NUM_PAG_CODE = 8" "PAG_LOG_INIT_CODE = 256" by (simp_all add: layout_consts)
  have "[0..<264] = [0..<256] @ map (\<lambda>p. 256 + p) [0..<8 :: nat]"
    using upt_add_eq_append [of 0 256 8] map_add_upt [of 256 8] by (simp add: add.commute)
  then show ?thesis by (simp add: fork_share_def Let_def c fold_map comp_def)
qed

lemma fork_share_effect:
  fixes L :: symtab and m :: mm_state
  assumes L: "symtab_ok L" and ij: "i < NR_TASKS" "j < NR_TASKS" "i \<noteq> j"
  defines "m' \<equiv> fork_share (pagusr_table L i) (pagusr_table L j) m"
  shows "\<And>p. p < TOTAL_PAGES \<Longrightarrow> pte_of L i m' p = (if p < 264 then user_pte (pbase_addr (pte_of L j m p)) else pte_of L i m p)"
    and "\<And>a. (\<And>p. p < 264 \<Longrightarrow> a \<noteq> pt_slot (pagusr_table L i) (of_nat p)) \<Longrightarrow> ptes m' a = ptes m a"
    and "phys_mem m' = phys_mem m" and "cr3 m' = cr3 m"
proof -
  have "set [0..<264] \<subseteq> {..<TOTAL_PAGES}" by (auto simp: TOTAL_PAGES_def)
  note f = fold_share [OF L ij this, where m = m]
  show "pte_of L i m' p = (if p < 264 then user_pte (pbase_addr (pte_of L j m p)) else pte_of L i m p)"
    if "p < TOTAL_PAGES" for p using f(1) [OF that] by (simp add: m'_def fork_share_fold)
  show "ptes m' a = ptes m a" if "\<And>p. p < 264 \<Longrightarrow> a \<noteq> pt_slot (pagusr_table L i) (of_nat p)" for a
    using f(2) [of a] that by (simp add: m'_def fork_share_fold)
  show "phys_mem m' = phys_mem m" "cr3 m' = cr3 m" using f(3,4) by (simp_all add: m'_def fork_share_fold)
qed

section \<open>Copying the data pages\<close>

lemma take_bit_pbase_addr [simp]: "take_bit 20 (pbase_addr e) = pbase_addr e"
proof -
  have "unat (pbase_addr e) < 2 ^ 20" by (rule pbase_addr_less)
  then have "unat (take_bit 20 (pbase_addr e)) = unat (pbase_addr e)" by (simp add: take_bit_eq_mod unat_mod)
  then show ?thesis by (simp only: word_unat_eq_iff)
qed

lemma dirs_ok_slots:
  assumes L: "symtab_ok L" and d: "dirs_ok L m" and j: "j < NR_TASKS"
    and e: "\<And>a. (\<And>p. p < TOTAL_PAGES \<Longrightarrow> a \<noteq> pt_slot (pagusr_table L j) (of_nat p)) \<Longrightarrow> ptes m' a = ptes m a"
  shows "dirs_ok L m'"
  unfolding dirs_ok_def
proof (intro allI impI)
  fix i assume i: "i < NR_TASKS"
  have "ptes m' (dir_pages L i) = ptes m (dir_pages L i)" by (rule e) (rule dir_not_slot [OF L i j])
  then show "ptes m' (dir_pages L i) = user_pte (drop_bit 12 (pagusr_table L i))" using d i by (simp add: dirs_ok_def)
qed

definition window_pages :: "symtab \<Rightarrow> nat \<Rightarrow> nat list \<Rightarrow> ptr set" where
  "window_pages L j ps = (\<lambda>p. pt_slot (pagusr_table L j) (of_nat (p + NUM_PAG_DATA))) ` set ps"

definition pages_copied :: "symtab \<Rightarrow> nat \<Rightarrow> nat list \<Rightarrow> (nat \<Rightarrow> nat) \<Rightarrow> (nat \<Rightarrow> nat) \<Rightarrow> kstate \<Rightarrow> kstate \<Rightarrow> bool" where
  "pages_copied L j ps F G s s' \<longleftrightarrow> s' = s\<lparr>ram := ram s', mm := mm s'\<rparr> \<and>
     phys_mem (mm s') = phys_mem (mm s) \<and> cr3 (mm s') = cr3 (mm s) \<and>
     (\<forall>a. ptes (mm s') a = (if a \<in> window_pages L j ps then 0 else ptes (mm s) a)) \<and>
     (\<forall>p \<in> set ps. \<forall>k<4096. ram s' (of_nat (F p * 4096 + k)) = ram s (of_nat (G p * 4096 + k))) \<and>
     (\<forall>x. unat x div 4096 \<notin> F ` set ps \<longrightarrow> ram s' x = ram s x)"

lemma fork_copy_step:
  assumes L: "symtab_ok L" and d: "dirs_ok L (mm s)" and ij: "i < NR_TASKS" "j < NR_TASKS" "i \<noteq> j"
    and c: "cr3 (mm s) = dir_pages L j" and p: "p + NUM_PAG_DATA < TOTAL_PAGES"
    and par: "pte_present (pte_of L j (mm s) p)" "unat (pbase_addr (pte_of L j (mm s) p)) = G p"
    and chi: "unat (pbase_addr (pte_of L i (mm s) p)) = F p" and FG: "F p \<noteq> G p"
  obtains s' where "pages_copied L j [p] F G s s'"
    "fork_copy (pagusr_table L i) (pagusr_table L j) (p # ps) s = fork_copy (pagusr_table L i) (pagusr_table L j) ps s'"
proof -
  let ?PT = "pagusr_table L j" and ?q = "p + NUM_PAG_DATA"
  let ?f = "pbase_addr (pte_of L i (mm s) p)"
  let ?s1 = "upd_mm (set_ss_pag ?PT (of_nat ?q) ?f) s"
  have n: "NUM_PAG_DATA = 20" by (simp add: NUM_PAG_DATA_def)
  have pp: "p < TOTAL_PAGES" "p \<noteq> ?q" using p by (simp_all add: n)
  have d1: "dirs_ok L (mm ?s1)"
  proof (rule dirs_ok_slots [OF L d ij(2)])
    fix a assume "\<And>p. p < TOTAL_PAGES \<Longrightarrow> a \<noteq> pt_slot ?PT (of_nat p)"
    from this [OF p] show "ptes (mm ?s1) a = ptes (mm s) a" by (simp add: ptes_set_ss_pag)
  qed
  have P: "pte_of L j (mm ?s1) p = pte_of L j (mm s) p"
    using table_slot_inject [OF L ij(2) pp(1) ij(2) p] pp(2) by (simp add: pte_of_def ptes_set_ss_pag)
  have Q: "pte_of L j (mm ?s1) ?q = user_pte ?f" by (simp add: pte_of_def ptes_set_ss_pag)
  have Q2: "pte_present (pte_of L j (mm ?s1) ?q)" "unat (pbase_addr (pte_of L j (mm ?s1) ?q)) = F p"
    unfolding Q using pbase_addr_less [of "pte_of L i (mm s) p"] chi by simp_all
  obtain r where r: "vm_copy (of_nat (p * 2 ^ 12)) (of_nat (?q * 2 ^ 12)) PAGE_SIZE ?s1 = Some (?s1\<lparr>ram := r\<rparr>)"
    "\<And>k. k < 4096 \<Longrightarrow> r (of_nat (F p * 4096 + k)) = ram ?s1 (of_nat (G p * 4096 + k))"
    "\<And>x. unat x div 4096 \<noteq> F p \<Longrightarrow> r x = ram ?s1 x"
    by (rule vm_copy_page [OF L d1 ij(2) _ pp(1) p pp(2), of "G p" "F p"]) (use c par FG Q2 P in simp_all)
  let ?s2 = "upd_mm (del_ss_pag ?PT (of_nat ?q)) (?s1\<lparr>ram := r\<rparr>)"
  show thesis
  proof (rule that [of ?s2])
    have "ptes (mm ?s2) a = (if a \<in> window_pages L j [p] then 0 else ptes (mm s) a)" for a
      by (simp add: window_pages_def ptes_set_ss_pag del_ss_pag_def)
    then show "pages_copied L j [p] F G s ?s2"
      unfolding pages_copied_def using r(2,3) by (simp add: upd_mm_def del_ss_pag_def set_ss_pag_def)
    have "get_frame (pagusr_table L i) (of_nat p) (mm s) = ?f" by (simp add: get_frame_def pte_of_def)
    then show "fork_copy (pagusr_table L i) ?PT (p # ps) s = fork_copy (pagusr_table L i) ?PT ps ?s2"
      using r(1) by (simp add: Let_def)
  qed
qed

lemma pages_copied_Cons:
  assumes 1: "pages_copied L j [p] F G s s1" and 2: "pages_copied L j ps F G s1 s'"
    and F: "inj_on F (insert p (set ps))" "p \<notin> set ps" and FG: "F ` insert p (set ps) \<inter> G ` insert p (set ps) = {}"
    and lim: "\<forall>q \<in> set ps. G q < 2 ^ 20" "F p < 2 ^ 20"
  shows "pages_copied L j (p # ps) F G s s'"
proof -
  have u: "unat (of_nat (f * 4096 + k) :: ptr) div 4096 = f" if "f < 2 ^ 20" "k < 4096" for f k
  proof -
    have "unat (of_nat (f * 4096 + k) :: ptr) = f * 4096 + k" using that by (subst unat_of_nat_word32) simp_all
    then show ?thesis using that(2) by simp
  qed
  have s: "s1 = s\<lparr>ram := ram s1, mm := mm s1\<rparr>" "s' = s1\<lparr>ram := ram s', mm := mm s'\<rparr>"
    using 1 2 unfolding pages_copied_def by blast+
  have k1: "ram s1 x = ram s x" if "unat x div 4096 \<noteq> F p" for x using 1 that by (simp add: pages_copied_def)
  have k2: "ram s' x = ram s1 x" if "unat x div 4096 \<notin> F ` set ps" for x using 2 that by (simp add: pages_copied_def)
  have "ram s' (of_nat (F q * 4096 + k)) = ram s (of_nat (G q * 4096 + k))" if q: "q \<in> set (p # ps)" "k < 4096" for q k
  proof (cases "q = p")
    case True
    have "F p \<notin> F ` set ps" using F by (auto simp: inj_on_def)
    then have "ram s' (of_nat (F p * 4096 + k)) = ram s1 (of_nat (F p * 4096 + k))"
      using u [OF lim(2) q(2)] by (intro k2) simp
    then show ?thesis using 1 q(2) True by (simp add: pages_copied_def)
  next
    case False
    then have "q \<in> set ps" using q(1) by simp
    then have "G q \<noteq> F p" using FG by (metis IntI empty_iff imageI insertCI)
    then have "ram s1 (of_nat (G q * 4096 + k)) = ram s (of_nat (G q * 4096 + k))"
      using u [OF bspec [OF lim(1) \<open>q \<in> set ps\<close>] q(2)] by (intro k1) simp
    then show ?thesis using 2 q(2) \<open>q \<in> set ps\<close> by (simp add: pages_copied_def)
  qed
  moreover have "ptes (mm s') a = (if a \<in> window_pages L j (p # ps) then 0 else ptes (mm s) a)" for a
    using 1 2 by (simp add: pages_copied_def window_pages_def)
  moreover have "s' = s\<lparr>ram := ram s', mm := mm s'\<rparr>" by (rule trans [OF s(2)], subst s(1)) simp
  ultimately show ?thesis using 1 2 k1 k2 by (auto simp: pages_copied_def)
qed

lemma fork_copy_pages:
  assumes L: "symtab_ok L" and ij: "i < NR_TASKS" "j < NR_TASKS" "i \<noteq> j"
  shows "dirs_ok L (mm s) \<Longrightarrow> cr3 (mm s) = dir_pages L j \<Longrightarrow> distinct ps \<Longrightarrow> set ps \<subseteq> {264..<284} \<Longrightarrow>
     \<forall>p \<in> set ps. pte_present (pte_of L j (mm s) p) \<and> unat (pbase_addr (pte_of L j (mm s) p)) = G p \<and>
       unat (pbase_addr (pte_of L i (mm s) p)) = F p \<Longrightarrow>
     inj_on F (set ps) \<Longrightarrow> F ` set ps \<inter> G ` set ps = {} \<Longrightarrow>
     \<exists>s'. fork_copy (pagusr_table L i) (pagusr_table L j) ps s = Some s' \<and> pages_copied L j ps F G s s'"
proof (induction ps arbitrary: s)
  case Nil
  then show ?case by (simp add: pages_copied_def window_pages_def)
next
  case (Cons p ps)
  have n: "NUM_PAG_DATA = 20" by (simp add: NUM_PAG_DATA_def)
  have p: "p + NUM_PAG_DATA < TOTAL_PAGES" using Cons.prems(4) by (simp add: n TOTAL_PAGES_def)
  have fg: "F p \<noteq> G p" using Cons.prems(7) by auto
  obtain s1 where s1: "pages_copied L j [p] F G s s1"
    "fork_copy (pagusr_table L i) (pagusr_table L j) (p # ps) s = fork_copy (pagusr_table L i) (pagusr_table L j) ps s1"
    by (rule fork_copy_step [OF L Cons.prems(1) ij Cons.prems(2) p, of G F ps]) (use Cons.prems(5) fg in simp_all)
  have win: "a \<notin> window_pages L j [p]" if "\<And>q. q < TOTAL_PAGES \<Longrightarrow> a \<noteq> pt_slot (pagusr_table L j) (of_nat q)" for a
    using that [OF p] by (simp add: window_pages_def)
  have same: "pte_of L k (mm s1) q = pte_of L k (mm s) q" if "k < NR_TASKS" "q < 284" for k q
  proof -
    have q: "q < TOTAL_PAGES" "q \<noteq> p + NUM_PAG_DATA" using that(2) Cons.prems(4) by (auto simp: n TOTAL_PAGES_def)
    then have "pt_slot (pagusr_table L k) (of_nat q) \<notin> window_pages L j [p]"
      using table_slot_inject [OF L that(1) q(1) ij(2) p] by (simp add: window_pages_def)
    then show ?thesis using s1(1) by (simp add: pages_copied_def pte_of_def)
  qed
  have "\<exists>s'. fork_copy (pagusr_table L i) (pagusr_table L j) ps s1 = Some s' \<and> pages_copied L j ps F G s1 s'"
  proof (rule Cons.IH)
    show "dirs_ok L (mm s1)"
      by (rule dirs_ok_slots [OF L Cons.prems(1) ij(2)]) (use s1(1) win in \<open>simp add: pages_copied_def\<close>)
    show "cr3 (mm s1) = dir_pages L j" using s1(1) Cons.prems(2) by (simp add: pages_copied_def)
    show "\<forall>q\<in>set ps. pte_present (pte_of L j (mm s1) q) \<and> unat (pbase_addr (pte_of L j (mm s1) q)) = G q \<and>
        unat (pbase_addr (pte_of L i (mm s1) q)) = F q"
      using Cons.prems(4,5) same ij by auto
  qed (use Cons.prems in auto)
  then obtain s' where s': "fork_copy (pagusr_table L i) (pagusr_table L j) ps s1 = Some s'" "pages_copied L j ps F G s1 s'" by blast
  have "pages_copied L j (p # ps) F G s s'"
  proof (rule pages_copied_Cons [OF s1(1) s'(2)])
    show "\<forall>q\<in>set ps. G q < 2 ^ 20" "F p < 2 ^ 20" using Cons.prems(5) by (metis pbase_addr_less list.set_intros)+
  qed (use Cons.prems in auto)
  then show ?case using s1(2) s'(1) by auto
qed

section \<open>The child's task structure\<close>

lemma allocate_DIR_task:
  assumes L: "symtab_ok L" and i: "i < NR_TASKS"
  shows "allocate_DIR L (task L i) s = upd_task (task L i) (\<lambda>T. T\<lparr>dir_pages_baseAddr := dir_pages L i\<rparr>) s"
proof -
  have "task L i - task L 0 = of_nat (i * 4096)"
    by (simp add: task_def protected_tasks_def PAGE_SIZE_def algebra_simps)
  moreover have "unat (of_nat (i * 4096) :: ptr) = i * 4096"
    using i by (subst unat_of_nat_word32) (simp_all add: NR_TASKS_def)
  ultimately have "unat ((task L i - task L 0) div of_nat PAGE_SIZE) = i" by (simp add: unat_div PAGE_SIZE_def)
  then show ?thesis by (simp add: allocate_DIR_def Let_def)
qed

text \<open>The state of \<open>sys_fork\<close> before it allocates pages: the child has left the free queue, is a copy of
  the running task with its own directory, and the semaphores are initialised again.\<close>

definition fork_prepare :: "symtab \<Rightarrow> ptr \<Rightarrow> kstate \<Rightarrow> kstate" where
  "fork_prepare L c s =
     (let s = copy_task (current s) c (upd_links (list_del (tnode c)) s)
      in allocate_DIR L c (init_sems (semafors (tasks s c)) s))"

lemma fork_prepare_simps [simp]:
  "mm (fork_prepare L c s) = mm s" "ram (fork_prepare L c s) = ram s" "esp (fork_prepare L c s) = esp s"
  "idle_task (fork_prepare L c s) = idle_task s" "tss_esp0 (fork_prepare L c s) = tss_esp0 s"
  "msr_175 (fork_prepare L c s) = msr_175 s" "global_PID (fork_prepare L c s) = global_PID s"
  "current (fork_prepare L c s) = current s"
  by (simp_all add: fork_prepare_def Let_def allocate_DIR_def init_sems_eq copy_task_def current_def)

lemma task_end: "symtab_ok L \<Longrightarrow> i < NR_TASKS \<Longrightarrow> unat (task L i) + 4096 \<le> 2 ^ 32"
  using symtab_okD(1) [of L] by (simp add: unat_task kernel_obj_def NR_TASKS_def layout_consts)

lemma fork_prepare_kstack:
  assumes c: "unat c + 4096 \<le> 2 ^ 32" and k: "k < 4096"
  shows "kstack (fork_prepare L c s) (c + of_nat k) = kstack s (current s + of_nat k)"
proof -
  have "unat (c + of_nat k) = unat c + k" using c k by (subst unat_plus_word32) (simp_all add: unat_of_nat)
  then show ?thesis using k
    by (simp add: fork_prepare_def Let_def allocate_DIR_def init_sems_eq copy_task_def current_def PAGE_SIZE_def add.commute)
qed

text \<open>An address on a page other than the child's is left alone.\<close>

lemma page_range:
  fixes c x :: ptr
  assumes c: "unat c mod 4096 = 0" and x: "x AND 0xfffff000 \<noteq> c"
  shows "\<not> (unat c \<le> unat x \<and> unat x < unat c + 4096)" and "k < 4096 \<Longrightarrow> x \<noteq> c + of_nat k"
proof -
  show ne: "x \<noteq> c + of_nat k" if "k < 4096" for k using page_mask_offset [OF c that] x by auto
  show "\<not> (unat c \<le> unat x \<and> unat x < unat c + 4096)"
  proof
    assume a: "unat c \<le> unat x \<and> unat x < unat c + 4096"
    then have "x = c + of_nat (unat x - unat c)" by (simp add: of_nat_diff)
    moreover have "unat x - unat c < 4096" using a by linarith
    ultimately show False using ne by blast
  qed
qed

lemma fork_prepare_kstack_other:
  assumes "unat c mod 4096 = 0" "x AND 0xfffff000 \<noteq> c"
  shows "kstack (fork_prepare L c s) x = kstack s x"
  using page_range(1) [OF assms]
  by (auto simp: fork_prepare_def Let_def allocate_DIR_def init_sems_eq copy_task_def PAGE_SIZE_def)

lemma fork_prepare_tasks:
  assumes L: "symtab_ok L" and i: "i < NR_TASKS"
  shows "tasks (fork_prepare L (task L i) s) u =
    (if u = task L i then (tasks s (current s))\<lparr>dir_pages_baseAddr := dir_pages L i\<rparr> else tasks s u)"
  by (simp add: fork_prepare_def Let_def allocate_DIR_task [OF L i] init_sems_eq copy_task_def current_def)

lemma fork_prepare_sems:
  assumes L: "symtab_ok L" and a: "semafors (tasks s (current s)) = sym_semafor_proces L" and k: "k < NUM_SEM"
  shows "sems (fork_prepare L c s) (sem_of L k) = \<lparr>semid = -1, count = 0, sem_PID = -1\<rparr>"
proof -
  have "inj_on (sem_of L) (set [0..<NUM_SEM])" using L by (auto simp: inj_on_def)
  from fold_upd_in [OF this, of k "\<lambda>_. \<lparr>semid = -1, count = 0, sem_PID = -1\<rparr>"] k a
  show ?thesis by (simp add: fork_prepare_def Let_def allocate_DIR_def init_sems_eq copy_task_def current_def sem_of_def)
qed

lemma queues_fresh_node:
  assumes L: "symtab_ok L" and q: "queues L h Q" and t: "t \<in> tasks_of L" "t \<notin> queued L Q"
  shows "queues L (h(tnode t := v)) Q"
proof -
  have "dlist (h(tnode t := v)) r (map tnode (Q r))" if "r \<in> heads L" for r
  proof -
    have "dlist (h(tnode t := v)) r (map tnode (Q r)) = dlist h r (map tnode (Q r))"
      by (rule dlist_cong) (use queues_node_fresh [OF L t that] in auto)
    then show ?thesis using queuesD(1) [OF q that] by simp
  qed
  then show ?thesis using q by (simp add: queues_unfold)
qed

lemma queues_init_sems:
  assumes L: "symtab_ok L" and q: "queues L h Q" and e: "\<And>k. k < NUM_SEM \<Longrightarrow> Q (sem_queue L k) = []"
  shows "queues L (fold (\<lambda>k. INIT_LIST_HEAD (sem_queue L k)) [0..<NUM_SEM] h) Q"
proof -
  have "queues L (fold (\<lambda>k. INIT_LIST_HEAD (sem_queue L k)) [0..<n] h) Q" if "n \<le> NUM_SEM" for n
    using that
  proof (induction n)
    case (Suc n)
    have "Q(sem_queue L n := []) = Q" using e [of n] Suc.prems by (simp add: fun_upd_idem)
    then show ?case using queues_init [OF L Suc.IH, of "sem_queue L n"] Suc.prems by simp
  qed (simp add: q)
  then show ?thesis by blast
qed

lemma fork_prepare_queues:
  assumes L: "symtab_ok L" and inv: "kernel_inv L s A" and ni: "current s \<noteq> idle_task s"
    and c: "a_queue A (freequeue L) = c # fs"
    and e: "\<And>k. k < NUM_SEM \<Longrightarrow> a_queue A (sem_queue L k) = []"
  shows "queues L (links (fork_prepare L c s)) ((a_queue A)(freequeue L := fs))"
    and "semafors (tasks s (current s)) = sym_semafor_proces L"
    and "c \<in> tasks_of L" "c \<noteq> current s" "c \<noteq> idle_task s" "c \<notin> queued L ((a_queue A)(freequeue L := fs))"
    and "insert c (queued L ((a_queue A)(freequeue L := fs))) = queued L (a_queue A)"
proof -
  let ?Q = "(a_queue A)(freequeue L := fs)"
  have rel: "sched_rel L s A" and sinv: "sem_inv L s (a_queue A)" using inv by (auto simp: kernel_inv_def)
  note r = sched_relD [OF rel]
  have cq: "c \<in> set (a_queue A (freequeue L))" using c by simp
  show ct: "c \<in> tasks_of L" using queuesD(2) [OF r(2)] cq by blast
  show "c \<noteq> current s" using not_queuedD [OF r(5), of "freequeue L"] cq by auto
  show "c \<noteq> idle_task s" using r(1) cq by (auto simp: tasks_placed_def)
  have "current s \<notin> set (a_queue A (freequeue L))" using not_queuedD [OF r(5)] by simp
  then show a: "semafors (tasks s (current s)) = sym_semafor_proces L" using sinv r(4) ni by (simp add: sem_inv_def)
  have q: "queues L (list_del (tnode c) (links s)) ?Q"
    using queues_del [OF L r(2), of "freequeue L" "[]" c fs] c by simp
  have qd: "queued L ?Q = queued L (a_queue A) - {c}" using queued_del [OF r(2), of "freequeue L" "[]" c fs] c by simp
  then show nq: "c \<notin> queued L ?Q" by simp
  have "c \<in> queued L (a_queue A)" using cq by (auto simp: queued_unfold)
  then show "insert c (queued L ?Q) = queued L (a_queue A)" using qd by auto
  have "links (fork_prepare L c s) = fold (\<lambda>k. INIT_LIST_HEAD (sem_queue L k)) [0..<NUM_SEM]
      ((list_del (tnode c) (links s))(tnode c := list_del (tnode c) (links s) (tnode (current s))))"
    using a by (simp add: fork_prepare_def Let_def allocate_DIR_def init_sems_eq copy_task_def current_def sem_queue_def)
  moreover have "queues L \<dots> ?Q"
    using e L by (intro queues_init_sems [OF L] queues_fresh_node [OF L q ct nq]) simp
  ultimately show "queues L (links (fork_prepare L c s)) ?Q" by simp
qed

text \<open>The invariant at the end of a call that takes task \<open>c\<close> from the free queue, whether the task has become
  ready or is free again.\<close>

lemma new_task_inv:
  assumes L: "symtab_ok L" and inv: "kernel_inv L s A"
    and c: "c \<in> set (a_queue A (freequeue L))" and q: "queues L (links s') Q"
    and Q: "queued L Q = queued L (a_queue A)" "\<And>k. k < NUM_SEM \<Longrightarrow> set (Q (sem_queue L k)) \<subseteq> set (a_queue A (sem_queue L k))"
      "set (Q (freequeue L)) \<subseteq> set (a_queue A (freequeue L))" "set (a_queue A (freequeue L)) - {c} \<subseteq> set (Q (freequeue L))"
      "set (Q (readyqueue L)) \<subseteq> insert c (set (a_queue A (readyqueue L)))"
    and keep: "\<And>u. u \<noteq> c \<Longrightarrow> state (tasks s' u) = state (tasks s u) \<and> register_esp (tasks s' u) = register_esp (tasks s u) \<and>
        semafors (tasks s' u) = semafors (tasks s u) \<and> dir_pages_baseAddr (tasks s' u) = dir_pages_baseAddr (tasks s u)" "esp s' = esp s" "idle_task s' = idle_task s"
      "tss_esp0 s' = tss_esp0 s" "msr_175 s' = msr_175 s" "cr3 (mm s') = cr3 (mm s)"
    and sems: "\<And>k. k < NUM_SEM \<Longrightarrow> sem_ok k (sems s' (sem_of L k)) (Q (sem_queue L k))"
    and child: "c \<notin> set (Q (freequeue L)) \<Longrightarrow> state (tasks s' c) = ST_READY \<and> resumable s' c \<and> semafors (tasks s' c) = sym_semafor_proces L"
  shows "kernel_inv L s' \<lparr>a_queue = Q, a_cur = a_cur A\<rparr>"
proof -
  have rel: "sched_rel L s A" and sinv: "sem_inv L s (a_queue A)" using inv by (auto simp: kernel_inv_def)
  note r = sched_relD [OF rel]
  have cur: "current s' = current s" using keep(2) by (rule current_cong)
  have cc: "c \<noteq> current s" using not_queuedD [OF r(5), of "freequeue L"] c by auto
  have res: "resumable s' u = resumable s u" if "u \<noteq> c" for u using keep(1) [OF that] by (simp add: resumable_def)
  have ready: "state (tasks s' t) = ST_READY" if "t \<in> set (Q (readyqueue L))" for t
  proof (cases "t = c")
    case True
    then have "c \<notin> set (Q (freequeue L))" using queuesD(3) [OF q, of "freequeue L" "readyqueue L"] that L by auto
    then show ?thesis using child True by simp
  next
    case False
    then show ?thesis using that Q(5) r(1) keep(1) [OF False] by (auto simp: tasks_placed_def)
  qed
  have "resumable s' t" if "t \<in> tasks_of L" "t \<notin> set (Q (freequeue L))" "t \<noteq> current s'" for t
    using that child Q(4) r(1) res [of t] cur by (cases "t = c") (auto simp: tasks_placed_def)
  moreover have "state (tasks s' t) = ST_BLOCKED" if "k < NUM_SEM" "t \<in> set (Q (sem_queue L k))" for k t
  proof -
    have t: "t \<in> set (a_queue A (sem_queue L k))" using that Q(2) by blast
    then have "t \<noteq> c" using queuesD(3) [OF r(2), of "freequeue L" "sem_queue L k"] c that(1) L by auto
    then show ?thesis using t that(1) r(1) keep(1) by (simp add: tasks_placed_def)
  qed
  moreover have "idle_task s' \<notin> set (Q (sem_queue L k))" if "k < NUM_SEM" for k
    using Q(2) [OF that] r(1) keep(3) that by (auto simp: tasks_placed_def)
  ultimately have "tasks_placed L s' Q"
    using r(1) q Q(3) keep(3) ready by (auto simp: tasks_placed_def)
  then have "sched_rel L s' \<lparr>a_queue = Q, a_cur = a_cur A\<rparr>"
    using r(3-10) Q(1) cur keep cc by (simp add: sched_rel_def)
  moreover have "semafors (tasks s' t) = sym_semafor_proces L"
    if "t \<in> tasks_of L" "t \<notin> set (Q (freequeue L))" "t \<noteq> idle_task s'" for t
    using that child Q(4) sinv keep(1) [of t] keep(3) by (cases "t = c") (auto simp: sem_inv_def)
  then have "sem_inv L s' Q" using sems by (simp add: sem_inv_def)
  ultimately show ?thesis by (simp add: kernel_inv_def)
qed

text \<open>The queues after \<open>sys_fork\<close>: the child, the first free task, becomes the last ready one.\<close>

definition a_fork :: "symtab \<Rightarrow> sched_abs \<Rightarrow> sched_abs" where
  "a_fork L A = \<lparr>a_queue = (a_queue A)(freequeue L := tl (a_queue A (freequeue L)),
     readyqueue L := a_queue A (readyqueue L) @ [hd (a_queue A (freequeue L))]), a_cur = a_cur A\<rparr>"

text \<open>The two ends of such a call. The task was taken from the free queue, in a store \<open>h\<close> of links where it is in
  no queue, and is appended to the ready queue, or given back.\<close>

lemma new_task_ready:
  assumes L: "symtab_ok L" and inv: "kernel_inv L s A" and c: "a_queue A (freequeue L) = c # fs"
    and q: "queues L h ((a_queue A)(freequeue L := fs))" "c \<in> tasks_of L" "c \<notin> queued L ((a_queue A)(freequeue L := fs))"
      "insert c (queued L ((a_queue A)(freequeue L := fs))) = queued L (a_queue A)"
    and l: "links s' = list_add_tail (tnode c) (readyqueue L) h"
    and keep: "\<And>u. u \<noteq> c \<Longrightarrow> state (tasks s' u) = state (tasks s u) \<and> register_esp (tasks s' u) = register_esp (tasks s u) \<and>
        semafors (tasks s' u) = semafors (tasks s u) \<and> dir_pages_baseAddr (tasks s' u) = dir_pages_baseAddr (tasks s u)" "esp s' = esp s" "idle_task s' = idle_task s"
      "tss_esp0 s' = tss_esp0 s" "msr_175 s' = msr_175 s" "cr3 (mm s') = cr3 (mm s)"
    and sems: "\<And>k. k < NUM_SEM \<Longrightarrow> sem_ok k (sems s' (sem_of L k)) (a_queue A (sem_queue L k))"
    and child: "state (tasks s' c) = ST_READY" "resumable s' c" "semafors (tasks s' c) = sym_semafor_proces L"
  shows "kernel_inv L s' (a_fork L A)"
  unfolding a_fork_def c list.sel
proof (rule new_task_inv [OF L inv, of c])
  let ?Q = "(a_queue A)(freequeue L := fs, readyqueue L := a_queue A (readyqueue L) @ [c])"
  show "queues L (links s') ?Q" using queues_enq [OF L q(1-3), of "readyqueue L"] L by (simp add: l)
  show "queued L ?Q = queued L (a_queue A)"
    using queued_add [of "readyqueue L" L "a_queue A (readyqueue L) @ [c]" c "(a_queue A)(freequeue L := fs)"] q(4) L by simp
qed (use L c keep sems child in auto)

lemma new_task_free:
  assumes L: "symtab_ok L" and inv: "kernel_inv L s A" and c: "a_queue A (freequeue L) = c # fs"
    and q: "queues L h ((a_queue A)(freequeue L := fs))" "c \<in> tasks_of L" "c \<notin> queued L ((a_queue A)(freequeue L := fs))"
      "insert c (queued L ((a_queue A)(freequeue L := fs))) = queued L (a_queue A)"
    and l: "links s' = list_add_tail (tnode c) (freequeue L) h"
    and keep: "\<And>u. u \<noteq> c \<Longrightarrow> state (tasks s' u) = state (tasks s u) \<and> register_esp (tasks s' u) = register_esp (tasks s u) \<and>
        semafors (tasks s' u) = semafors (tasks s u) \<and> dir_pages_baseAddr (tasks s' u) = dir_pages_baseAddr (tasks s u)" "esp s' = esp s" "idle_task s' = idle_task s"
      "tss_esp0 s' = tss_esp0 s" "msr_175 s' = msr_175 s" "cr3 (mm s') = cr3 (mm s)"
    and sems: "\<And>k. k < NUM_SEM \<Longrightarrow> sem_ok k (sems s' (sem_of L k)) (a_queue A (sem_queue L k))"
  shows "kernel_inv L s' \<lparr>a_queue = (a_queue A)(freequeue L := fs @ [c]), a_cur = a_cur A\<rparr>"
proof (rule new_task_inv [OF L inv, of c])
  show "queues L (links s') ((a_queue A)(freequeue L := fs @ [c]))"
    using queues_enq [OF L q(1-3), of "freequeue L"] by (simp add: l)
  show "queued L ((a_queue A)(freequeue L := fs @ [c])) = queued L (a_queue A)"
    using queued_add [of "freequeue L" L "fs @ [c]" c "(a_queue A)(freequeue L := fs)"] q(4) by simp
qed (use L c keep sems in auto)

text \<open>The stack pointers that \<open>fork_finish\<close> and \<open>sys_threadCreate\<close> give to a new task.\<close>

lemma new_task_resumable:
  assumes "symtab_ok L" "c \<in> tasks_of L"
  shows "register_esp (tasks s c) = c + 4020 \<Longrightarrow> resumable s c" "register_esp (tasks s c) = c + 4024 \<Longrightarrow> resumable s c"
  using page_mask_offset [OF task_aligned [OF assms], of 4016] page_mask_offset [OF task_aligned [OF assms], of 4020]
  by (simp_all add: resumable_def add.commute)

text \<open>The end of a successful call made by \<open>system_call_handler\<close>: the child resumes in \<open>ret_from_fork\<close>
  with the frame pointer of its parent.\<close>

lemma fork_finish_effect:
  fixes L :: symtab
  assumes c: "c \<noteq> current s" and e: "esp s = current s + 4032"
  defines "s' \<equiv> snd (fork_finish L c s)"
  shows "fst (fork_finish L c s) = wrap32 (global_PID s + 1)" and "PID (tasks s' c) = wrap32 (global_PID s + 1)"
    and "state (tasks s' c) = ST_READY" and "register_esp (tasks s' c) = c + 4020"
    and "dir_pages_baseAddr (tasks s' c) = dir_pages_baseAddr (tasks s c)"
    and "heap_start_proc (tasks s' c) = heap_start_proc (tasks s c)"
    and "heap_pointer_proc (tasks s' c) = heap_pointer_proc (tasks s c)"
    and "semafors (tasks s' c) = semafors (tasks s c)"
    and "kstack s' = (kstack s)(c + 4024 := sym_ret_from_fork L, c + 4020 := kstack s (c + 4024))"
    and "links s' = list_add_tail (tnode c) (readyqueue L) (links s)"
    and "mm s' = set_cr3 (dir_pages_baseAddr (tasks s (current s))) (mm s)"
    and "ram s' = ram s" "sems s' = sems s" "esp s' = esp s" "idle_task s' = idle_task s" "tss_esp0 s' = tss_esp0 s" "msr_175 s' = msr_175 s"
    and "tasks s' c = (tasks s c)\<lparr>PID := wrap32 (global_PID s + 1), state := ST_READY, register_esp := c + 4020, p_stats := p_stats (tasks s' c)\<rparr>"
proof -
  note defs = fork_finish_def Let_def s'_def get_DIR_def
  show "tasks s' c = (tasks s c)\<lparr>PID := wrap32 (global_PID s + 1), state := ST_READY, register_esp := c + 4020, p_stats := p_stats (tasks s' c)\<rparr>"
    using e by (simp add: defs)
  show "fst (fork_finish L c s) = wrap32 (global_PID s + 1)" by (simp add: defs)
  show "PID (tasks s' c) = wrap32 (global_PID s + 1)" by (simp add: defs)
  show "state (tasks s' c) = ST_READY" by (simp add: defs)
  show "register_esp (tasks s' c) = c + 4020" using e by (simp add: defs)
  show "dir_pages_baseAddr (tasks s' c) = dir_pages_baseAddr (tasks s c)" by (simp add: defs)
  show "heap_start_proc (tasks s' c) = heap_start_proc (tasks s c)" by (simp add: defs)
  show "heap_pointer_proc (tasks s' c) = heap_pointer_proc (tasks s c)" by (simp add: defs)
  show "semafors (tasks s' c) = semafors (tasks s c)" by (simp add: defs)
  show "kstack s' = (kstack s)(c + 4024 := sym_ret_from_fork L, c + 4020 := kstack s (c + 4024))"
    using e by (simp add: defs fun_eq_iff add.commute)
  show "links s' = list_add_tail (tnode c) (readyqueue L) (links s)" by (simp add: defs)
  show "mm s' = set_cr3 (dir_pages_baseAddr (tasks s (current s))) (mm s)" by (simp add: defs)
  show "ram s' = ram s" "sems s' = sems s" "esp s' = esp s" "idle_task s' = idle_task s" "tss_esp0 s' = tss_esp0 s" "msr_175 s' = msr_175 s"
    by (simp_all add: defs)
qed

lemma fork_finish_stats:
  "let st = p_stats (tasks (snd (fork_finish L c s)) c)
   in user_ticks st = 0 \<and> system_ticks st = 0 \<and> blocked_ticks st = 0 \<and> ready_ticks st = 0 \<and> total_trans st = 0"
  by (simp add: fork_finish_def Let_def init_stats_def read_ticks_def)

text \<open>The words it writes are two of the child's stack.\<close>

lemma fork_slots:
  fixes c :: ptr
  assumes "unat c + 4096 \<le> 2 ^ 32" "k < 4096"
  shows "c + of_nat k = c + 4020 \<longleftrightarrow> k = 4020" "c + of_nat k = c + 4024 \<longleftrightarrow> k = 4024"
proof -
  have "of_nat k = (of_nat m :: ptr) \<longleftrightarrow> k = m" if "m < 4096" for m
    using assms(2) that by (auto simp: word_unat_eq_iff unat_of_nat)
  from this [of 4020] this [of 4024] show "c + of_nat k = c + 4020 \<longleftrightarrow> k = 4020" "c + of_nat k = c + 4024 \<longleftrightarrow> k = 4024" by simp_all
qed

lemma fork_finish_other: "u \<noteq> c \<Longrightarrow> tasks (snd (fork_finish L c s)) u = tasks s u"
  by (simp add: fork_finish_def Let_def init_stats_def read_ticks_def)

section \<open>The whole call\<close>

text \<open>What \<open>sys_fork\<close> relies on: the running task uses directory \<open>j\<close>, the first free task is \<open>i\<close>, whose
  directory is another one, the call comes from \<open>system_call_handler\<close>, no thread waits on a semaphore,
  and the user pages of the parent are in frames that are in use.\<close>

definition fork_ready :: "symtab \<Rightarrow> kstate \<Rightarrow> sched_abs \<Rightarrow> nat \<Rightarrow> nat \<Rightarrow> bool" where
  "fork_ready L s A i j \<longleftrightarrow> kernel_inv L s A \<and> current s \<noteq> idle_task s \<and> esp s = msr_175 s - 64 \<and>
     i < NR_TASKS \<and> j < NR_TASKS \<and> i \<noteq> j \<and> (\<exists>fs. a_queue A (freequeue L) = task L i # fs) \<and>
     (\<forall>k<NUM_SEM. a_queue A (sem_queue L k) = []) \<and>
     dir_pages_baseAddr (tasks s (current s)) = dir_pages L j \<and> dirs_ok L (mm s) \<and>
     frames_wf (mm s) \<and> NUM_PAG_KERNEL \<notin> avail (mm s) \<and>
     (\<forall>p \<in> {PAG_LOG_INIT_CODE..<PAG_LOG_INIT_DATA + NUM_PAG_DATA}. pte_present (pte_of L j (mm s) p) \<and>
        unat (pbase_addr (pte_of L j (mm s) p)) \<notin> avail (mm s))"

lemma fork_readyD:
  assumes "fork_ready L s A i j"
  shows "kernel_inv L s A" "current s \<noteq> idle_task s" "esp s = msr_175 s - 64" "i < NR_TASKS" "j < NR_TASKS" "i \<noteq> j"
    "\<And>k. k < NUM_SEM \<Longrightarrow> a_queue A (sem_queue L k) = []" "dir_pages_baseAddr (tasks s (current s)) = dir_pages L j"
    "dirs_ok L (mm s)" "frames_wf (mm s)" "NUM_PAG_KERNEL \<notin> avail (mm s)"
    "\<And>p. 256 \<le> p \<Longrightarrow> p < 284 \<Longrightarrow> pte_present (pte_of L j (mm s) p)"
    "\<And>p. 256 \<le> p \<Longrightarrow> p < 284 \<Longrightarrow> unat (pbase_addr (pte_of L j (mm s) p)) \<notin> avail (mm s)"
    "a_queue A (freequeue L) = task L i # tl (a_queue A (freequeue L))"
  using assms unfolding fork_ready_def by (auto simp: layout_consts)

lemma sys_fork_eq:
  fixes m' :: mm_state
  assumes L: "symtab_ok L" and R: "fork_ready L s A i j"
    and al: "fork_alloc (pagusr_table L i) [0..<NUM_PAG_DATA] (mm s) = (ok, m')" and d: "dirs_ok L m'"
  defines "s4 \<equiv> (fork_prepare L (task L i) s)\<lparr>mm := m'\<rparr>"
  shows "sys_fork L s =
    (if \<not> ok then Some (- EAGAIN, upd_links (list_add_tail (tnode (task L i)) (freequeue L)) s4)
     else Option.bind (fork_copy (pagusr_table L i) (pagusr_table L j) 
         [NUM_PAG_KERNEL + NUM_PAG_CODE..<NUM_PAG_KERNEL + NUM_PAG_CODE + NUM_PAG_DATA]
         (upd_mm (fork_share (pagusr_table L i) (pagusr_table L j)) s4)) (\<lambda>s.
       Option.bind (fork_heap (pagusr_table L i) (pagusr_table L j) (NUM_PAG_KERNEL + NUM_PAG_CODE)
         (heap_start_proc (tasks s (current s))) s) (\<lambda>s.
       Some (fork_finish L (task L i) s))))"
proof -
  note f = fork_readyD [OF R]
  let ?c = "task L i" and ?s = "fork_prepare L (task L i) s"
  have rel: "sched_rel L s A" using f(1) by (simp add: kernel_inv_def)
  note q = sched_relD(2) [OF rel]
  have c: "?c \<in> tasks_of L" using f(4) by (simp add: tasks_of_def)
  have ne: "\<not> list_empty (freequeue L) (links s)" using queues_empty [OF q, of "freequeue L"] f(14) by (metis heads_memI(1) list.distinct(1))
  have fst: "list_first (freequeue L) (links s) = tnode ?c" using queues_first [OF q _ f(14)] by simp
  have pc: "task L i \<noteq> current s" by (rule fork_prepare_queues(4) [OF L f(1,2,14,7)])
  have PT: "get_PT ?c ?s = pagusr_table L i"
    by (rule get_PT_eq [OF L _ f(4)]) (use f(9) in \<open>simp_all add: fork_prepare_tasks [OF L f(4)]\<close>)
  have PT': "get_PT (current s) s4 = pagusr_table L j"
    by (rule get_PT_eq [OF L _ f(5)]) (use d f(8) pc in \<open>simp_all add: s4_def fork_prepare_tasks [OF L f(4)]\<close>)
  have "current s4 = current s" by (simp add: s4_def current_def)
  then show ?thesis
    using ne fst node_to_task [OF L c] PT PT' al
    by (simp add: sys_fork_def Let_def s4_def flip: fork_prepare_def [unfolded Let_def])
qed

text \<open>
  What a successful \<open>sys_fork\<close> does to memory, for child \<open>i\<close> and parent \<open>j\<close>: data page \<open>p\<close> of the
  child is in the fresh frame \<open>F p\<close> with the bytes of the parent's page; the pages below the data pages
  are shared, all open to user mode and writable; of the parent's table only the window is cleared.
\<close>

definition forked_memory :: "symtab \<Rightarrow> nat \<Rightarrow> nat \<Rightarrow> (nat \<Rightarrow> nat) \<Rightarrow> kstate \<Rightarrow> kstate \<Rightarrow> bool" where
  "forked_memory L i j F s s' \<longleftrightarrow>
     inj_on F {264..<284} \<and> F ` {264..<284} \<subseteq> avail (mm s) \<and> avail (mm s') = avail (mm s) - F ` {264..<284} \<and>
     frames_wf (mm s') \<and> dirs_ok L (mm s') \<and> cr3 (mm s') = cr3 (mm s) \<and>
     (\<forall>p<TOTAL_PAGES. pte_of L i (mm s') p =
        (if p < 264 then user_pte (pbase_addr (pte_of L j (mm s) p))
         else if p < 284 then user_pte (of_nat (F p)) else pte_of L i (mm s) p)) \<and>
     (\<forall>p<TOTAL_PAGES. pte_of L j (mm s') p = (if 284 \<le> p \<and> p < 304 then 0 else pte_of L j (mm s) p)) \<and>
     (\<forall>p \<in> {264..<284}. \<forall>k<4096. ram s' (of_nat (F p * 4096 + k)) =
        ram s (of_nat (unat (pbase_addr (pte_of L j (mm s) p)) * 4096 + k))) \<and>
     (\<forall>x. unat x div 4096 \<notin> F ` {264..<284} \<longrightarrow> ram s' x = ram s x)"

lemma dirs_ok_alloc:
  assumes L: "symtab_ok L" and i: "i < NR_TASKS" and d: "dirs_ok L m" and a: "\<And>a. a \<notin> (\<lambda>p. pt_slot (pagusr_table L i) (of_nat p)) ` set data_pages \<Longrightarrow> ptes m' a = ptes m a"
  shows "dirs_ok L m'"
proof (rule dirs_ok_slots [OF L d i])
  fix x assume x: "\<And>p. p < TOTAL_PAGES \<Longrightarrow> x \<noteq> pt_slot (pagusr_table L i) (of_nat p)"
  show "ptes m' x = ptes m x" by (rule a) (use x data_pages_props(4) in blast)
qed

text \<open>The frames of the data pages, by page.\<close>

lemma frames_by_page:
  assumes "length fs = 20" "distinct fs"
  shows "inj_on (\<lambda>p. fs ! (p - 264)) {264..<284 :: nat}" and "(\<lambda>p. fs ! (p - 264)) ` {264..<284} = set fs"
proof -
  show "inj_on (\<lambda>p. fs ! (p - 264)) {264..<284}" using assms by (auto simp: inj_on_def nth_eq_iff_index_eq)
  have "{264..<284} = (\<lambda>k. k + 264) ` {0..<20 :: nat}" by (simp add: image_add_atLeastLessThan')
  then have "(\<lambda>p. fs ! (p - 264)) ` {264..<284} = (\<lambda>k. fs ! k) ` {0..<20}" by (simp only: image_image add_diff_cancel_right')
  also have "\<dots> = set fs" unfolding set_conv_nth assms(1) by auto
  finally show "(\<lambda>p. fs ! (p - 264)) ` {264..<284} = set fs" .
qed

lemma fork_tables:
  fixes m :: mm_state
  assumes L: "symtab_ok L" and ij: "i < NR_TASKS" "j < NR_TASKS" "i \<noteq> j"
    and fr: "mapped_fresh (pagusr_table L i) data_pages fs m m1" and d: "dirs_ok L m"
  defines "F \<equiv> \<lambda>p. fs ! (p - 264)" and "m2 \<equiv> fork_share (pagusr_table L i) (pagusr_table L j) m1"
  shows "inj_on F {264..<284}" and "F ` {264..<284} = set fs" and "dirs_ok L m1" and "dirs_ok L m2"
    and "\<And>p. p < TOTAL_PAGES \<Longrightarrow> pte_of L i m2 p = (if p < 264 then user_pte (pbase_addr (pte_of L j m p))
         else if p < 284 then user_pte (of_nat (F p)) else pte_of L i m p)"
    and "\<And>p. p < TOTAL_PAGES \<Longrightarrow> pte_of L j m2 p = pte_of L j m p"
    and "phys_mem m2 = phys_mem m1" "cr3 m2 = cr3 m"
proof -
  note f = fr [unfolded mapped_fresh_def data_pages_props(3)]
  note sh = fork_share_effect [OF L ij, where m = m1, folded m2_def]
  have len: "length fs = 20" "distinct fs" using f by simp_all
  show "inj_on F {264..<284}" "F ` {264..<284} = set fs" unfolding F_def by (rule frames_by_page [OF len])+
  have pt: "ptes m1 a = ptes m a" if "a \<notin> (\<lambda>p. pt_slot (pagusr_table L i) (of_nat p)) ` set data_pages" for a
    using f that by blast
  show d1: "dirs_ok L m1" by (rule dirs_ok_alloc [OF L ij(1) d pt])
  show "dirs_ok L m2"
  proof (rule dirs_ok_slots [OF L d1 ij(1)])
    fix a assume "\<And>p. p < TOTAL_PAGES \<Longrightarrow> a \<noteq> pt_slot (pagusr_table L i) (of_nat p)"
    then show "ptes m2 a = ptes m1 a" by (intro sh(2)) (simp add: TOTAL_PAGES_def)
  qed
  have J: "pte_of L j m1 p = pte_of L j m p" if "p < TOTAL_PAGES" for p
    unfolding pte_of_def
    by (rule pt) (use table_slot_inject [OF L ij(2) that ij(1)] ij(3) data_pages_props(4) in blast)
  have I: "pte_of L i m1 p = (if 264 \<le> p \<and> p < 284 then user_pte (of_nat (F p)) else pte_of L i m p)"
    if p: "p < TOTAL_PAGES" for p
  proof (cases "264 \<le> p \<and> p < 284")
    case True
    then have k: "p - 264 < 20" by linarith
    have "data_pages ! (p - 264) = p" using True k by (simp add: layout_consts)
    moreover have "ptes m1 (pt_slot (pagusr_table L i) (of_nat (data_pages ! (p - 264)))) = user_pte (of_nat (fs ! (p - 264)))"
      using f k by blast
    ultimately show ?thesis using True by (simp add: pte_of_def F_def)
  next
    case False
    then have "p \<notin> set data_pages" unfolding data_pages_props(2) by simp
    then have "pte_of L i m1 p = pte_of L i m p" unfolding pte_of_def
      by (intro pt) (use table_slot_inject [OF L ij(1) p ij(1)] data_pages_props(4) in blast)
    then show ?thesis using False by (simp only: if_False)
  qed
  show "pte_of L i m2 p = (if p < 264 then user_pte (pbase_addr (pte_of L j m p))
         else if p < 284 then user_pte (of_nat (F p)) else pte_of L i m p)" if "p < TOTAL_PAGES" for p
    using sh(1) [OF that] I [OF that] J [OF that] by simp
  show "pte_of L j m2 p = pte_of L j m p" if "p < TOTAL_PAGES" for p
  proof -
    have "pte_of L j m2 p = pte_of L j m1 p" unfolding pte_of_def
      by (rule sh(2)) (use table_slot_inject [OF L ij(2) that ij(1)] ij(3) in \<open>simp add: TOTAL_PAGES_def\<close>)
    then show ?thesis using J [OF that] by simp
  qed
  show "phys_mem m2 = phys_mem m1" by (rule sh(3))
  show "cr3 m2 = cr3 m" using sh(4) f by simp
qed

lemma window_slots:
  assumes L: "symtab_ok L" and k: "k < NR_TASKS" "j < NR_TASKS" and p: "p < TOTAL_PAGES" and ps: "set ps = {264..<284}"
  shows "pt_slot (pagusr_table L k) (of_nat p) \<in> window_pages L j ps \<longleftrightarrow> k = j \<and> 284 \<le> p \<and> p < 304"
proof -
  have n: "NUM_PAG_DATA = 20" by (simp add: NUM_PAG_DATA_def)
  have "pt_slot (pagusr_table L k) (of_nat p) = pt_slot (pagusr_table L j) (of_nat (q + 20)) \<longleftrightarrow> k = j \<and> p = q + 20"
    if "q < 284" for q
    by (rule table_slot_inject [OF L k(1) p k(2)]) (use that in \<open>simp add: TOTAL_PAGES_def\<close>)
  then have "pt_slot (pagusr_table L k) (of_nat p) \<in> window_pages L j ps \<longleftrightarrow> (\<exists>q \<in> {264..<284}. k = j \<and> p = q + 20)"
    unfolding window_pages_def image_iff n ps by (meson atLeastLessThan_iff)
  also have "\<dots> \<longleftrightarrow> k = j \<and> 284 \<le> p \<and> p < 304"
  proof
    assume "k = j \<and> 284 \<le> p \<and> p < 304"
    then show "\<exists>q \<in> {264..<284}. k = j \<and> p = q + 20" by (intro bexI [of _ "p - 20"]) auto
  qed auto
  finally show ?thesis .
qed

lemma forked_memoryI:
  assumes L: "symtab_ok L" and ij: "i < NR_TASKS" "j < NR_TASKS" "i \<noteq> j"
    and fr: "mapped_fresh (pagusr_table L i) data_pages fs (mm s) m1" and d: "dirs_ok L (mm s)"
    and c: "pages_copied L j ps (\<lambda>p. fs ! (p - 264)) (\<lambda>p. unat (pbase_addr (pte_of L j (mm s) p))) s4 s5"
    and ps: "set ps = {264..<284}"
    and s4: "mm s4 = fork_share (pagusr_table L i) (pagusr_table L j) m1" "ram s4 = ram s"
  shows "forked_memory L i j (\<lambda>p. fs ! (p - 264)) s s5"
proof -
  note t = fork_tables [OF L ij fr d]
  have m: "phys_mem (mm s5) = phys_mem m1" "cr3 (mm s5) = cr3 (mm s)"
    and pt: "\<And>a. ptes (mm s5) a = (if a \<in> window_pages L j ps then 0 else ptes (mm s4) a)"
    using c s4 t(7,8) by (simp_all add: pages_copied_def)
  have av: "set fs \<subseteq> avail (mm s)" "avail m1 = avail (mm s) - set fs" "frames_wf m1" using fr by (simp_all add: mapped_fresh_def)
  have w: "pte_of L k (mm s5) p = (if k = j \<and> 284 \<le> p \<and> p < 304 then 0 else pte_of L k (mm s4) p)"
    if "k < NR_TASKS" "p < TOTAL_PAGES" for k p
    unfolding pte_of_def pt using window_slots [OF L that(1) ij(2) that(2) ps] by simp
  have "dirs_ok L (mm s5)"
  proof (rule dirs_ok_slots [OF L t(4) ij(2)])
    fix a assume a: "\<And>p. p < TOTAL_PAGES \<Longrightarrow> a \<noteq> pt_slot (pagusr_table L j) (of_nat p)"
    have "a \<notin> window_pages L j ps"
    proof
      assume "a \<in> window_pages L j ps"
      then obtain q where "q < 284" "a = pt_slot (pagusr_table L j) (of_nat (q + NUM_PAG_DATA))"
        unfolding window_pages_def using ps by auto
      then show False using a [of "q + NUM_PAG_DATA"] by (simp add: TOTAL_PAGES_def NUM_PAG_DATA_def)
    qed
    then show "ptes (mm s5) a = ptes (fork_share (pagusr_table L i) (pagusr_table L j) m1) a" using pt s4(1) by simp
  qed
  moreover have "\<forall>p\<in>{264..<284}. \<forall>k<4096. ram s5 (of_nat (fs ! (p - 264) * 4096 + k)) =
      ram s (of_nat (unat (pbase_addr (pte_of L j (mm s) p)) * 4096 + k))"
    using c s4(2) ps by (simp add: pages_copied_def)
  moreover have "\<forall>x. unat x div 4096 \<notin> (\<lambda>p. fs ! (p - 264)) ` {264..<284} \<longrightarrow> ram s5 x = ram s x"
    using c s4(2) ps by (simp add: pages_copied_def)
  moreover have "avail (mm s5) = avail (mm s) - (\<lambda>p. fs ! (p - 264)) ` {264..<284}"
    unfolding t(2) using av(2) avail_cong [OF m(1)] by simp
  moreover have "frames_wf (mm s5)" using av(3) frames_wf_cong [OF m(1)] by simp
  ultimately show ?thesis
    unfolding forked_memory_def using t(1,2,5,6) av(1) w ij m(2) s4(1) by simp
qed

lemma fork_memory:
  assumes L: "symtab_ok L" and R: "fork_ready L s A i j" and a: "20 \<le> card (avail (mm s))"
  obtains m1 s5 F where "fork_alloc (pagusr_table L i) [0..<NUM_PAG_DATA] (mm s) = (True, m1)" "dirs_ok L m1"
    "fork_copy (pagusr_table L i) (pagusr_table L j) [NUM_PAG_KERNEL + NUM_PAG_CODE..<NUM_PAG_KERNEL + NUM_PAG_CODE + NUM_PAG_DATA]
       (upd_mm (fork_share (pagusr_table L i) (pagusr_table L j)) ((fork_prepare L (task L i) s)\<lparr>mm := m1\<rparr>)) = Some s5"
    "s5 = (fork_prepare L (task L i) s)\<lparr>ram := ram s5, mm := mm s5\<rparr>" "forked_memory L i j F s s5"
proof -
  note f = fork_readyD [OF R]
  let ?p = "fork_prepare L (task L i) s"
  define ps where "ps = [NUM_PAG_KERNEL + NUM_PAG_CODE..<NUM_PAG_KERNEL + NUM_PAG_CODE + NUM_PAG_DATA]"
  have ps: "set ps = {264..<284}" "distinct ps"
    unfolding ps_def set_upt by (simp_all add: layout_consts)
  obtain fs m1 where al: "fork_alloc (pagusr_table L i) [0..<NUM_PAG_DATA] (mm s) = (True, m1)"
    and fr: "mapped_fresh (pagusr_table L i) data_pages fs (mm s) m1"
    using fork_alloc_cases [OF f(10,11), of "pagusr_table L i"] a by auto
  let ?F = "\<lambda>p. fs ! (p - 264)" and ?G = "\<lambda>p. unat (pbase_addr (pte_of L j (mm s) p))"
  let ?m2 = "fork_share (pagusr_table L i) (pagusr_table L j) m1"
  let ?s4 = "upd_mm (fork_share (pagusr_table L i) (pagusr_table L j)) (?p\<lparr>mm := m1\<rparr>)"
  note t = fork_tables [OF L f(4-6) fr f(9)]
  have av: "set fs \<subseteq> avail (mm s)" "avail m1 = avail (mm s) - set fs" "frames_wf m1" using fr by (simp_all add: mapped_fresh_def)
  have lim: "?F p < TOTAL_PAGES" if "p \<in> {264..<284}" for p
    using avail_bounds [OF f(10)] av(1) t(2) that by blast
  have rel: "cr3 (mm s) = dir_pages_baseAddr (tasks s (current s))"
    by (rule sched_relD(10) [of L s A]) (use f(1) in \<open>simp add: kernel_inv_def\<close>)
  have "\<exists>s'. fork_copy (pagusr_table L i) (pagusr_table L j) ps ?s4 = Some s' \<and>
      pages_copied L j ps ?F ?G ?s4 s'"
  proof (rule fork_copy_pages [OF L f(4-6)])
    show "dirs_ok L (mm ?s4)" using t(4) by simp
    show "cr3 (mm ?s4) = dir_pages L j" using t(8) rel f(8) by simp
    show "\<forall>p\<in>set ps. pte_present (pte_of L j (mm ?s4) p) \<and> unat (pbase_addr (pte_of L j (mm ?s4) p)) = ?G p \<and>
        unat (pbase_addr (pte_of L i (mm ?s4) p)) = ?F p"
    proof
      fix p assume p: "p \<in> set ps"
      then have pp: "p < TOTAL_PAGES" "264 \<le> p" "p < 284" using ps(1) by (simp_all add: TOTAL_PAGES_def)
      have "?F p < 2 ^ 20" using lim [of p] p ps(1) by (simp add: TOTAL_PAGES_def)
      then have "unat (take_bit 20 (of_nat (?F p) :: ptr)) = ?F p" by (simp add: take_bit_of_nat unat_of_nat take_bit_nat_eq_self)
      then show "pte_present (pte_of L j (mm ?s4) p) \<and> unat (pbase_addr (pte_of L j (mm ?s4) p)) = ?G p \<and>
        unat (pbase_addr (pte_of L i (mm ?s4) p)) = ?F p"
        using t(5,6) [OF pp(1)] pp f(12) [of p] by simp
    qed
    show "inj_on ?F (set ps)" using t(1) ps(1) by simp
    show "?F ` set ps \<inter> ?G ` set ps = {}" unfolding ps(1) t(2) using av(1) f(13) by fastforce
  qed (use ps in simp_all)
  then obtain s5 where s5: "fork_copy (pagusr_table L i) (pagusr_table L j) ps ?s4 = Some s5"
    "pages_copied L j ps ?F ?G ?s4 s5" by blast
  have e: "s5 = ?s4\<lparr>ram := ram s5, mm := mm s5\<rparr>" using s5(2) unfolding pages_copied_def by blast
  have "s5 = ?p\<lparr>ram := ram s5, mm := mm s5\<rparr>" by (rule trans [OF e]) (simp add: upd_mm_def)
  moreover have "forked_memory L i j ?F s s5"
    by (rule forked_memoryI [OF L f(4-6) fr f(9) s5(2) ps(1)]) simp_all
  ultimately show thesis using that [OF al t(3)] s5(1) unfolding ps_def by blast
qed

text \<open>A byte of the address space of task \<open>i\<close>, if it is mapped.\<close>

definition view_of :: "symtab \<Rightarrow> nat \<Rightarrow> kstate \<Rightarrow> ptr \<Rightarrow> Byte option" where
  "view_of L i s a = map_option (ram s) (page_walk (set_cr3 (dir_pages L i) (mm s)) a)"

lemma word_of_nat_unat_id: "of_nat (unat w) = (w :: 32 word)"
  by simp

lemma view_of_task:
  assumes L: "symtab_ok L" and d: "dirs_ok L (mm s)" and i: "i < NR_TASKS" and a: "unat a < TOTAL_PAGES * 4096"
    and p: "pte_present (pte_of L i (mm s) (unat a div 4096))"
  shows "view_of L i s a = Some (ram s (of_nat (unat (pbase_addr (pte_of L i (mm s) (unat a div 4096))) * 4096 + unat a mod 4096)))"
proof -
  let ?m = "set_cr3 (dir_pages L i) (mm s)" and ?e = "pte_of L i (mm s) (unat a div 4096)"
  have d': "dirs_ok L ?m" using d by (simp add: dirs_ok_def)
  have e: "pte_of L i ?m (unat a div 4096) = ?e" by (simp add: pte_of_def)
  have c: "cr3 ?m = dir_pages L i" by (simp add: set_cr3_def)
  let ?pa = "push_bit 12 (pbase_addr ?e) OR take_bit 12 a"
  have "page_walk ?m a = Some ?pa" using page_walk_task [OF L d' i c a] p by (simp only: e Let_def if_True)
  moreover have "?pa = of_nat (unat (pbase_addr ?e) * 4096 + unat a mod 4096)"
    using arg_cong [OF phys_addr_unat [OF pbase_addr_less, of ?e a], of "of_nat :: nat \<Rightarrow> ptr"] by (simp only: word_of_nat_unat_id)
  ultimately show ?thesis by (simp only: view_of_def option.map)
qed

text \<open>Child and parent see the same user memory after the call.\<close>

lemma forked_views:
  assumes L: "symtab_ok L" and R: "fork_ready L s A i j" and M: "forked_memory L i j F s s'"
    and a: "256 \<le> unat a div 4096" "unat a div 4096 < 284"
  shows "view_of L j s a \<noteq> None" "view_of L j s' a = view_of L j s a" "view_of L i s' a = view_of L j s a"
proof -
  note f = fork_readyD [OF R]
  let ?p = "unat a div 4096"
  let ?e = "pte_of L j (mm s) ?p"
  have "unat a < 284 * 4096" using a(2) by (simp add: div_less_iff_less_mult)
  then have al: "unat a < TOTAL_PAGES * 4096" by (simp add: TOTAL_PAGES_def)
  have pl: "?p < TOTAL_PAGES" using a(2) by (simp add: TOTAL_PAGES_def)
  have pr: "pte_present ?e" "unat (pbase_addr ?e) \<notin> avail (mm s)" using f(12,13) a by auto
  have F: "F ` {264..<284} \<subseteq> avail (mm s)" and d': "dirs_ok L (mm s')"
    and ram: "\<And>x. unat x div 4096 \<notin> F ` {264..<284} \<Longrightarrow> ram s' x = ram s x"
    using M unfolding forked_memory_def by blast+
  have pj: "pte_of L j (mm s') ?p = ?e" using M pl a(2) unfolding forked_memory_def by auto
  let ?x = "of_nat (unat (pbase_addr ?e) * 4096 + unat a mod 4096) :: ptr"
  have ux: "unat ?x div 4096 = unat (pbase_addr ?e)" using pbase_addr_less [of ?e] by (subst unat_of_nat_word32) simp_all
  have V: "view_of L j s a = Some (ram s ?x)" by (rule view_of_task [OF L f(9,5) al pr(1)])
  then show "view_of L j s a \<noteq> None" by simp
  have rx: "ram s' ?x = ram s ?x" by (rule ram) (use ux pr(2) F in auto)
  show "view_of L j s' a = view_of L j s a"
    using view_of_task [OF L d' f(5) al] pr(1) pj V rx by (simp only: pj)
  show "view_of L i s' a = view_of L j s a"
  proof (cases "?p < 264")
    case True
    then have "pte_of L i (mm s') ?p = user_pte (pbase_addr ?e)" using M pl unfolding forked_memory_def by simp
    then show ?thesis using view_of_task [OF L d' f(4) al] V rx by simp
  next
    case False
    then have pi: "pte_of L i (mm s') ?p = user_pte (of_nat (F ?p))" using M pl a(2) unfolding forked_memory_def by simp
    have "F ?p < TOTAL_PAGES" using avail_bounds [OF f(10)] F False a(2) by (meson atLeastLessThan_iff imageI not_less subsetD)
    then have u: "unat (pbase_addr (user_pte (of_nat (F ?p)))) = F ?p"
      by (simp add: take_bit_of_nat take_bit_nat_eq_self unat_of_nat TOTAL_PAGES_def)
    have "ram s' (of_nat (F ?p * 4096 + unat a mod 4096)) = ram s ?x"
      using M False a(2) unfolding forked_memory_def by simp
    moreover have "view_of L i s' a = Some (ram s' (of_nat (F ?p * 4096 + unat a mod 4096)))"
      using view_of_task [OF L d' f(4) al] unfolding pi u by simp
    ultimately show ?thesis using V by simp
  qed
qed

section \<open>Properties\<close>

lemma sys_fork_steps:
  assumes L: "symtab_ok L" and R: "fork_ready L s A i j" and a: "20 \<le> card (avail (mm s))"
  obtains s5 F where "sys_fork L s = Option.bind (fork_heap (pagusr_table L i) (pagusr_table L j) (NUM_PAG_KERNEL + NUM_PAG_CODE)
      (heap_start_proc (tasks s (current s))) s5) (\<lambda>s. Some (fork_finish L (task L i) s))"
    "cur_heap s5 = cur_heap s" "forked_memory L i j F s s5"
    "\<forall>u. tasks s5 u = (if u = task L i then (tasks s (current s))\<lparr>dir_pages_baseAddr := dir_pages L i\<rparr> else tasks s u)"
    "current s5 = current s" "esp s5 = current s + 4032" "links s5 = links (fork_prepare L (task L i) s)"
    "sems s5 = sems (fork_prepare L (task L i) s)" "kstack s5 = kstack (fork_prepare L (task L i) s)"
    "esp s5 = esp s" "idle_task s5 = idle_task s" "tss_esp0 s5 = tss_esp0 s" "msr_175 s5 = msr_175 s" "global_PID s5 = global_PID s"
proof -
  note f = fork_readyD [OF R]
  let ?c = "task L i"
  note q = fork_prepare_queues [OF L f(1,2,14,7)]
  obtain m1 s5 F where e: "fork_alloc (pagusr_table L i) [0..<NUM_PAG_DATA] (mm s) = (True, m1)" "dirs_ok L m1"
    "fork_copy (pagusr_table L i) (pagusr_table L j) [NUM_PAG_KERNEL + NUM_PAG_CODE..<NUM_PAG_KERNEL + NUM_PAG_CODE + NUM_PAG_DATA]
       (upd_mm (fork_share (pagusr_table L i) (pagusr_table L j)) ((fork_prepare L ?c s)\<lparr>mm := m1\<rparr>)) = Some s5"
    "s5 = (fork_prepare L ?c s)\<lparr>ram := ram s5, mm := mm s5\<rparr>" and M: "forked_memory L i j F s s5"
    by (rule fork_memory [OF L R a])
  have c5: "current s5 = current s" by (subst e(4)) (simp add: current_def)
  have t5: "tasks s5 u = (if u = ?c then (tasks s (current s))\<lparr>dir_pages_baseAddr := dir_pages L i\<rparr> else tasks s u)" for u
    by (subst e(4)) (simp add: fork_prepare_tasks [OF L f(4)])
  have hp: "heap_start_proc (tasks s5 (current s5)) = heap_start_proc (tasks s (current s))" "cur_heap s5 = cur_heap s"
    using q(4) by (simp_all add: c5 t5 cur_heap_def)
  have sf: "sys_fork L s = Option.bind (fork_heap (pagusr_table L i) (pagusr_table L j) (NUM_PAG_KERNEL + NUM_PAG_CODE)
      (heap_start_proc (tasks s (current s))) s5) (\<lambda>s. Some (fork_finish L (task L i) s))"
    using sys_fork_eq [OF L R e(1,2)] e(3) by (simp add: hp(1))
  have "msr_175 s = current s + 4096" by (rule sched_relD(9) [of L s A]) (use f(1) in \<open>simp add: kernel_inv_def\<close>)
  moreover have k: "links s5 = links (fork_prepare L ?c s)" "sems s5 = sems (fork_prepare L ?c s)" "kstack s5 = kstack (fork_prepare L ?c s)"
    "esp s5 = esp s" "idle_task s5 = idle_task s" "tss_esp0 s5 = tss_esp0 s" "msr_175 s5 = msr_175 s" "global_PID s5 = global_PID s"
    by (subst e(4), simp)+
  ultimately have "esp s5 = current s + 4032" using f(3) by simp
  then show thesis using that [OF sf hp(2) M allI [OF t5] c5] k by blast
qed

text \<open>The child on its way to user mode: it has the registers the parent's call returns with, but 0 in \<open>eax\<close>.\<close>

lemma sysenter_fin_cong:
  assumes "\<And>k. k < 64 \<Longrightarrow> K' (sp' + of_nat k) = K (sp + of_nat k)"
  shows "sysenter_fin K' sp' a = (sysenter_fin K sp b)\<lparr>x_eax := a\<rparr>"
  using assms [of 0] assms [of 12] assms [of 16] assms [of 20] assms [of 28] assms [of 32] assms [of 36] assms [of 40] assms [of 44]
    assms [of 56] by (simp add: sysenter_fin_def)

lemma first_run_child:
  assumes e: "register_esp (tasks t c) = c + 4020" and r: "kstack t (c + 4024) = sym_ret_from_fork L"
    and K: "\<And>k. 4028 \<le> k \<Longrightarrow> k < 4096 \<Longrightarrow> kstack t (c + of_nat k) = K (p + of_nat k)"
  shows "first_run L c t = Some (K (p + 4028), (sysenter_fin K (p + 4032) a)\<lparr>x_eax := 0\<rparr>)"
proof -
  let ?t = "inner_task_switch c t"
  have t: "esp ?t = c + 4028" "kstack ?t = kstack t"
    using e by (simp_all add: inner_task_switch_def switch_stack_def Let_def get_DIR_def)
  have "sysenter_fin (kstack t) (c + 4032) 0 = (sysenter_fin K (p + 4032) a)\<lparr>x_eax := 0\<rparr>"
  proof (rule sysenter_fin_cong)
    fix k :: nat assume "k < 64"
    then show "kstack t (c + 4032 + of_nat k) = K (p + 4032 + of_nat k)" using K [of "4032 + k"] by (simp add: ac_simps)
  qed
  moreover have "kstack t (c + 4028) = K (p + 4028)" using K [of 4028] by simp
  ultimately show ?thesis using r by (simp add: first_run_def t ret_from_fork_def dword_of_int_def Let_def add.commute)
qed

text \<open>C5: \<open>sys_fork\<close> called through \<open>system_call_handler\<close> by a process with an empty heap, when a task and 20 frames are
  free and no thread of the system waits on a semaphore (\<open>fork_ready\<close>): it returns the next PID and keeps the kernel
  invariant. The child is the first free task, last in the ready queue. Its structure is a copy of the caller's but for
  the directory, the PID, the state, the stack pointer and the statistics, which start at zero, and no other task changes.
  Its kernel stack is a copy of the caller's but for two words, the frame pointer and the address of \<open>ret_from_fork\<close>,
  and the caller's is unchanged; so when it is first dispatched, in any later state \<open>t\<close> in which its stack and
  saved stack pointer are as the call left them, it goes through \<open>ret_from_fork\<close> to where the caller's \<open>sys_fork\<close> returns
  to, and enters user mode with the registers the caller's own return restores and 0 in \<open>eax\<close> instead of the PID. The child's
  user memory holds the same bytes as the parent's, its data pages in 20 fresh frames of its own, and the
  parent's memory is unchanged. The kernel and code pages of the child are shared, but all of them are
  marked accessible from user mode and writable; and every semaphore of the system is free afterwards.\<close>

theorem sys_fork_child:
  assumes L: "symtab_ok L" and R: "fork_ready L s A i j" and a: "20 \<le> card (avail (mm s))"
    and h: "cur_heap s \<le> heap_start_proc (tasks s (current s))"
  defines "c \<equiv> task L i" and "pid \<equiv> wrap32 (global_PID s + 1)"
  shows "\<exists>s' F st. sys_fork L s = Some (pid, s') \<and> kernel_inv L s' (a_fork L A) \<and>
    tasks s' = (tasks s)(c := (tasks s (current s))\<lparr>dir_pages_baseAddr := dir_pages L i, PID := pid, state := ST_READY,
      register_esp := c + 4020, p_stats := st\<rparr>) \<and>
    user_ticks st = 0 \<and> system_ticks st = 0 \<and> blocked_ticks st = 0 \<and> ready_ticks st = 0 \<and> total_trans st = 0 \<and>
    kstack s' (c + 4020) = kstack s (current s + 4024) \<and> kstack s' (c + 4024) = sym_ret_from_fork L \<and>
    (\<forall>k<4096. k \<noteq> 4020 \<and> k \<noteq> 4024 \<longrightarrow> kstack s' (c + of_nat k) = kstack s (current s + of_nat k)) \<and>
    (\<forall>k<4096. kstack s' (current s + of_nat k) = kstack s (current s + of_nat k)) \<and>
    (\<forall>t. register_esp (tasks t c) = register_esp (tasks s' c) \<and> (\<forall>k<4096. kstack t (c + of_nat k) = kstack s' (c + of_nat k)) \<longrightarrow>
       first_run L c t = Some (kstack s (esp s - 4), (sysenter_fin (kstack s') (esp s') (dword_of_int pid))\<lparr>x_eax := 0\<rparr>)) \<and>
    forked_memory L i j F s s' \<and>
    (\<forall>x. 256 \<le> unat x div 4096 \<and> unat x div 4096 < 284 \<longrightarrow>
       view_of L j s x \<noteq> None \<and> view_of L j s' x = view_of L j s x \<and> view_of L i s' x = view_of L j s x) \<and>
    (\<forall>k<NUM_SEM. semid (sems s' (sem_of L k)) = -1)"
proof -
  note f = fork_readyD [OF R]
  obtain fs where fr: "a_queue A (freequeue L) = c # fs" using f(14) unfolding c_def by blast
  note q = fork_prepare_queues [OF L f(1,2) fr f(7)]
  obtain s5 F where sf5: "sys_fork L s = Option.bind (fork_heap (pagusr_table L i) (pagusr_table L j) (NUM_PAG_KERNEL + NUM_PAG_CODE)
      (heap_start_proc (tasks s (current s))) s5) (\<lambda>s. Some (fork_finish L c s))" and h5: "cur_heap s5 = cur_heap s" and M: "forked_memory L i j F s s5"
    and t5: "\<forall>u. tasks s5 u = (if u = c then (tasks s (current s))\<lparr>dir_pages_baseAddr := dir_pages L i\<rparr> else tasks s u)"
    and c5: "current s5 = current s" and esp5: "esp s5 = current s + 4032"
    and k5: "links s5 = links (fork_prepare L c s)" "sems s5 = sems (fork_prepare L c s)" "kstack s5 = kstack (fork_prepare L c s)"
      "esp s5 = esp s" "idle_task s5 = idle_task s" "tss_esp0 s5 = tss_esp0 s" "msr_175 s5 = msr_175 s" "global_PID s5 = global_PID s"
    unfolding c_def by (rule sys_fork_steps [OF L R a])
  have s5: "sys_fork L s = Some (fork_finish L c s5)"
    using h h5 unfolding sf5 by (subst fork_heap.simps) (simp add: not_less)
  let ?s' = "snd (fork_finish L c s5)" and ?Q = "(a_queue A)(freequeue L := fs)"
  have ne: "c \<noteq> current s5" "esp s5 = current s5 + 4032" using q(4) esp5 c5 by simp_all
  note n = fork_finish_effect [OF ne, of L]
  have rel: "sched_rel L s A" using f(1) by (simp add: kernel_inv_def)
  have cr: "cr3 (mm s5) = cr3 (mm s)" using M unfolding forked_memory_def by blast
  then have m: "mm ?s' = mm s5" using n(11) sched_relD(10) [OF rel] q(4) by (simp add: c5 t5 set_cr3_def)
  have M': "forked_memory L i j F s ?s'" using M unfolding forked_memory_def m n(12) .
  have sems: "semid (sems ?s' (sem_of L k)) = -1" if "k < NUM_SEM" for k
    using fork_prepare_sems [OF L q(2) that, of c] by (simp add: n(13) k5(2))
  have inv: "kernel_inv L ?s' (a_fork L A)"
    by (rule new_task_ready [OF L f(1) fr q(1,3,6,7)])
       (use f(7) n(3,4,8,10,14-17) k5 sems t5 q(2) cr m fork_finish_other [of _ c L s5] new_task_resumable(1) [OF L q(3)]
        in \<open>simp_all add: sem_ok_def\<close>)
  have x: "(\<forall>x. 256 \<le> unat x div 4096 \<and> unat x div 4096 < 284 \<longrightarrow>
       view_of L j s x \<noteq> None \<and> view_of L j ?s' x = view_of L j s x \<and> view_of L i ?s' x = view_of L j s x)"
    using forked_views [OF L R M'] by blast
  have "fork_finish L c s5 = (pid, ?s')" using n(1) k5(8) unfolding pid_def by (metis prod.collapse)
  then have sf: "sys_fork L s = Some (pid, ?s')" using s5 by simp
  have T: "tasks ?s' = (tasks s)(c := (tasks s (current s))\<lparr>dir_pages_baseAddr := dir_pages L i, PID := pid, state := ST_READY,
      register_esp := c + 4020, p_stats := p_stats (tasks ?s' c)\<rparr>)"
  proof
    fix u show "tasks ?s' u = ((tasks s)(c := (tasks s (current s))\<lparr>dir_pages_baseAddr := dir_pages L i, PID := pid, state := ST_READY,
      register_esp := c + 4020, p_stats := p_stats (tasks ?s' c)\<rparr>)) u"
      using n(18) t5 fork_finish_other [of u c L s5] k5(8) by (cases "u = c") (simp_all add: pid_def)
  qed
  note st = fork_finish_stats [of L c s5, unfolded Let_def]
  have w: "unat c + 4096 \<le> 2 ^ 32" and al: "unat c mod 4096 = 0"
    using task_end [OF L f(4)] task_aligned [OF L, of c] f(4) by (auto simp: c_def tasks_of_def)
  note sl = fork_slots [OF w]
  have ks: "kstack s5 (c + of_nat k) = kstack s (current s + of_nat k)" if "k < 4096" for k
    using fork_prepare_kstack [OF w that, of L s] by (simp add: k5(3))
  have k4: "kstack ?s' (c + 4024) = sym_ret_from_fork L" "kstack ?s' (c + 4020) = kstack s (current s + 4024)"
    using ks [of 4024] by (simp_all add: n(9))
  have kc: "\<forall>k<4096. k \<noteq> 4020 \<and> k \<noteq> 4024 \<longrightarrow> kstack ?s' (c + of_nat k) = kstack s (current s + of_nat k)"
    using ks sl by (simp add: n(9))
  have kp: "\<forall>k<4096. kstack ?s' (current s + of_nat k) = kstack s (current s + of_nat k)"
  proof (intro allI impI)
    fix k :: nat assume k: "k < 4096"
    have "(current s + of_nat k) AND 0xfffff000 \<noteq> c"
      using page_mask_offset [OF task_aligned [OF L sched_relD(4) [OF rel]] k] q(4) by simp
    then show "kstack ?s' (current s + of_nat k) = kstack s (current s + of_nat k)"
      using fork_prepare_kstack_other [OF al] page_range(2) [OF al, of _ 4024] page_range(2) [OF al, of _ 4020]
      by (simp add: n(9) k5(3))
  qed
  have e: "esp ?s' = current s + 4032" "esp s = current s + 4032" using n(14) esp5 k5(4) by simp_all
  have run: "first_run L c t = Some (kstack s (esp s - 4), (sysenter_fin (kstack ?s') (esp ?s') (dword_of_int pid))\<lparr>x_eax := 0\<rparr>)"
    if t: "register_esp (tasks t c) = register_esp (tasks ?s' c)" "\<forall>k<4096. kstack t (c + of_nat k) = kstack ?s' (c + of_nat k)" for t
  proof -
    have "first_run L c t = Some (kstack ?s' (current s + 4028), (sysenter_fin (kstack ?s') (current s + 4032) (dword_of_int pid))\<lparr>x_eax := 0\<rparr>)"
    proof (rule first_run_child)
      show "register_esp (tasks t c) = c + 4020" using t(1) n(4) by simp
      show "kstack t (c + 4024) = sym_ret_from_fork L" using spec [OF t(2), of 4024] k4(1) by simp
      fix k :: nat assume "4028 \<le> k" "k < 4096"
      then show "kstack t (c + of_nat k) = kstack ?s' (current s + of_nat k)" using t(2) kc kp by simp
    qed
    then show ?thesis using spec [OF kp, of 4028] by (simp add: e add.commute)
  qed
  show ?thesis
    by (intro exI [of _ ?s'] exI [of _ F] exI [of _ "p_stats (tasks ?s' c)"] conjI sf inv M' x k4 kc kp T)
      (use run sems st in auto)
qed

lemma fork_ready_cong:
  assumes R: "fork_ready L s A i j" and eq: "links s' = links s" "sems s' = sems s" "esp s' = esp s" "idle_task s' = idle_task s"
      "tss_esp0 s' = tss_esp0 s" "msr_175 s' = msr_175 s" "ptes (mm s') = ptes (mm s)" "cr3 (mm s') = cr3 (mm s)"
    and T: "\<And>u. state (tasks s' u) = state (tasks s u)" "\<And>u. register_esp (tasks s' u) = register_esp (tasks s u)"
      "\<And>u. semafors (tasks s' u) = semafors (tasks s u)"
      "\<And>u. dir_pages_baseAddr (tasks s' u) = dir_pages_baseAddr (tasks s u)"
    and m: "frames_wf (mm s')" "avail (mm s') \<subseteq> avail (mm s)"
  shows "fork_ready L s' A i j"
proof -
  have c: "current s' = current s" using eq(3) by (rule current_cong)
  have "kernel_inv L s' A" by (rule kernel_inv_cong [OF fork_readyD(1) [OF R] eq(1-6,8) T])
  moreover have "pte_of L j (mm s') = pte_of L j (mm s)" using eq(7) by (simp add: pte_of_def fun_eq_iff)
  moreover have "dirs_ok L (mm s')" using R eq(7) by (simp add: fork_ready_def dirs_ok_def)
  ultimately show ?thesis using R eq T(4) c m unfolding fork_ready_def by auto
qed

lemma booted_fork_ready: "fork_ready example_symtab booted (boot_abs example_symtab) 2 1"
  unfolding fork_ready_def
proof (intro conjI allI ballI impI)
  let ?L = "example_symtab"
  note L = example_symtab_ok
  show "kernel_inv ?L booted (boot_abs ?L)" "current booted \<noteq> idle_task booted" by (rule booted_inv)+
  show "esp booted = msr_175 booted - 64" by (simp add: booted_def kernel_entry_def)
  show "\<exists>fs. a_queue (boot_abs ?L) (freequeue ?L) = task ?L 2 # fs"
    unfolding boot_abs_queues(3) [OF L] by (simp add: NR_TASKS_def upt_rec)
  show "a_queue (boot_abs ?L) (sem_queue ?L k) = []" if "k < NUM_SEM" for k by (rule boot_abs_queues(2) [OF L that])
  show "dir_pages_baseAddr (tasks booted (current booted)) = dir_pages ?L 1" "dirs_ok ?L (mm booted)"
    "frames_wf (mm booted)" "NUM_PAG_KERNEL \<notin> avail (mm booted)" by (rule booted_mm)+
  fix p assume "p \<in> {PAG_LOG_INIT_CODE..<PAG_LOG_INIT_DATA + NUM_PAG_DATA}"
  then have p: "256 \<le> p" "p < 284" by (simp_all add: layout_consts)
  have m: "mm booted = mm (init_kernel ?L zero_kstate)" by (simp add: booted_def kernel_entry_def)
  have e: "pte_of ?L 1 (mm booted) p = boot_pte ?L p"
    unfolding m by (rule boot_ptes [OF L]) (use p in \<open>simp_all add: zero_kstate_def TOTAL_PAGES_def\<close>)
  have "take_bit 20 (of_nat (2 * p - 256) :: ptr) = of_nat (2 * p - 256)"
    using p unfolding take_bit_of_nat by (intro arg_cong [where f = of_nat] take_bit_nat_eq_self) simp
  then have b: "pte_present (boot_pte ?L p)" "pbase_addr (boot_pte ?L p) = of_nat (2 * p - 256)"
    using p by (simp_all add: boot_pte_def layout_consts)
  show "pte_present (pte_of ?L 1 (mm booted) p)" unfolding e by (rule b)
  have "unat (of_nat (2 * p - 256) :: ptr) = 2 * p - 256" using p by (subst unat_of_nat_word32) simp_all
  then show "unat (pbase_addr (pte_of ?L 1 (mm booted) p)) \<notin> avail (mm booted)"
    unfolding e b avail_boot_frames(1) [OF booted_mm(2)] using p by auto
qed (simp_all add: NR_TASKS_def)

theorem sys_fork_child_witness:
  "\<exists>s' r. sys_fork example_symtab booted = Some (1001, s') \<and>
     kernel_inv example_symtab s' (a_fork example_symtab (boot_abs example_symtab)) \<and>
     PID (tasks s' (task example_symtab 2)) = 1001 \<and>
     first_run example_symtab (task example_symtab 2) s' = Some (kstack booted (esp booted - 4), r) \<and> x_eax r = 0 \<and>
     view_of example_symtab 2 s' (of_nat L_USER_START) = view_of example_symtab 1 booted (of_nat L_USER_START)"
proof -
  have g: "global_PID booted = 1000"
    by (simp add: booted_def kernel_entry_def init_kernel_def Let_def init_task1_def init_idle_def init_sched_def init_mm_def init_sems_eq
      init_freequeue_eq allocate_DIR_def zero_kstate_def)
  have h: "cur_heap booted \<le> heap_start_proc (tasks booted (current booted))" using booted_mm(6,7) by (simp add: cur_heap_def)
  have u: "unat (of_nat L_USER_START :: ptr) div 4096 = 256" by (simp add: layout_consts unat_of_nat)
  have w: "wrap32 (global_PID booted + 1) = 1001" unfolding g by (simp add: wrap32_def)
  have "20 \<le> card (avail (mm booted))" using booted_mm(8) by simp
  from sys_fork_child [OF example_symtab_ok booted_fork_ready this h] obtain s' st where
    s': "sys_fork example_symtab booted = Some (wrap32 (global_PID booted + 1), s')"
    "kernel_inv example_symtab s' (a_fork example_symtab (boot_abs example_symtab))"
    "tasks s' = (tasks booted)(task example_symtab 2 := (tasks booted (current booted))\<lparr>dir_pages_baseAddr := dir_pages example_symtab 2,
       PID := wrap32 (global_PID booted + 1), state := ST_READY, register_esp := task example_symtab 2 + 4020, p_stats := st\<rparr>)"
    "\<forall>t. register_esp (tasks t (task example_symtab 2)) = register_esp (tasks s' (task example_symtab 2)) \<and>
       (\<forall>k<4096. kstack t (task example_symtab 2 + of_nat k) = kstack s' (task example_symtab 2 + of_nat k)) \<longrightarrow>
       first_run example_symtab (task example_symtab 2) t = Some (kstack booted (esp booted - 4),
         (sysenter_fin (kstack s') (esp s') (dword_of_int (wrap32 (global_PID booted + 1))))\<lparr>x_eax := 0\<rparr>)"
    "\<forall>x. 256 \<le> unat x div 4096 \<and> unat x div 4096 < 284 \<longrightarrow> view_of example_symtab 2 s' x = view_of example_symtab 1 booted x"
    by blast
  have "first_run example_symtab (task example_symtab 2) s' = Some (kstack booted (esp booted - 4),
       (sysenter_fin (kstack s') (esp s') (dword_of_int (wrap32 (global_PID booted + 1))))\<lparr>x_eax := 0\<rparr>)" using s'(4) by blast
  then show ?thesis using s'(1-3,5) u unfolding w by auto
qed

lemma sys_fork_no_task: "list_empty (freequeue L) (links s) \<Longrightarrow> sys_fork L s = Some (- ENOMEM, s)"
  by (simp add: sys_fork_def)

lemma sys_fork_no_frames:
  assumes L: "symtab_ok L" and R: "fork_ready L s A i j" and a: "card (avail (mm s)) < 20"
  shows "\<exists>s'. sys_fork L s = Some (- EAGAIN, s') \<and>
      kernel_inv L s' \<lparr>a_queue = (a_queue A)(freequeue L := tl (a_queue A (freequeue L)) @ [task L i]), a_cur = a_cur A\<rparr> \<and>
      phys_mem (mm s') = phys_mem (mm s) \<and> PID (tasks s' (task L i)) = PID (tasks s (current s)) \<and>
      (\<forall>k<NUM_SEM. semid (sems s' (sem_of L k)) = -1)"
proof -
  let ?c = "task L i"
  note f = fork_readyD [OF R]
  obtain fs where fr: "a_queue A (freequeue L) = ?c # fs" using f(14) by blast
  note q = fork_prepare_queues [OF L f(1,2) fr f(7)]
  obtain m' where m: "fork_alloc (pagusr_table L i) [0..<NUM_PAG_DATA] (mm s) = (False, m')" "phys_mem m' = phys_mem (mm s)"
    "cr3 m' = cr3 (mm s)" "\<forall>x. ptes m' x = ptes (mm s) x \<or> ptes m' x = 0 \<and> x \<in> (\<lambda>p. pt_slot (pagusr_table L i) (of_nat p)) ` set data_pages"
    using fork_alloc_cases [OF f(10,11), of "pagusr_table L i"] a by auto
  have d: "dirs_ok L m'" by (rule dirs_ok_alloc [OF L f(4,9)]) (use m(4) in blast)
  let ?s' = "upd_links (list_add_tail (tnode ?c) (freequeue L)) ((fork_prepare L ?c s)\<lparr>mm := m'\<rparr>)"
  let ?Q = "(a_queue A)(freequeue L := fs @ [?c])"
  have sf: "sys_fork L s = Some (- EAGAIN, ?s')" using sys_fork_eq [OF L R m(1) d] by simp
  have sems: "semid (sems ?s' (sem_of L k)) = -1" if "k < NUM_SEM" for k
    using fork_prepare_sems [OF L q(2) that, of ?c] by simp
  have "kernel_inv L ?s' \<lparr>a_queue = ?Q, a_cur = a_cur A\<rparr>"
    by (rule new_task_free [OF L f(1) fr q(1,3,6,7)])
       (use f(7) m(3) sems fork_prepare_tasks [OF L f(4)] in \<open>simp_all add: sem_ok_def\<close>)
  then show ?thesis
    by (intro exI [of _ ?s'] conjI sf) (use sems m(2) fr fork_prepare_tasks [OF L f(4)] in simp_all)
qed

lemma fork_heap_unmapped:
  assumes L: "symtab_ok L" and ij: "i < NR_TASKS" "j < NR_TASKS" "i \<noteq> j" and d: "dirs_ok L (mm s)"
    and c: "cr3 (mm s) = dir_pages L j" and p: "pte_of L j (mm s) 284 = 0" and h: "start < cur_heap s"
  shows "fork_heap (pagusr_table L i) (pagusr_table L j) (NUM_PAG_KERNEL + NUM_PAG_CODE) start s = None"
proof -
  have k: "NUM_PAG_KERNEL + NUM_PAG_CODE = 264" "NUM_PAG_KERNEL + NUM_PAG_CODE + NUM_PAG_DATA = 284" "NUM_PAG_DATA = 20"
    by (simp_all add: layout_consts)
  have q: "(284 :: nat) < TOTAL_PAGES" by (simp add: TOTAL_PAGES_def)
  have "vm_copy x (of_nat (284 * 2 ^ 12)) PAGE_SIZE (upd_mm (set_ss_pag (pagusr_table L i) (of_nat 284) f) s) = None" for x f
  proof -
    let ?m = "set_ss_pag (pagusr_table L i) (of_nat 284) f (mm s)" and ?a = "of_nat (284 * 2 ^ 12) :: ptr"
    have "dirs_ok L ?m"
    proof (rule dirs_ok_slots [OF L d ij(1)])
      fix a assume "\<And>p. p < TOTAL_PAGES \<Longrightarrow> a \<noteq> pt_slot (pagusr_table L i) (of_nat p)"
      from this [OF q] show "ptes ?m a = ptes (mm s) a" by (simp add: ptes_set_ss_pag)
    qed
    moreover have "pte_of L j ?m 284 = 0"
      using p table_slot_inject [OF L ij(2) q ij(1) q] ij(3) by (simp add: pte_of_def ptes_set_ss_pag)
    moreover have "cr3 ?m = dir_pages L j" using c by simp
    moreover have "unat ?a = 284 * 4096" by (rule block_pages_page(1) [OF q])
    ultimately have "page_walk ?m ?a = None"
      using page_walk_task [OF L _ ij(2), of ?m ?a] by (simp add: Let_def TOTAL_PAGES_def pte_present_def)
    then have "\<not> mapped ?m ?a PAGE_SIZE" by (auto simp: mapped_def PAGE_SIZE_def intro!: exI [of _ 0])
    then show ?thesis by (simp add: vm_copy_def)
  qed
  then show ?thesis using h by (subst fork_heap.simps) (simp add: k Let_def)
qed

text \<open>C6: The errors of \<open>sys_fork\<close>. Without a free task it returns -ENOMEM and changes nothing. With a free task but
  fewer than 20 free frames, and when no thread of the system waits on a semaphore (\<open>fork_ready\<close>), it returns -EAGAIN: the
  byte map of the frames is as before, the task goes to the end of the free queue and the kernel invariant is kept. It does
  not give everything back: by then it has initialised the semaphores again, so all of them are free, whoever used them,
  and the free task carries the PID of the caller.\<close>

theorem sys_fork_errors:
  assumes "symtab_ok L"
  shows "(list_empty (freequeue L) (links s) \<longrightarrow> sys_fork L s = Some (- ENOMEM, s)) \<and>
    (fork_ready L s A i j \<and> card (avail (mm s)) < 20 \<longrightarrow> (\<exists>s'. sys_fork L s = Some (- EAGAIN, s') \<and>
      kernel_inv L s' \<lparr>a_queue = (a_queue A)(freequeue L := tl (a_queue A (freequeue L)) @ [task L i]), a_cur = a_cur A\<rparr> \<and>
      phys_mem (mm s') = phys_mem (mm s) \<and> PID (tasks s' (task L i)) = PID (tasks s (current s)) \<and>
      (\<forall>k<NUM_SEM. semid (sems s' (sem_of L k)) = -1)))"
  using sys_fork_no_frames [OF assms, of s A i j] sys_fork_no_task by blast

definition full_booted :: kstate where
  "full_booted = booted\<lparr>mm := (mm booted)\<lparr>phys_mem := replicate TOTAL_PAGES USED_FRAME\<rparr>\<rparr>"

theorem sys_fork_errors_witness:
  "\<exists>s'. sys_fork example_symtab full_booted = Some (- EAGAIN, s') \<and> PID (tasks s' (task example_symtab 2)) = PID (tasks full_booted (current full_booted))"
proof -
  have wf: "frames_wf (mm full_booted)" "avail (mm full_booted) = {}"
    by (auto simp: full_booted_def frames_wf_def avail_def frame_is_free_def USED_FRAME_def FREE_FRAME_def layout_consts)
  have "fork_ready example_symtab full_booted (boot_abs example_symtab) 2 1"
    by (rule fork_ready_cong [OF booted_fork_ready]) (use wf in \<open>simp_all add: full_booted_def\<close>)
  then show ?thesis using sys_fork_errors [OF example_symtab_ok, of full_booted "boot_abs example_symtab" 2 1] wf(2) by auto
qed

text \<open>\<open>sys_fork\<close> of a process whose heap is not empty does not return: the loop over the heap copies to page
  284 of the parent, which the loop over the data pages has unmapped, so the page tables hold no
  translation for the destination of the first copy.\<close>

theorem sys_fork_heap_faults:
  assumes "symtab_ok L" and "fork_ready L s A i j" and "20 \<le> card (avail (mm s))"
    and "heap_start_proc (tasks s (current s)) < cur_heap s"
  shows "sys_fork L s = None"
proof -
  note f = fork_readyD [OF assms(2)]
  obtain s5 F where s5: "sys_fork L s = Option.bind (fork_heap (pagusr_table L i) (pagusr_table L j) (NUM_PAG_KERNEL + NUM_PAG_CODE)
      (heap_start_proc (tasks s (current s))) s5) (\<lambda>s. Some (fork_finish L (task L i) s))"
    "cur_heap s5 = cur_heap s" "forked_memory L i j F s s5"
    by (rule sys_fork_steps [OF assms(1-3)])
  have m: "dirs_ok L (mm s5)" "cr3 (mm s5) = cr3 (mm s)"
    "\<forall>p<TOTAL_PAGES. pte_of L j (mm s5) p = (if 284 \<le> p \<and> p < 304 then 0 else pte_of L j (mm s) p)"
    using s5(3) unfolding forked_memory_def by blast+
  have "cr3 (mm s) = dir_pages L j" using sched_relD(10) [of L s A] f(1,8) by (simp add: kernel_inv_def)
  then have "fork_heap (pagusr_table L i) (pagusr_table L j) (NUM_PAG_KERNEL + NUM_PAG_CODE)
      (heap_start_proc (tasks s (current s))) s5 = None"
    using m s5(2) assms(4) by (intro fork_heap_unmapped [OF assms(1) f(4-6)]) (simp_all add: TOTAL_PAGES_def)
  then show ?thesis unfolding s5(1) by simp
qed

theorem sys_fork_heap_faults_witness:
  "sys_fork example_symtab (set_heap (of_nat INIT_HEAP + 4096) booted) = None"
proof (rule sys_fork_heap_faults [OF example_symtab_ok])
  let ?s = "set_heap (of_nat INIT_HEAP + 4096) booted"
  have c: "current ?s = current booted" by (simp add: set_heap_def)
  show "fork_ready example_symtab ?s (boot_abs example_symtab) 2 1"
    by (rule fork_ready_cong [OF booted_fork_ready]) (simp_all add: set_heap_def booted_mm(1))
  show "20 \<le> card (avail (mm ?s))" using booted_mm(8) by (simp add: set_heap_def)
  have "of_nat INIT_HEAP < (of_nat INIT_HEAP + 4096 :: ptr)" by (simp add: layout_consts)
  then show "heap_start_proc (tasks ?s (current ?s)) < cur_heap ?s"
    using booted_mm(7) by (simp add: set_heap_def cur_heap_def)
qed

end
