(* ===== verification/Zeos_Thread.thy ===== *)
theory Zeos_Thread
  imports Zeos_Fork
begin

text \<open>
  \<open>sys_threadCreate\<close> and \<open>sys_threadExit\<close> of \<open>sys.c\<close>: the user stack of a new thread, its kernel stack
  and the queues. The definitions are in \<open>Zeos_Process\<close>.
\<close>

section \<open>Writing words of a mapped page\<close>

definition put_at :: "nat \<Rightarrow> Byte list \<Rightarrow> (ptr \<Rightarrow> Byte) \<Rightarrow> ptr \<Rightarrow> Byte" where
  "put_at n bs r x = (if n \<le> unat x \<and> unat x < n + length bs then bs ! (unat x - n) else r x)"

lemma put_at_append: "put_at (n + length bs) cs (put_at n bs r) = put_at n (bs @ cs) r"
  by (auto simp: put_at_def fun_eq_iff nth_append)

lemma length_dword_bytes [simp]: "length (dword_bytes v) = 4"
  by (simp add: dword_bytes_def)

lemma wr32_put_at:
  assumes n: "n + 4 \<le> 2 ^ 32" and ph: "\<And>i. i < 4 \<Longrightarrow> to_phys m (a + of_nat i) = of_nat (n + i)"
  shows "wr32 (paged_wr m) a v r = put_at n (dword_bytes v) r"
proof
  fix x :: ptr
  have u: "unat (of_nat (n + i) :: ptr) = n + i" if "i < 4" for i using n that by (subst unat_of_nat_word32) simp_all
  have e: "x = of_nat (n + i) \<longleftrightarrow> unat x = n + i" if "i < 4" for i 
    by (simp only: word_unat_eq_iff u [OF that])
  have w: "wr32 (paged_wr m) a v r = ((r(of_nat (n + 0) := ucast v))(of_nat (n + 1) := ucast (drop_bit 8 v)))
      (of_nat (n + 2) := ucast (drop_bit 16 v), of_nat (n + 3) := ucast (drop_bit 24 v))"
    using ph [of 0] ph [of 1] ph [of 2] ph [of 3] by (simp add: wr32_def paged_wr_def)
  have E: "x = of_nat (n + 0) \<longleftrightarrow> unat x = n + 0" "x = of_nat (n + 1) \<longleftrightarrow> unat x = n + 1"
    "x = of_nat (n + 2) \<longleftrightarrow> unat x = n + 2" "x = of_nat (n + 3) \<longleftrightarrow> unat x = n + 3" by (rule e, simp)+
  consider "unat x < n" | "n + 4 \<le> unat x" | "unat x = n + 0" | "unat x = n + 1" | "unat x = n + 2" | "unat x = n + 3"
    by linarith
  then show "wr32 (paged_wr m) a v r x = put_at n (dword_bytes v) r x"
    unfolding w fun_upd_apply E put_at_def length_dword_bytes by cases (simp_all add: dword_bytes_def)
qed

lemma put_dword_page:
  assumes L: "symtab_ok L" "dirs_ok L (mm s)" "i < NR_TASKS" "cr3 (mm s) = dir_pages L i"
    and k: "k + 4 \<le> 4096" and p: "p < TOTAL_PAGES" and e: "pte_present (pte_of L i (mm s) p)" "unat (pbase_addr (pte_of L i (mm s) p)) = f"
  shows "put_dword (of_nat (p * 2 ^ 12) + of_nat k) v s = Some (s\<lparr>ram := put_at (f * 4096 + k) (dword_bytes v) (ram s)\<rparr>)"
proof -
  let ?a = "of_nat (p * 2 ^ 12) + of_nat k :: ptr"
  have a: "?a + of_nat j = of_nat (p * 2 ^ 12) + of_nat (k + j)" for j by (simp add: add.assoc)
  have ua: "unat (of_nat (p * 2 ^ 12) :: ptr) = p * 4096" by (rule block_pages_page [OF p])
  have u: "unat (of_nat (p * 2 ^ 12) + of_nat j :: ptr) = p * 4096 + j" if "j < 4096" for j
    using ua that p by (subst unat_plus_word32) (simp_all add: TOTAL_PAGES_def unat_of_nat)
  have "page_walk (mm s) (?a + of_nat j) \<noteq> None" if "j < 4" for j
  proof -
    have j: "k + j < 4096" using that k by simp
    have "unat (?a + of_nat j) div 4096 = p" "unat (?a + of_nat j) < TOTAL_PAGES * 4096"
      unfolding a u [OF j] using j p by (simp_all add: TOTAL_PAGES_def)
    then show ?thesis using page_walk_task [OF L, of "?a + of_nat j"] e(1) by (simp add: Let_def)
  qed
  then have "mapped (mm s) ?a 4" by (simp add: mapped_def)
  moreover have "wr32 (paged_wr (mm s)) ?a v (ram s) = put_at (f * 4096 + k) (dword_bytes v) (ram s)"
  proof (rule wr32_put_at)
    show "f * 4096 + k + 4 \<le> 2 ^ 32" using k e(2) pbase_addr_less [of "pte_of L i (mm s) p"] by simp
    show "to_phys (mm s) (?a + of_nat j) = of_nat (f * 4096 + k + j)" if "j < 4" for j
      unfolding a using to_phys_page [OF L _ p e, of "k + j"] that k by (simp add: add.assoc)
  qed
  ultimately show ?thesis by (simp add: put_dword_def)
qed

section \<open>Creating a thread\<close>

text \<open>The new task is a copy of the running one with the next TID, ready and out of the free queue.\<close>

definition thread_prepare :: "ptr \<Rightarrow> kstate \<Rightarrow> kstate" where
  "thread_prepare c s =
     (let s = (copy_task (current s) c (upd_links (list_del (tnode c)) s))\<lparr>global_TID := wrap32 (global_TID s + 1)\<rparr>
      in upd_task c (\<lambda>T. T\<lparr>TID := global_TID s, state := ST_READY\<rparr>) s)"

lemma thread_prepare_simps [simp]:
  "mm (thread_prepare c s) = mm s" "ram (thread_prepare c s) = ram s" "esp (thread_prepare c s) = esp s"
  "idle_task (thread_prepare c s) = idle_task s" "tss_esp0 (thread_prepare c s) = tss_esp0 s" "sems (thread_prepare c s) = sems s"
  "msr_175 (thread_prepare c s) = msr_175 s" "current (thread_prepare c s) = current s"
  "global_TID (thread_prepare c s) = wrap32 (global_TID s + 1)"
  "tasks (thread_prepare c s) u = (if u = c then (tasks s (current s))\<lparr>TID := wrap32 (global_TID s + 1), state := ST_READY\<rparr> else tasks s u)"
  by (simp_all add: thread_prepare_def Let_def copy_task_def current_def)

lemma thread_prepare_queues:
  assumes L: "symtab_ok L" and inv: "kernel_inv L s A" and c: "a_queue A (freequeue L) = c # fs"
  shows "queues L (links (thread_prepare c s)) ((a_queue A)(freequeue L := fs))"
    and "c \<in> tasks_of L" "c \<noteq> current s" "c \<notin> queued L ((a_queue A)(freequeue L := fs))"
    and "insert c (queued L ((a_queue A)(freequeue L := fs))) = queued L (a_queue A)"
proof -
  let ?Q = "(a_queue A)(freequeue L := fs)"
  have rel: "sched_rel L s A" using inv by (simp add: kernel_inv_def)
  note r = sched_relD [OF rel]
  have cq: "c \<in> set (a_queue A (freequeue L))" using c by simp
  show ct: "c \<in> tasks_of L" using queuesD(2) [OF r(2)] cq by blast
  show "c \<noteq> current s" using not_queuedD [OF r(5), of "freequeue L"] cq by auto
  have q: "queues L (list_del (tnode c) (links s)) ?Q"
    using queues_del [OF L r(2), of "freequeue L" "[]" c fs] c by simp
  have qd: "queued L ?Q = queued L (a_queue A) - {c}" using queued_del [OF r(2), of "freequeue L" "[]" c fs] c by simp
  then show nq: "c \<notin> queued L ?Q" by simp
  have "c \<in> queued L (a_queue A)" using cq by (auto simp: queued_unfold)
  then show "insert c (queued L ?Q) = queued L (a_queue A)" using qd by auto
  have "links (thread_prepare c s) = (list_del (tnode c) (links s))(tnode c := list_del (tnode c) (links s) (tnode (current s)))"
    by (simp add: thread_prepare_def Let_def copy_task_def current_def)
  then show "queues L (links (thread_prepare c s)) ?Q" using queues_fresh_node [OF L q ct nq] by simp
qed

text \<open>The end of the call, once the page of the user stack is mapped and written.\<close>

definition thread_finish :: "symtab \<Rightarrow> ptr \<Rightarrow> ptr \<Rightarrow> ptr \<Rightarrow> kstate \<Rightarrow> kstate" where
  "thread_finish L c us wrapp s =
     (let s = put_kstack (c + 4088) (us + 4084) s;
          s = put_kstack (c + 4076) wrapp s;
          s = upd_task c (\<lambda>T. T\<lparr>register_esp := c + 4024\<rparr>) s
      in upd_links (list_add_tail (tnode c) (readyqueue L)) (init_stats c s))"

lemma sys_threadCreate_unfold:
  assumes L: "symtab_ok L" and inv: "kernel_inv L s A" and c: "a_queue A (freequeue L) = c # fs"
    and ok: "access_ok VERIFY_READ func 4 (task_heap s)" "par \<noteq> 0 \<longrightarrow> access_ok VERIFY_READ par 4 (task_heap s)"
      "access_ok VERIFY_READ wrapp 4 (task_heap s)"
    and pl: "\<not> int TOTAL_PAGES < int_of_dword (page_of (cur_heap s))" and al: "alloc_frame (mm s) = (f, m)"
  defines "PT \<equiv> get_PT c (thread_prepare c s)" and "us \<equiv> push_bit 12 (page_of (cur_heap s))"
  shows "sys_threadCreate L func par wrapp s =
    (if f = -1 then Option.bind (release_heap PT ((thread_prepare c s)\<lparr>mm := m\<rparr>)) (\<lambda>s.
       Some (- EAGAIN, upd_links (list_add_tail (tnode c) (freequeue L)) s))
     else Option.bind (put_dword (us + of_nat 4084) 0x777 (upd_task c (\<lambda>T. T\<lparr>ustack := us\<rparr>)
       (move_heap (\<lambda>x. x + 4096) ((thread_prepare c s)\<lparr>mm := set_ss_pag PT (page_of (cur_heap s)) (dword_of_int f) m\<rparr>)))) (\<lambda>s.
     Option.bind (put_dword (us + of_nat 4088) func s) (\<lambda>s.
     Option.bind (put_dword (us + of_nat 4092) par s) (\<lambda>s.
       Some (TID (tasks (thread_finish L c us wrapp s) c), thread_finish L c us wrapp s)))))"
proof -
  have rel: "sched_rel L s A" using inv by (simp add: kernel_inv_def)
  note q = sched_relD(2) [OF rel] and t = thread_prepare_queues [OF L inv c]
  have ne: "\<not> list_empty (freequeue L) (links s)" using queues_empty [OF q, of "freequeue L"] c by simp
  have fst: "list_first (freequeue L) (links s) = tnode c" using queues_first [OF q _ c] by simp
  have tp: "upd_task c (\<lambda>T. T\<lparr>semafors := semafors (tasks s (current s))\<rparr>) (upd_task c (\<lambda>T. T\<lparr>state := ST_READY\<rparr>)
      (upd_task c (\<lambda>T. T\<lparr>PID := PID (tasks s (current s))\<rparr>) (upd_task c (\<lambda>T. T\<lparr>TID := wrap32 (global_TID s + 1)\<rparr>)
        ((copy_task (current s) c (upd_links (list_del (tnode c)) s))\<lparr>global_TID := wrap32 (global_TID s + 1)\<rparr>)))) = thread_prepare c s"
    by (simp add: thread_prepare_def Let_def upd_task_def copy_task_def)
  have ct: "current (copy_task t c s) = current s" "tasks (copy_task t c s) u = (if u = c then tasks s t else tasks s u)"
    "global_TID (copy_task t c s) = global_TID s" for t s u
    by (simp_all add: copy_task_def current_def)
  have hp: "cur_heap (thread_prepare c s) = cur_heap s" using t(3) by (simp add: cur_heap_def)
  have ss: "stack_slot c (KERNEL_STACK_SIZE - 2) = c + 4088" "stack_slot c (KERNEL_STACK_SIZE - 5) = c + 4076"
    "stack_slot c (KERNEL_STACK_SIZE - 18) = c + 4024" by (simp_all add: stack_slot_def KERNEL_STACK_SIZE_def)
  have ok2: "(par \<noteq> 0 \<and> \<not> access_ok VERIFY_READ par 4 (task_heap s)) = False" using ok(2) by blast
  show ?thesis
    using ok(1,3) ne fst node_to_task [OF L t(2)] al t(3) pl
    by (simp add: sys_threadCreate_def Let_def ok2 ct tp hp ss us_def PT_def thread_finish_def PAGE_SIZE_def upd_mm_def)
qed

lemma sys_threadCreate_eq:
  assumes L: "symtab_ok L" and inv: "kernel_inv L s A" and c: "a_queue A (freequeue L) = c # fs"
    and ok: "access_ok VERIFY_READ func 4 (task_heap s)" "par \<noteq> 0 \<longrightarrow> access_ok VERIFY_READ par 4 (task_heap s)"
      "access_ok VERIFY_READ wrapp 4 (task_heap s)"
    and j: "j < NR_TASKS" "dir_pages_baseAddr (tasks s (current s)) = dir_pages L j" "dirs_ok L (mm s)"
    and p: "cur_heap s = page_addr p" "p < TOTAL_PAGES"
    and al: "alloc_frame (mm s) = (f, m)" "f \<noteq> -1"
  defines "s1 \<equiv> move_heap (\<lambda>x. x + 4096) ((thread_prepare c s)\<lparr>mm := set_ss_pag (pagusr_table L j) (of_nat p) (dword_of_int f) m\<rparr>)"
  shows "sys_threadCreate L func par wrapp s =
    Option.bind (put_dword (page_addr p + of_nat 4084) 0x777 (upd_task c (\<lambda>T. T\<lparr>ustack := page_addr p\<rparr>) s1)) (\<lambda>s.
    Option.bind (put_dword (page_addr p + of_nat 4088) func s) (\<lambda>s.
    Option.bind (put_dword (page_addr p + of_nat 4092) par s) (\<lambda>s.
      Some (TID (tasks (thread_finish L c (page_addr p) wrapp s) c), thread_finish L c (page_addr p) wrapp s))))"
proof -
  have PT: "get_PT c (thread_prepare c s) = pagusr_table L j"
    by (rule get_PT_eq [OF L _ j(1)]) (use j in simp_all)
  have pc: "page_of (cur_heap s) = of_nat p" using page_addr_simps(2) p by simp
  have "int_of_dword (of_nat p) = int p"
    using int_of_dword_of_int [of "int p"] p(2) by (simp add: dword_of_int_def int32_def TOTAL_PAGES_def)
  then have pl: "\<not> int TOTAL_PAGES < int_of_dword (page_of (cur_heap s))" using p(2) by (simp add: pc)
  have us: "push_bit 12 (of_nat p) = page_addr p" by (simp add: page_addr_def push_bit_eq_mult PAGE_SIZE_def)
  show ?thesis unfolding sys_threadCreate_unfold [OF L inv c ok pl al(1)] pc us PT s1_def if_not_P [OF al(2)] ..
qed

text \<open>The three words at the top of the user stack.\<close>

definition thread_words :: "ptr \<Rightarrow> ptr \<Rightarrow> Byte list" where
  "thread_words func par = dword_bytes 0x777 @ dword_bytes func @ dword_bytes par"

lemma put_thread_words:
  assumes L: "symtab_ok L" "dirs_ok L (mm s)" "i < NR_TASKS" "cr3 (mm s) = dir_pages L i"
    and p: "p < TOTAL_PAGES" and e: "pte_present (pte_of L i (mm s) p)" "unat (pbase_addr (pte_of L i (mm s) p)) = f"
  shows "Option.bind (put_dword (page_addr p + of_nat 4084) 0x777 s) (\<lambda>s.
    Option.bind (put_dword (page_addr p + of_nat 4088) func s) (\<lambda>s.
    Option.bind (put_dword (page_addr p + of_nat 4092) par s) g)) =
      g (s\<lparr>ram := put_at (f * 4096 + 4084) (thread_words func par) (ram s)\<rparr>)"
proof -
  have pa: "page_addr p = of_nat (p * 2 ^ 12)" by (simp add: page_addr_def PAGE_SIZE_def)
  have put: "put_dword (page_addr p + of_nat k) v (s\<lparr>ram := r\<rparr>) = Some (s\<lparr>ram := put_at (f * 4096 + k) (dword_bytes v) r\<rparr>)"
    if "k + 4 \<le> 4096" for k v r
    unfolding pa using put_dword_page [of L "s\<lparr>ram := r\<rparr>" i k p f v] assms that by simp
  have "s = s\<lparr>ram := ram s\<rparr>" by simp
  then have 1: "put_dword (page_addr p + of_nat 4084) 0x777 s = Some (s\<lparr>ram := put_at (f * 4096 + 4084) (dword_bytes 0x777) (ram s)\<rparr>)"
    using put [of 4084 "0x777" "ram s"] by simp
  have 2: "put_at (f * 4096 + 4088) (dword_bytes func) (put_at (f * 4096 + 4084) (dword_bytes 0x777) r) =
      put_at (f * 4096 + 4084) (dword_bytes 0x777 @ dword_bytes func) r" for r
    using put_at_append [of "f * 4096 + 4084" "dword_bytes 0x777" "dword_bytes func" r] unfolding length_dword_bytes add.assoc by simp
  have 3: "put_at (f * 4096 + 4092) (dword_bytes par) (put_at (f * 4096 + 4084) (dword_bytes 0x777 @ dword_bytes func) r) =
      put_at (f * 4096 + 4084) (thread_words func par) r" for r
    using put_at_append [of "f * 4096 + 4084" "dword_bytes 0x777 @ dword_bytes func" "dword_bytes par" r]
    unfolding length_append length_dword_bytes add.assoc by (simp add: thread_words_def)
  show ?thesis unfolding 1 Option.bind.bind_lunit using put [of 4088] put [of 4092] by (simp add: 2 3)
qed

lemma thread_finish_effect:
  fixes L :: symtab
  defines "s' \<equiv> \<lambda>c us w s. thread_finish L c us w s"
  shows "TID (tasks (s' c us w s) u) = TID (tasks s u)" "PID (tasks (s' c us w s) u) = PID (tasks s u)"
    "dir_pages_baseAddr (tasks (s' c us w s) u) = dir_pages_baseAddr (tasks s u)"
    "heap_pointer_proc (tasks (s' c us w s) u) = heap_pointer_proc (tasks s u)"
    "state (tasks (s' c us w s) u) = state (tasks s u)" "semafors (tasks (s' c us w s) u) = semafors (tasks s u)"
    "register_esp (tasks (s' c us w s) u) = (if u = c then c + 4024 else register_esp (tasks s u))"
    "links (s' c us w s) = list_add_tail (tnode c) (readyqueue L) (links s)"
    "mm (s' c us w s) = mm s" "ram (s' c us w s) = ram s" "sems (s' c us w s) = sems s" "esp (s' c us w s) = esp s"
    "idle_task (s' c us w s) = idle_task s" "tss_esp0 (s' c us w s) = tss_esp0 s" "msr_175 (s' c us w s) = msr_175 s"
    "current (s' c us w s) = current s"
  by (simp_all add: s'_def thread_finish_def Let_def current_def)

lemma thread_finish_kstack:
  "kstack (thread_finish L c us w s) = (kstack s)(c + 4088 := us + 4084, c + 4076 := w)"
  by (simp add: thread_finish_def Let_def fun_eq_iff)

lemma thread_finish_other: "u \<noteq> c \<Longrightarrow> tasks (thread_finish L c us w s) u = tasks s u"
  by (simp add: thread_finish_def Let_def init_stats_def read_ticks_def)

lemma map_one_frame:
  assumes wf: "frames_wf m" and av: "avail m \<noteq> {}" and p: "p < TOTAL_PAGES"
  obtains x m1 f where "alloc_frame m = (x, m1)" "x \<noteq> -1" "f \<in> avail m" "f < TOTAL_PAGES"
    "mapped_fresh PT [p] [f] m (set_ss_pag PT (of_nat p) (dword_of_int x) m1)"
proof -
  have "0 < card (avail m)" using av by (simp add: card_gt_0_iff)
  then obtain m' fs where m: "map_frames PT [p] m = Some m'" "mapped_fresh PT [p] fs m m'"
    using map_frames_fresh [OF wf, of "[p]" PT] p by auto
  obtain f where f: "fs = [f]" using m(2) by (auto simp: mapped_fresh_def length_Suc_conv)
  obtain x m1 where x: "alloc_frame m = (x, m1)" by (cases "alloc_frame m")
  with m(1) have e: "x \<noteq> -1" "m' = set_ss_pag PT (of_nat p) (dword_of_int x) m1" by (auto split: if_splits)
  have "f \<in> avail m" using m(2) f by (simp add: mapped_fresh_def)
  moreover then have "f < TOTAL_PAGES" using avail_bounds [OF wf] by simp
  ultimately show thesis using that [OF x e(1)] m(2) f e(2) by simp
qed

text \<open>The state after a successful call, with the stack page in frame \<open>f\<close>.\<close>

definition thread_created :: "symtab \<Rightarrow> ptr \<Rightarrow> ptr \<Rightarrow> ptr \<Rightarrow> ptr \<Rightarrow> nat \<Rightarrow> nat \<Rightarrow> mm_state \<Rightarrow> kstate \<Rightarrow> kstate" where
  "thread_created L c func par wrapp p f m s =
     thread_finish L c (page_addr p) wrapp
       ((upd_task c (\<lambda>T. T\<lparr>ustack := page_addr p\<rparr>) (move_heap (\<lambda>x. x + 4096) ((thread_prepare c s)\<lparr>mm := m\<rparr>)))
         \<lparr>ram := put_at (f * 4096 + 4084) (thread_words func par) (ram s)\<rparr>)"

lemma current_memory [simp]: "current (s\<lparr>mm := m\<rparr>) = current s" "current (s\<lparr>ram := r\<rparr>) = current s"
  by (simp_all add: current_def)

lemma current_move_heap [simp]: "current (move_heap g s) = current s"
  by (simp add: move_heap_def)

lemma thread_created_simps:
  fixes L :: symtab and c func par wrapp :: ptr and p f :: nat and m :: mm_state
  assumes c: "c \<noteq> current s"
  defines "s' \<equiv> thread_created L c func par wrapp p f m s"
  shows "TID (tasks s' c) = wrap32 (global_TID s + 1)" "PID (tasks s' c) = PID (tasks s (current s))"
    "dir_pages_baseAddr (tasks s' c) = dir_pages_baseAddr (tasks s (current s))" "state (tasks s' c) = ST_READY"
    "semafors (tasks s' c) = semafors (tasks s (current s))" "register_esp (tasks s' c) = c + 4024"
    "heap_pointer_proc (tasks s' c) = cur_heap s" "cur_heap s' = cur_heap s + 4096"
    "links s' = list_add_tail (tnode c) (readyqueue L) (links (thread_prepare c s))" "mm s' = m"
    "ram s' = put_at (f * 4096 + 4084) (thread_words func par) (ram s)" "sems s' = sems s" "esp s' = esp s"
    "idle_task s' = idle_task s" "tss_esp0 s' = tss_esp0 s" "msr_175 s' = msr_175 s"
    "kstack s' (c + 4088) = page_addr p + 4084" "kstack s' (c + 4076) = wrapp"
  using c by (simp_all add: s'_def thread_created_def thread_finish_effect thread_finish_kstack move_heap_def cur_heap_def)

lemma thread_created_tasks:
  assumes "u \<noteq> c" "c \<noteq> current s"
  shows "tasks (thread_created L c func par wrapp p f m s) u =
    (if u = current s then (tasks s u)\<lparr>heap_pointer_proc := cur_heap s + 4096\<rparr> else tasks s u)"
  unfolding thread_created_def thread_finish_other [OF assms(1)] using assms by (simp add: move_heap_def cur_heap_def)

section \<open>Properties\<close>

text \<open>C28: \<open>sys_threadCreate\<close> with valid pointers, a free task, a free page \<open>p\<close> of the process at the end of its heap
  and a free frame: it returns the next TID; the new thread is the first free task, ready and last in the
  ready queue, in the process and the address space of its creator, and the kernel invariant is kept.
  Page \<open>p\<close> is mapped to a fresh frame whose last three words are a fake frame pointer, the function and the
  parameter; the saved user context starts at the wrapper with the stack pointer below these words.
  The creator's heap now ends one page later, but the new thread's copy still ends at its own stack.\<close>

theorem sys_threadCreate_spec:
  assumes L: "symtab_ok L" and inv: "kernel_inv L s A" and ni: "current s \<noteq> idle_task s" and c: "a_queue A (freequeue L) = c # fs"
    and ok: "access_ok VERIFY_READ func 4 (task_heap s)" "par \<noteq> 0 \<longrightarrow> access_ok VERIFY_READ par 4 (task_heap s)"
      "access_ok VERIFY_READ wrapp 4 (task_heap s)"
    and j: "j < NR_TASKS" "dir_pages_baseAddr (tasks s (current s)) = dir_pages L j" "dirs_ok L (mm s)"
    and p: "cur_heap s = page_addr p" "p < TOTAL_PAGES" and wf: "frames_wf (mm s)" and av: "avail (mm s) \<noteq> {}"
  shows "\<exists>s' f. sys_threadCreate L func par wrapp s = Some (wrap32 (global_TID s + 1), s') \<and>
    kernel_inv L s' (a_fork L A) \<and> f \<in> avail (mm s) \<and> avail (mm s') = avail (mm s) - {f} \<and>
    TID (tasks s' c) = wrap32 (global_TID s + 1) \<and> PID (tasks s' c) = PID (tasks s (current s)) \<and>
    dir_pages_baseAddr (tasks s' c) = dir_pages L j \<and>
    pte_of L j (mm s') p = user_pte (of_nat f) \<and> (\<forall>q<TOTAL_PAGES. q \<noteq> p \<longrightarrow> pte_of L j (mm s') q = pte_of L j (mm s) q) \<and>
    ram s' = put_at (f * 4096 + 4084) (thread_words func par) (ram s) \<and>
    kstack s' (c + 4088) = page_addr p + 4084 \<and> kstack s' (c + 4076) = wrapp \<and> register_esp (tasks s' c) = c + 4024 \<and>
    cur_heap s' = page_addr (Suc p) \<and> heap_pointer_proc (tasks s' c) = page_addr p"
proof -
  have rel: "sched_rel L s A" and sinv: "sem_inv L s (a_queue A)" using inv by (auto simp: kernel_inv_def)
  note t = thread_prepare_queues [OF L inv c] and r = sched_relD [OF rel]
  obtain x m1 f where x: "alloc_frame (mm s) = (x, m1)" "x \<noteq> -1" "f \<in> avail (mm s)" "f < TOTAL_PAGES"
    and fr: "mapped_fresh (pagusr_table L j) [p] [f] (mm s) (set_ss_pag (pagusr_table L j) (of_nat p) (dword_of_int x) m1)"
    by (rule map_one_frame [OF wf av p(2)])
  let ?m = "set_ss_pag (pagusr_table L j) (of_nat p) (dword_of_int x) m1"
  let ?s' = "thread_created L c func par wrapp p f ?m s"
  have m: "avail ?m = avail (mm s) - {f}" "cr3 ?m = cr3 (mm s)" "pte_of L j ?m p = user_pte (of_nat f)"
    "\<And>a. a \<noteq> pt_slot (pagusr_table L j) (of_nat p) \<Longrightarrow> ptes ?m a = ptes (mm s) a"
    using fr by (simp_all add: mapped_fresh_def pte_of_def)
  have d: "dirs_ok L ?m" by (rule dirs_ok_slots [OF L j(3,1)]) (use m(4) p(2) in blast)
  have u: "unat (pbase_addr (user_pte (of_nat f))) = f"
    using x(4) by (simp add: take_bit_of_nat take_bit_nat_eq_self unat_of_nat TOTAL_PAGES_def)
  note n = thread_created_simps [OF t(3), of L func par wrapp p f ?m]
  have sf: "sys_threadCreate L func par wrapp s = Some (wrap32 (global_TID s + 1), ?s')"
  proof -
    let ?s2 = "upd_task c (\<lambda>T. T\<lparr>ustack := page_addr p\<rparr>) (move_heap (\<lambda>x. x + 4096) ((thread_prepare c s)\<lparr>mm := ?m\<rparr>))"
    have s2: "mm ?s2 = ?m" "ram ?s2 = ram s" by (simp_all add: move_heap_def)
    note w = put_thread_words [of L ?s2 j p f, unfolded s2, OF L d j(1) _ p(2)]
    show ?thesis
      unfolding sys_threadCreate_eq [OF L inv c ok j p x(1,2)]
      by (subst w) (use m(2,3) u r(10) j(2) n(1) in \<open>simp_all add: thread_created_def\<close>)
  qed
  have "current s \<notin> set (a_queue A (freequeue L))" using not_queuedD [OF r(5)] by simp
  then have "semafors (tasks s (current s)) = sym_semafor_proces L" using sinv r(4) ni by (simp add: sem_inv_def)
  then have inv': "kernel_inv L ?s' (a_fork L A)"
    by (intro new_task_ready [OF L inv c t(1,2,4,5)])
       (use m(2) n sinv new_task_resumable(2) [OF L t(2)] thread_created_tasks [OF _ t(3)] in \<open>auto simp: sem_inv_def\<close>)
  have oth: "\<forall>q<TOTAL_PAGES. q \<noteq> p \<longrightarrow> pte_of L j (mm ?s') q = pte_of L j (mm s) q"
    using table_slot_inject [OF L j(1) _ j(1) p(2)] m(4) unfolding n(10) pte_of_def by simp
  show ?thesis
    by (intro exI [of _ ?s'] exI [of _ f] conjI sf inv' oth x(3)) (use n m p j page_addr_simps(4) [of p] in \<open>simp_all add: PAGE_SIZE_def\<close>)
qed

theorem sys_threadCreate_spec_witness:
  "\<exists>s' f. sys_threadCreate example_symtab (of_nat L_USER_START) 0 (of_nat L_USER_START) booted = Some (1001, s') \<and>
     kernel_inv example_symtab s' (a_fork example_symtab (boot_abs example_symtab)) \<and>
     ram s' = put_at (f * 4096 + 4084) (thread_words (of_nat L_USER_START) 0) (ram booted)"
proof -
  let ?L = "example_symtab" and ?u = "of_nat L_USER_START :: ptr"
  have c: "a_queue (boot_abs ?L) (freequeue ?L) = task ?L 2 # map (task ?L) [3..<NR_TASKS]"
    unfolding boot_abs_queues(3) [OF example_symtab_ok] by (simp add: NR_TASKS_def upt_rec)
  have ok: "access_ok VERIFY_READ ?u 4 (task_heap booted)"
    by (simp add: access_ok_def Let_def layout_consts drop_bit_eq_div VERIFY_READ_def VERIFY_WRITE_def)
  have p: "cur_heap booted = page_addr 304" using booted_mm(6) by (simp add: cur_heap_def page_addr_def layout_consts)
  have g: "wrap32 (global_TID booted + 1) = 1001"
    by (simp add: booted_def kernel_entry_def init_kernel_def Let_def init_task1_def init_idle_def init_sched_def init_mm_def init_sems_eq
      init_freequeue_eq allocate_DIR_def zero_kstate_def wrap32_def)
  have av: "avail (mm booted) \<noteq> {}" using booted_mm(8) by auto
  have nr: "1 < NR_TASKS" "304 < TOTAL_PAGES" by (simp_all add: NR_TASKS_def TOTAL_PAGES_def)
  from sys_threadCreate_spec [OF example_symtab_ok booted_inv(1,3) c ok _ ok nr(1) booted_mm(5,3) p nr(2) booted_mm(1) av, of 0]
  show ?thesis unfolding g by blast
qed

text \<open>C29: \<open>sys_threadExit\<close> of a thread whose heap ends at page \<open>p\<close>, the page of its own user stack: the page is
  unmapped, its frame is free (unless it is frame 256), no other page or frame changes, the task goes to the
  end of the free queue, and the first ready task, or the idle task, runs. The PID of the free task is not
  cleared, so \<open>sys_get_stats\<close> still finds it.\<close>

theorem sys_threadExit_spec:
  assumes L: "symtab_ok L" and inv: "kernel_inv L s A" and ni: "current s \<noteq> idle_task s"
    and j: "j < NR_TASKS" "dir_pages_baseAddr (tasks s (current s)) = dir_pages L j" "dirs_ok L (mm s)"
    and p: "cur_heap s = page_addr p" "p < TOTAL_PAGES" and len: "length (phys_mem (mm s)) = TOTAL_PAGES"
  defines "s' \<equiv> sys_threadExit L s"
  shows "kernel_inv L s' (a_exit L (idle_task s) A) \<and> PID (tasks s' (current s)) = PID (tasks s (current s)) \<and>
    (\<forall>a. ptes (mm s') a = (if a = pt_slot (pagusr_table L j) (of_nat p) then 0 else ptes (mm s) a)) \<and>
    (\<forall>n<TOTAL_PAGES. phys_mem (mm s') ! n =
       (if NUM_PAG_KERNEL < n \<and> n = unat (pbase_addr (pte_of L j (mm s) p)) then FREE_FRAME else phys_mem (mm s) ! n))"
proof -
  have rel: "sched_rel L s A" using inv by (simp add: kernel_inv_def)
  let ?m = "unmap_page (pagusr_table L j) p (mm s)"
  let ?s = "upd_links (list_add_tail (tnode (current s)) (freequeue L)) (move_heap (\<lambda>x. x - of_nat PAGE_SIZE) (s\<lparr>mm := ?m\<rparr>))"
  have PT: "get_PT (current s) s = pagusr_table L j" by (rule get_PT_eq [OF L j(3,1,2)])
  have "page_of (cur_heap s) = of_nat p" using page_addr_simps(2) p by simp
  then have eq: "s' = sched_next_rr L ?s"
    by (simp add: s'_def sys_threadExit_def Let_def PT unmap_page_def upd_mm_def)
  have inv': "kernel_inv L s' (a_exit L (idle_task s) A)" unfolding eq
    by (rule exit_inv [OF L inv ni]) (simp_all add: move_heap_def)
  have "tasks_placed L ?s ((a_queue A)(freequeue L := a_queue A (freequeue L) @ [current s]))"
    by (rule exit_placed(1) [OF L rel ni]) (simp_all add: move_heap_def)
  then have "queues L (links ?s) ((a_queue A)(freequeue L := a_queue A (freequeue L) @ [current s]))"
    unfolding tasks_placed_def by (rule conjunct1)
  note e = sched_next_rr_effect(9) [OF L this, folded eq]
  have mm: "phys_mem (mm s') = phys_mem ?m" "ptes (mm s') = ptes ?m" using same_restD(1,2) [OF e] by (simp_all add: move_heap_def)
  from same_task_fields [OF same_restD(3) [OF e, of "current s"]] have pid: "PID (tasks s' (current s)) = PID (tasks s (current s))"
    by (simp add: move_heap_def)
  have pg: "distinct [p]" "set [p] \<subseteq> {..<TOTAL_PAGES}" using p(2) by simp_all
  note u = unmap_pages_effect [OF pg len, where PT = "pagusr_table L j"]
  have "get_frame (pagusr_table L j) (of_nat p) (mm s) = pbase_addr (pte_of L j (mm s) p)" by (simp add: get_frame_def pte_of_def)
  then have "\<forall>n<TOTAL_PAGES. phys_mem (mm s') ! n =
      (if NUM_PAG_KERNEL < n \<and> n = unat (pbase_addr (pte_of L j (mm s) p)) then FREE_FRAME else phys_mem (mm s) ! n)"
    using u(1) by (auto simp: mm)
  moreover have "\<forall>a. ptes (mm s') a = (if a = pt_slot (pagusr_table L j) (of_nat p) then 0 else ptes (mm s) a)"
    using u(2) [OF p(2)] by (simp add: mm)
  ultimately show ?thesis using inv' pid by blast
qed

theorem sys_threadExit_spec_witness:
  "kernel_inv example_symtab (sys_threadExit example_symtab booted) (a_exit example_symtab (idle_task booted) (boot_abs example_symtab))"
proof -
  have p: "cur_heap booted = page_addr 304" using booted_mm(6) by (simp add: cur_heap_def page_addr_def layout_consts)
  have nr: "1 < NR_TASKS" "304 < TOTAL_PAGES" by (simp_all add: NR_TASKS_def TOTAL_PAGES_def)
  have "length (phys_mem (mm booted)) = TOTAL_PAGES" using booted_mm(1) by (simp add: frames_wf_def)
  from sys_threadExit_spec [OF example_symtab_ok booted_inv(1,3) nr(1) booted_mm(5,3) p nr(2) this] show ?thesis by blast
qed

end
