(* ===== verification/Zeos_Kernel.thy ===== *)
theory Zeos_Kernel
  imports Zeos_Sys Zeos_Thread
begin

text \<open>
  The kernel as a whole: \<open>system_call_handler\<close> and the interrupt handlers of \<open>entry.S\<close> as a step relation on
  kernel states, and the preservation of the kernel invariant by every handler.
\<close>

section \<open>System calls\<close>

text \<open>
  \<open>system_call_handler\<close> with the number in \<open>eax\<close> and the arguments in \<open>ebx\<close>, \<open>ecx\<close>, \<open>edx\<close>, and the table of
  \<open>sys_call_table.S\<close>. \<open>localbuffer\<close> is where \<open>sys_write\<close> has its local array. Number 36 passes the bound check
  and jumps through the word after the table: it has no value here. A call that switches to another task has
  the value the caller gets when it runs again.
\<close>

definition sys_call_table :: "symtab \<Rightarrow> ptr \<Rightarrow> int \<Rightarrow> DWord \<Rightarrow> DWord \<Rightarrow> DWord \<Rightarrow> kstate \<Rightarrow> (int \<times> kstate) option" where
  "sys_call_table L localbuffer nr ebx ecx edx s =
     (if nr = 1 then map_option (\<lambda>s. (0, s)) (sys_exit L s)
      else if nr = 2 then sys_fork L s
      else if nr = 4 then sys_write localbuffer (int_of_dword ebx) ecx (int_of_dword edx) s
      else if nr = 10 then Some (sys_gettime s)
      else if nr = 13 then Some (sys_yield L s)
      else if nr = 20 then Some (sys_getpid s)
      else if nr = 21 then sys_getKey ebx s
      else if nr = 22 then map_option (\<lambda>(p, s). (int_of_dword p, s)) (sys_sbrk (int_of_dword ebx) s)
      else if nr = 23 then Some (sys_gotoXY (int_of_dword ebx) (int_of_dword ecx) s)
      else if nr = 24 then Some (sys_SetColor (int_of_dword ebx) (int_of_dword ecx) s)
      else if nr = 25 then sys_spritePut (int_of_dword ebx) (int_of_dword ecx) edx s
      else if nr = 26 then sys_threadCreate L ebx ecx edx s
      else if nr = 27 then Some (0, sys_threadExit L s)
      else if nr = 28 then Some (sys_semCreate (int_of_dword ebx) s)
      else if nr = 29 then Some (sys_semWait L (int_of_dword ebx) s)
      else if nr = 30 then Some (sys_semSignal L (int_of_dword ebx) s)
      else if nr = 31 then sys_semDestroy L (int_of_dword ebx) s
      else if nr = 35 then sys_get_stats L (int_of_dword ebx) ecx s
      else if nr = 36 then None
      else Some (sys_ni_syscall s))"

definition system_call_handler :: "symtab \<Rightarrow> ptr \<Rightarrow> int \<Rightarrow> DWord \<Rightarrow> DWord \<Rightarrow> DWord \<Rightarrow> kstate \<Rightarrow> (int \<times> kstate) option" where
  "system_call_handler L localbuffer nr ebx ecx edx s =
     (let s = kernel_entry s
      in if nr < 0 then Some (- ENOSYS, s)
         else if nr > 36 then Some (- ENOSYS, s)
         else sys_call_table L localbuffer nr ebx ecx edx s)"

section \<open>What most calls keep\<close>

text \<open>\<open>keeps s s'\<close>: the queues, the semaphores, the stack, and the fields of the tasks that the scheduler relies
  on are the same.\<close>

definition keeps :: "kstate \<Rightarrow> kstate \<Rightarrow> bool" where
  "keeps s s' \<longleftrightarrow> links s' = links s \<and> sems s' = sems s \<and> esp s' = esp s \<and> idle_task s' = idle_task s \<and>
     tss_esp0 s' = tss_esp0 s \<and> msr_175 s' = msr_175 s \<and> cr3 (mm s') = cr3 (mm s) \<and>
     (\<forall>u. state (tasks s' u) = state (tasks s u) \<and> register_esp (tasks s' u) = register_esp (tasks s u) \<and>
        semafors (tasks s' u) = semafors (tasks s u) \<and> dir_pages_baseAddr (tasks s' u) = dir_pages_baseAddr (tasks s u) \<and>
        PID (tasks s' u) = PID (tasks s u))"

lemma keeps_refl [simp]: "keeps s s"
  by (simp add: keeps_def)

lemma keeps_trans: "keeps s s' \<Longrightarrow> keeps s' s'' \<Longrightarrow> keeps s s''"
  by (simp add: keeps_def)

lemma keeps_inv: "keeps s s' \<Longrightarrow> kernel_inv L s A \<Longrightarrow> kernel_inv L s' A"
  unfolding keeps_def by (rule kernel_inv_cong) auto

lemma keeps_current: "keeps s s' \<Longrightarrow> current s' = current s"
  by (rule current_cong) (simp add: keeps_def)

lemma alloc_frame_cr3: "alloc_frame m = (f, m') \<Longrightarrow> cr3 m' = cr3 m"
  by (cases m rule: alloc_frame_cases) auto

lemma keeps_update [simp]:
  "keeps s (s\<lparr>con := c\<rparr>)" "keeps s (s\<lparr>ram := r\<rparr>)" "keeps s (s\<lparr>cBuffer := b\<rparr>)" "keeps s (s\<lparr>zeos_ticks := z\<rparr>)"
  "keeps s (upd_con g s)" "keeps s (s\<lparr>con := c, ram := r\<rparr>)" "keeps s (move_heap h s)" "keeps s (charge_user t s)" "keeps s (charge_system t s)"
  "cr3 (f (mm s)) = cr3 (mm s) \<Longrightarrow> keeps s (upd_mm f s)" "cr3 m = cr3 (mm s) \<Longrightarrow> keeps s (s\<lparr>mm := m\<rparr>)"
  by (simp_all add: keeps_def move_heap_def)

lemma put_byte_keeps: "put_byte a v s = Some s' \<Longrightarrow> keeps s s'"
  by (auto simp: put_byte_def split: if_splits)

lemma put_bytes_keeps: "put_bytes a vs s = Some s' \<Longrightarrow> keeps s s'"
  by (induction a vs s rule: put_bytes.induct) (auto split: bind_splits dest!: put_byte_keeps intro: keeps_trans)

lemma vm_copy_keeps: "vm_copy p q n s = Some s' \<Longrightarrow> keeps s s'"
  by (auto simp: vm_copy_def split: if_splits)

lemma vm_copy_from_user_keeps: "vm_copy_from_user p q n s = Some s' \<Longrightarrow> keeps s s'"
  by (auto simp: vm_copy_from_user_def split: if_splits)

lemma put_dword_keeps: "put_dword a v s = Some s' \<Longrightarrow> keeps s s'"
  by (auto simp: put_dword_def split: if_splits)

lemma sbrk_unwind_keeps:
  assumes "sbrk_unwind PT old s = Some s'"
  shows "keeps s s'"
proof (rule sbrk_unwind.raw_induct [where P = "\<lambda>PT old s s'. keeps s s'", OF _ assms], goal_cases)
  case (1 f PT old s s')
  show ?case
    using 1(2) by (auto simp: Let_def split: if_splits dest!: 1(1) simp: keeps_def move_heap_def)
qed

lemma sbrk_grow_keeps:
  assumes "sbrk_grow PT old new s = Some y"
  shows "keeps s (snd y)"
proof (rule sbrk_grow.raw_induct [where P = "\<lambda>PT old new s y. keeps s (snd y)", OF _ assms], goal_cases)
  case (1 f PT old new s y)
  obtain x m where a: "alloc_frame (mm s) = (x, m)" by (cases "alloc_frame (mm s)")
  have c: "cr3 m = cr3 (mm s)" by (rule alloc_frame_cr3 [OF a])
  show ?case
    using 1(2) a c by (auto simp: Let_def split: if_splits bind_splits dest!: 1(1) sbrk_unwind_keeps simp: keeps_def move_heap_def)
qed

lemma sbrk_shrink_keeps:
  assumes "sbrk_shrink PT new s = Some s'"
  shows "keeps s s'"
proof (rule sbrk_shrink.raw_induct [where P = "\<lambda>PT new s s'. keeps s s'", OF _ assms], goal_cases)
  case (1 f PT new s s')
  show ?case
    using 1(2) by (auto simp: Let_def split: if_splits dest!: 1(1) simp: keeps_def move_heap_def)
qed

lemma sys_sbrk_keeps: "sys_sbrk sz s = Some (p, s') \<Longrightarrow> keeps s s'"
  by (auto simp: sys_sbrk_def Let_def split: if_splits bind_splits dest!: sbrk_grow_keeps sbrk_shrink_keeps)

lemma release_heap_keeps:
  assumes "release_heap PT s = Some s'"
  shows "keeps s s'"
proof (rule release_heap.raw_induct [where P = "\<lambda>PT s s'. keeps s s'", OF _ assms], goal_cases)
  case (1 f PT s s')
  show ?case
    using 1(2) by (auto simp: Let_def split: if_splits dest!: 1(1) simp: keeps_def move_heap_def)
qed

lemma fork_copy_keeps: "fork_copy PT PT' ps s = Some s' \<Longrightarrow> keeps s s'"
proof (induction ps arbitrary: s)
  case (Cons p ps)
  let ?s1 = "upd_mm (set_ss_pag PT' (of_nat (p + NUM_PAG_DATA)) (get_frame PT (of_nat p) (mm s))) s"
  from Cons.prems obtain s2 where s2: "vm_copy (of_nat (p * 2 ^ 12)) (of_nat ((p + NUM_PAG_DATA) * 2 ^ 12)) PAGE_SIZE ?s1 = Some s2"
    "fork_copy PT PT' ps (upd_mm (del_ss_pag PT' (of_nat (p + NUM_PAG_DATA))) s2) = Some s'"
    by (auto simp: Let_def split: bind_splits)
  have "keeps s ?s1" "keeps s2 (upd_mm (del_ss_pag PT' (of_nat (p + NUM_PAG_DATA))) s2)" by simp_all
  with vm_copy_keeps [OF s2(1)] Cons.IH [OF s2(2)] show ?case by (blast intro: keeps_trans)
qed simp

lemma fork_heap_keeps:
  assumes "fork_heap PT PT' i st s = Some s'"
  shows "keeps s s'"
proof (rule fork_heap.raw_induct [where P = "\<lambda>PT PT' i st s s'. keeps s s'", OF _ assms], goal_cases)
  case (1 f PT PT' i st s s')
  show ?case
    using 1(2) by (auto simp: Let_def split: if_splits bind_splits dest!: 1(1) vm_copy_keeps simp: keeps_def move_heap_def)
qed

lemma write_loop_keeps: "write_loop lb b n s = Some (b', n', s') \<Longrightarrow> keeps s s'"
proof (induction lb b n s rule: write_loop.induct)
  case (1 lb b n s)
  show ?case
  proof (cases "n > int TAM_BUFFER")
    case True
    obtain s1 where s1: "vm_copy_from_user b lb TAM_BUFFER s = Some s1" using "1.prems" True by (subst (asm) write_loop.simps) (auto split: bind_splits)
    obtain ret c where w: "sys_write_console (\<lambda>i. user_view s1 (lb + word_of_int i)) (int TAM_BUFFER) (con s1) = (ret, c)"
      by (cases "sys_write_console (\<lambda>i. user_view s1 (lb + word_of_int i)) (int TAM_BUFFER) (con s1)")
    have "write_loop lb (b + word_of_int ret) (n - ret) (s1\<lparr>con := c\<rparr>) = Some (b', n', s')"
      using "1.prems" True s1 w by (subst (asm) write_loop.simps) simp
    then have "keeps (s1\<lparr>con := c\<rparr>) s'" by (rule "1.IH" [OF True s1 w [symmetric]])
    with vm_copy_from_user_keeps [OF s1] show ?thesis by (blast intro: keeps_trans keeps_update(1))
  next
    case False
    then show ?thesis using "1.prems" by (subst (asm) write_loop.simps) simp
  qed
qed

lemma sys_write_keeps:
  assumes "sys_write lb fd b n s = Some (r, s')"
  shows "keeps s s'"
proof (cases "check_fd fd ESCRIPTURA \<noteq> 0 \<or> n < 0 \<or> \<not> access_ok VERIFY_READ b (word_of_int n) None")
  case True
  then show ?thesis using assms by (auto simp: sys_write_def Let_def split: if_splits)
next
  case False
  then obtain b' n' s1 where w: "write_loop lb b n s = Some (b', n', s1)"
    using assms by (auto simp: sys_write_def Let_def split: bind_splits)
  then have "keeps s1 s'" using assms False
    by (auto simp: sys_write_def Let_def split: if_splits bind_splits prod.splits dest!: vm_copy_from_user_keeps intro: keeps_trans)
  with write_loop_keeps [OF w] show ?thesis by (rule keeps_trans)
qed

lemma sys_getKey_keeps: "sys_getKey b s = Some (r, s') \<Longrightarrow> keeps s s'"
  by (auto simp: sys_getKey_def split: if_splits prod.splits bind_splits dest!: put_byte_keeps intro: keeps_trans)

lemma con_call_keeps: "keeps s (snd (con_call f s))"
  by (simp add: con_call_def split: prod.splits)

lemma con_call_keeps': "con_call f s = (r, s') \<Longrightarrow> keeps s s'"
  using con_call_keeps [of s f] by simp

lemma sys_spritePut_keeps: "sys_spritePut x y sp s = Some (r, s') \<Longrightarrow> keeps s s'"
  using con_call_keeps [of s] by (auto simp: sys_spritePut_def split: if_splits) (metis snd_conv)

lemma sys_get_stats_keeps: "sys_get_stats L pid st s = Some (r, s') \<Longrightarrow> keeps s s'"
proof -
  have "get_stats_loop L is pid st s = Some (r, s') \<Longrightarrow> keeps s s'" for "is"
  proof (induction "is")
    case (Cons i "is")
    let ?s = "upd_task (task L i) (\<lambda>T. T\<lparr>p_stats := (p_stats T)\<lparr>remaining_ticks := dword_of_int (remaining_quantum s)\<rparr>\<rparr>) s"
    have "keeps s ?s" by (simp add: keeps_def)
    with Cons show ?case by (auto simp: Let_def split: if_splits bind_splits dest!: put_bytes_keeps intro: keeps_trans)
  qed simp
  then show "sys_get_stats L pid st s = Some (r, s') \<Longrightarrow> keeps s s'" by (auto simp: sys_get_stats_def split: if_splits)
qed

section \<open>The invariant of the whole kernel\<close>

definition counts_ok :: "kstate \<Rightarrow> bool" where
  "counts_ok s \<longleftrightarrow> (\<forall>a. int32 (count (sems s a)))"

definition kernel_ok :: "symtab \<Rightarrow> kstate \<Rightarrow> bool" where
  "kernel_ok L s \<longleftrightarrow> (\<exists>A. kernel_inv L s A) \<and> counts_ok s"

text \<open>
  What an operation leaves to the others. \<open>frame L K X s s'\<close>: from a sound \<open>s\<close> the kernel is sound in \<open>s'\<close>, the
  semaphores in \<open>K\<close> have the same fields and the same threads waiting, no task outside \<open>X\<close> became free, and the
  tasks in use outside \<open>X\<close> belong to the same process.
\<close>

definition frame_to :: "symtab \<Rightarrow> nat set \<Rightarrow> ptr set \<Rightarrow> sched_abs \<Rightarrow> kstate \<Rightarrow> sched_abs \<Rightarrow> kstate \<Rightarrow> bool" where
  "frame_to L K X A s A' s' \<longleftrightarrow> kernel_inv L s' A' \<and> counts_ok s' \<and>
     (\<forall>k\<in>K. sems s' (sem_of L k) = sems s (sem_of L k) \<and> a_queue A' (sem_queue L k) = a_queue A (sem_queue L k)) \<and>
     set (a_queue A' (freequeue L)) \<subseteq> set (a_queue A (freequeue L)) \<union> X \<and>
     (\<forall>t. t \<notin> set (a_queue A (freequeue L)) \<union> X \<longrightarrow> PID (tasks s' t) = PID (tasks s t))"

definition frame :: "symtab \<Rightarrow> nat set \<Rightarrow> ptr set \<Rightarrow> kstate \<Rightarrow> kstate \<Rightarrow> bool" where
  "frame L K X s s' \<longleftrightarrow> (\<forall>A. kernel_inv L s A \<and> counts_ok s \<longrightarrow> (\<exists>A'. frame_to L K X A s A' s'))"

lemma frameI: "(\<And>A. kernel_inv L s A \<Longrightarrow> counts_ok s \<Longrightarrow> \<exists>A'. frame_to L K X A s A' s') \<Longrightarrow> frame L K X s s'"
  by (simp add: frame_def)

lemma frameE:
  assumes "frame L K X s s'" "kernel_inv L s A" "counts_ok s"
  obtains A' where "frame_to L K X A s A' s'"
  using assms by (auto simp: frame_def)

lemma frame_ok: "frame L K X s s' \<Longrightarrow> kernel_ok L s \<Longrightarrow> kernel_ok L s'"
  by (auto simp: frame_def frame_to_def kernel_ok_def)

lemma frame_trans:
  assumes "frame L K X s s'" "frame L K Y s' s''"
  shows "frame L K (X \<union> Y) s s''"
proof (rule frameI)
  fix A assume "kernel_inv L s A" "counts_ok s"
  with assms(1) obtain A' where a: "frame_to L K X A s A' s'" by (rule frameE)
  then have "kernel_inv L s' A'" "counts_ok s'" by (simp_all add: frame_to_def)
  with assms(2) obtain A'' where b: "frame_to L K Y A' s' A'' s''" by (rule frameE)
  have "frame_to L K (X \<union> Y) A s A'' s''" using a b unfolding frame_to_def by auto
  then show "\<exists>A''. frame_to L K (X \<union> Y) A s A'' s''" ..
qed

lemma frame_trans': "frame L K {} s s' \<Longrightarrow> frame L K X s' s'' \<Longrightarrow> frame L K X s s''"
  "frame L K X s s' \<Longrightarrow> frame L K {} s' s'' \<Longrightarrow> frame L K X s s''"
  using frame_trans [of L K "{}" s s' X s''] frame_trans [of L K X s s' "{}" s''] by simp_all

lemma frame_mono: "frame L K X s s' \<Longrightarrow> K' \<subseteq> K \<Longrightarrow> X \<subseteq> X' \<Longrightarrow> frame L K' X' s s'"
  unfolding frame_def frame_to_def by blast

lemma keeps_frame: "keeps s s' \<Longrightarrow> frame L K X s s'"
  using keeps_inv [of s s' L] by (auto simp: frame_def frame_to_def counts_ok_def keeps_def)

lemma keeps_ok: "keeps s s' \<Longrightarrow> kernel_ok L s \<Longrightarrow> kernel_ok L s'"
  using keeps_inv [of s s' L] by (auto simp: kernel_ok_def counts_ok_def) (simp add: keeps_def)

lemma kernel_inv_esp:
  assumes "kernel_inv L s A" "(e - 12) AND 0xfffff000 = current s"
  shows "kernel_inv L (s\<lparr>esp := e\<rparr>) A"
proof -
  have "current (s\<lparr>esp := e\<rparr>) = current s" using assms(2) by (simp add: current_def)
  moreover have "resumable (s\<lparr>esp := e\<rparr>) = resumable s" by (simp add: resumable_def fun_eq_iff)
  ultimately show ?thesis using assms(1) by (simp add: kernel_inv_def sched_rel_def tasks_placed_def sem_inv_def)
qed

lemma esp_frame: "(e - 12) AND 0xfffff000 = current s \<Longrightarrow> frame L K X s (s\<lparr>esp := e\<rparr>)"
  by (rule frameI) (auto intro!: exI kernel_inv_esp simp: frame_to_def counts_ok_def)

lemma kernel_entry_ok:
  assumes L: "symtab_ok L" and ok: "kernel_ok L s"
  shows "frame L K X s (kernel_entry s)" "current (kernel_entry s) = current s" "esp (kernel_entry s) = msr_175 (kernel_entry s) - 64"
proof -
  obtain A where inv: "kernel_inv L s A" using ok by (auto simp: kernel_ok_def)
  then have rel: "sched_rel L s A" by (simp add: kernel_inv_def)
  note r = sched_relD(4,9) [OF rel]
  have "msr_175 s - 64 - 12 = current s + of_nat 4020" unfolding r(2) by simp
  then have e: "(msr_175 s - 64 - 12) AND 0xfffff000 = current s"
    using page_mask_offset [OF task_aligned [OF L r(1)], of 4020] by (simp only:)
  then show "current (kernel_entry s) = current s" by (simp add: kernel_entry_def current_def)
  show "frame L K X s (kernel_entry s)" using esp_frame [OF e] by (simp add: kernel_entry_def)
  show "esp (kernel_entry s) = msr_175 (kernel_entry s) - 64" by (simp add: kernel_entry_def)
qed

lemma force_task_switch_inv:
  assumes L: "symtab_ok L" and inv: "kernel_inv L s A"
    and nt: "a_queue A (readyqueue L) \<noteq> [] \<or> resumable s (current s)"
  shows "kernel_inv L (force_task_switch L s) (a_yield L (idle_task s) A)" and "sems (force_task_switch L s) = sems s"
    and "PID (tasks (force_task_switch L s) u) = PID (tasks s u)"
proof -
  let ?s = "update_process_state_rr L (current s) (Some (readyqueue L)) s"
  let ?Q = "(a_queue A)(readyqueue L := a_queue A (readyqueue L) @ [current s])"
  have rel: "sched_rel L s A" and sinv: "sem_inv L s (a_queue A)" using inv by (auto simp: kernel_inv_def)
  note y = yield_placed [OF L rel] and e = update_process_state_rr_ready [OF sched_relD(7) [OF rel], of L]
  have q: "queues L (links ?s) ?Q" using y(1) unfolding tasks_placed_def by (rule conjunct1)
  note n = same_restD [OF sched_next_rr_effect(9) [OF L q]]
  have "sem_inv L ?s ?Q"
    by (rule sem_inv_cong [OF sinv]) (use L e y(4) same_task_fields in \<open>auto simp: same_rest_def\<close>)
  from sem_inv_sched_next [OF L q this]
  have "sem_inv L (force_task_switch L s) (a_queue (a_yield L (idle_task s) A))"
    using sched_relD(3) [OF rel] by (simp add: force_task_switch_def Let_def a_yield_def a_next_def)
  with force_task_switch_rel [OF L rel nt] show "kernel_inv L (force_task_switch L s) (a_yield L (idle_task s) A)"
    by (simp add: kernel_inv_def)
  show "sems (force_task_switch L s) = sems s"
    using n(6) e(7) by (simp add: force_task_switch_def Let_def same_rest_def)
  show "PID (tasks (force_task_switch L s) u) = PID (tasks s u)"
    using same_task_fields [OF n(3), of u] same_task_fields [OF same_restD(3) [OF e(7)], of u] by (simp add: force_task_switch_def Let_def)
qed

lemma force_task_switch_frame:
  assumes L: "symtab_ok L" and nt: "\<not> list_empty (readyqueue L) (links s) \<or> resumable s (current s)"
  shows "frame L {..<NUM_SEM} {} s (force_task_switch L s)"
proof (rule frameI)
  fix A assume inv: "kernel_inv L s A" and c: "counts_ok s"
  then have "sched_rel L s A" by (simp add: kernel_inv_def)
  note q = queues_empty [OF sched_relD(2) [OF this], of "readyqueue L"]
  have "a_queue A (readyqueue L) \<noteq> [] \<or> resumable s (current s)" using nt q by simp
  note f = force_task_switch_inv [OF L inv this]
  have "frame_to L {..<NUM_SEM} {} A s (a_yield L (idle_task s) A) (force_task_switch L s)"
    using L f c by (simp add: frame_to_def a_yield_def a_next_def counts_ok_def)
  then show "\<exists>A'. frame_to L {..<NUM_SEM} {} A s A' (force_task_switch L s)" ..
qed

lemma sched_next_exit_frame:
  assumes L: "symtab_ok L" and ni: "current s \<noteq> idle_task s" and k: "keeps s s1"
    and s': "links s' = list_add_tail (tnode (current s)) (freequeue L) (links s1)" "sems s' = sems s1" "esp s' = esp s1"
      "idle_task s' = idle_task s1" "\<And>u. state (tasks s' u) = state (tasks s1 u)"
      "\<And>u. register_esp (tasks s' u) = register_esp (tasks s1 u)" "\<And>u. semafors (tasks s' u) = semafors (tasks s1 u)"
    and pid: "\<And>u. u \<noteq> current s \<Longrightarrow> PID (tasks s' u) = PID (tasks s1 u)"
  shows "frame L {..<NUM_SEM} {current s} s (sched_next_rr L s')"
proof (rule frameI)
  fix A assume inv0: "kernel_inv L s A" and c0: "counts_ok s"
  then have inv: "kernel_inv L s1 A" using keeps_inv [OF k] by blast
  have c: "current s1 = current s" "idle_task s1 = idle_task s" using k keeps_current by (auto simp: keeps_def)
  have ni1: "current s1 \<noteq> idle_task s1" and l1: "links s' = list_add_tail (tnode (current s1)) (freequeue L) (links s1)"
    using ni s'(1) c by simp_all
  have i: "kernel_inv L (sched_next_rr L s') (a_exit L (idle_task s1) A)"
    by (rule exit_inv [OF L inv ni1 l1]) (use s' in simp_all)
  have rel: "sched_rel L s1 A" using inv by (simp add: kernel_inv_def)
  have "tasks_placed L s' ((a_queue A)(freequeue L := a_queue A (freequeue L) @ [current s1]))"
    by (rule exit_placed(1) [OF L rel ni1 l1]) (use s' in simp_all)
  then have "queues L (links s') ((a_queue A)(freequeue L := a_queue A (freequeue L) @ [current s1]))"
    unfolding tasks_placed_def by (rule conjunct1)
  note e = same_restD [OF sched_next_rr_effect(9) [OF L this]]
  have p: "PID (tasks (sched_next_rr L s') u) = PID (tasks s u)" if "u \<noteq> current s" for u
    using same_task_fields [OF e(3)] pid [OF that] k by (simp add: keeps_def)
  have "frame_to L {..<NUM_SEM} {current s} A s (a_exit L (idle_task s1) A) (sched_next_rr L s')"
    using i e(6) p s'(2) k L c0 sched_relD(3) [OF rel] c(1)
    by (auto simp: frame_to_def a_exit_def a_next_def counts_ok_def keeps_def)
  then show "\<exists>A'. frame_to L {..<NUM_SEM} {current s} A s A' (sched_next_rr L s')" ..
qed

lemma cr3_release_data [simp]: "cr3 (release_data PT is m) = cr3 m"
  by (induction "is" arbitrary: m) (simp_all add: release_data_def Let_def)

lemma sys_exit_frame:
  assumes L: "symtab_ok L" and ni: "current s \<noteq> idle_task s" and e: "sys_exit L s = Some s'"
  shows "frame L {..<NUM_SEM} {current s} s s'"
proof -
  let ?s = "upd_mm (release_data (get_PT (current s) s) [0..<NUM_PAG_DATA]) s"
  obtain s1 where s1: "release_heap (get_PT (current s) s) ?s = Some s1"
    using e by (auto simp: sys_exit_def Let_def split: bind_splits)
  have k: "keeps s s1" by (rule keeps_trans [OF _ release_heap_keeps [OF s1]]) simp
  have "s' = sched_next_rr L (upd_task (current s1) (\<lambda>T. T\<lparr>PID := -1\<rparr>) (upd_links (list_add_tail (tnode (current s1)) (freequeue L)) s1))"
    using e s1 by (simp add: sys_exit_def Let_def)
  then show ?thesis using keeps_current [OF k] by (simp add: sched_next_exit_frame [OF L ni k])
qed

lemma sys_threadExit_frame:
  assumes L: "symtab_ok L" and ni: "current s \<noteq> idle_task s"
  shows "frame L {..<NUM_SEM} {current s} s (sys_threadExit L s)"
proof -
  let ?PT = "get_PT (current s) s"
  let ?s1 = "upd_mm (free_frame (get_frame ?PT (page_of (cur_heap s)) (mm s))) s"
  let ?s2 = "move_heap (\<lambda>p. p - of_nat PAGE_SIZE) (upd_mm (del_ss_pag ?PT (page_of (cur_heap s))) ?s1)"
  have k: "keeps s ?s2" by (simp add: keeps_def move_heap_def)
  have "sys_threadExit L s = sched_next_rr L (upd_links (list_add_tail (tnode (current s)) (freequeue L)) ?s2)"
    by (simp add: sys_threadExit_def Let_def)
  then show ?thesis by (simp add: sched_next_exit_frame [OF L ni k])
qed

section \<open>New tasks\<close>

lemma fork_alloc_cr3: "fork_alloc PT ps m = (ok, m') \<Longrightarrow> cr3 m' = cr3 m"
  by (induction ps arbitrary: m) (auto simp: alloc_frame_cr3 split: prod.splits if_splits)

lemma fork_share_cr3 [simp]: "cr3 (fork_share PT PT' m) = cr3 m"
proof -
  have "cr3 (fold (\<lambda>p m. set_ss_pag PT (f p) (get_frame PT' (f p) m) m) ps m) = cr3 m" for f :: "nat \<Rightarrow> DWord" and ps m
    by (induction ps arbitrary: m) simp_all
  then show ?thesis by (simp add: fork_share_def Let_def)
qed

text \<open>Every value of \<open>sys_fork\<close> when a task is free comes from one of these states.\<close>

lemma sys_fork_cases:
  assumes L: "symtab_ok L" and inv: "kernel_inv L s A" and c: "a_queue A (freequeue L) = c # fs" and f: "sys_fork L s = Some (r, s')"
  obtains (fail) m where "s' = upd_links (list_add_tail (tnode c) (freequeue L)) ((fork_prepare L c s)\<lparr>mm := m\<rparr>)" "cr3 m = cr3 (mm s)"
    | (child) s5 where "s' = snd (fork_finish L c s5)" "keeps (fork_prepare L c s) s5"
proof -
  have rel: "sched_rel L s A" using inv by (simp add: kernel_inv_def)
  note q = sched_relD(2) [OF rel]
  have ct: "c \<in> tasks_of L" using thread_prepare_queues(2) [OF L inv c] .
  have ne: "\<not> list_empty (freequeue L) (links s)" using queues_empty [OF q, of "freequeue L"] c by simp
  have fst: "list_first (freequeue L) (links s) = tnode c" using queues_first [OF q _ c] by simp
  let ?s = "fork_prepare L c s"
  obtain ok m where al: "fork_alloc (get_PT c ?s) [0..<NUM_PAG_DATA] (mm s) = (ok, m)"
    by (cases "fork_alloc (get_PT c ?s) [0..<NUM_PAG_DATA] (mm s)")
  have cr: "cr3 m = cr3 (mm s)" by (rule fork_alloc_cr3 [OF al])
  let ?s4 = "upd_mm (fork_share (get_PT c ?s) (get_PT (current s) (?s\<lparr>mm := m\<rparr>))) (?s\<lparr>mm := m\<rparr>)"
  have k: "keeps ?s ?s4" using cr by (simp add: keeps_def)
  have e: "sys_fork L s = (if \<not> ok then Some (- EAGAIN, upd_links (list_add_tail (tnode c) (freequeue L)) (?s\<lparr>mm := m\<rparr>))
     else Option.bind (fork_copy (get_PT c ?s) (get_PT (current s) (?s\<lparr>mm := m\<rparr>))
        [NUM_PAG_KERNEL + NUM_PAG_CODE..<NUM_PAG_KERNEL + NUM_PAG_CODE + NUM_PAG_DATA] ?s4) (\<lambda>s'.
       Option.bind (fork_heap (get_PT c ?s) (get_PT (current s) (?s\<lparr>mm := m\<rparr>)) (NUM_PAG_KERNEL + NUM_PAG_CODE)
         (heap_start_proc (tasks s' (current s'))) s') (\<lambda>s'. Some (fork_finish L c s'))))"
    using ne fst node_to_task [OF L ct] al
    by (simp add: sys_fork_def Let_def flip: fork_prepare_def [unfolded Let_def])
  show thesis
  proof (cases ok)
    case False
    then show thesis using f e cr fail by auto
  next
    case True
    then obtain s5 s6 where s: "fork_copy (get_PT c ?s) (get_PT (current s) (?s\<lparr>mm := m\<rparr>))
        [NUM_PAG_KERNEL + NUM_PAG_CODE..<NUM_PAG_KERNEL + NUM_PAG_CODE + NUM_PAG_DATA] ?s4 = Some s5"
      "fork_heap (get_PT c ?s) (get_PT (current s) (?s\<lparr>mm := m\<rparr>)) (NUM_PAG_KERNEL + NUM_PAG_CODE) (heap_start_proc (tasks s5 (current s5))) s5 = Some s6"
      "fork_finish L c s6 = (r, s')"
      using f unfolding e by (auto split: bind_splits)
    have "keeps ?s s6" by (rule keeps_trans [OF keeps_trans [OF k fork_copy_keeps [OF s(1)]] fork_heap_keeps [OF s(2)]])
    then show thesis using child [of s6] s(3) by simp
  qed
qed

lemma sem_reset_ok:
  assumes L: "symtab_ok L" and a: "semafors (tasks s (current s)) = sym_semafor_proces L" and k: "k < NUM_SEM"
  shows "sem_ok k (sems (fork_prepare L c s) (sem_of L k)) []"
  using fork_prepare_sems [OF assms, of c] by (simp add: sem_ok_def)

lemma sem_reset_counts:
  assumes "counts_ok s"
  shows "counts_ok (fork_prepare L c s)"
proof -
  have "\<forall>a. int32 (count (S a)) \<Longrightarrow>
      int32 (count (fold (\<lambda>i S. S(f i := \<lparr>semid = -1, count = 0, sem_PID = -1\<rparr>)) xs S a))" for S a and f :: "nat \<Rightarrow> ptr" and xs
    by (induction xs arbitrary: S) (simp_all add: int32_def)
  with assms show ?thesis
    by (simp add: counts_ok_def fork_prepare_def Let_def allocate_DIR_def init_sems_eq copy_task_def)
qed

lemma fork_child_frame:
  assumes L: "symtab_ok L" and inv: "kernel_inv L s A" and c0: "counts_ok s" and ni: "current s \<noteq> idle_task s" and esp: "esp s = msr_175 s - 64"
    and se: "\<And>k. k < NUM_SEM \<Longrightarrow> a_queue A (sem_queue L k) = []" and Cons: "a_queue A (freequeue L) = c # fs"
    and child: "s' = snd (fork_finish L c s5)" "keeps (fork_prepare L c s) s5"
  shows "frame_to L {} {} A s (a_fork L A) s'"
proof -
  have "sched_rel L s A" using inv by (simp add: kernel_inv_def)
  note r = sched_relD [OF this] and q = fork_prepare_queues [OF L inv ni Cons se] and z = sem_reset_ok [OF L]
  obtain i where i: "i < NR_TASKS" "c = task L i" using q(3) by (auto simp: tasks_of_def)
  note T = fork_prepare_tasks [OF L i(1), of s, folded i(2)]
  have k: "links s5 = links (fork_prepare L c s)" "sems s5 = sems (fork_prepare L c s)" "esp s5 = esp s" "idle_task s5 = idle_task s"
    "tss_esp0 s5 = tss_esp0 s" "msr_175 s5 = msr_175 s" "cr3 (mm s5) = cr3 (mm s)" "current s5 = current s"
    "\<And>u. state (tasks s5 u) = state (tasks (fork_prepare L c s) u)"
    "\<And>u. register_esp (tasks s5 u) = register_esp (tasks (fork_prepare L c s) u)"
    "\<And>u. semafors (tasks s5 u) = semafors (tasks (fork_prepare L c s) u)"
    "\<And>u. dir_pages_baseAddr (tasks s5 u) = dir_pages_baseAddr (tasks (fork_prepare L c s) u)"
    using child(2) keeps_current [OF child(2)] by (auto simp: keeps_def)
  have ne: "c \<noteq> current s5" "esp s5 = current s5 + 4032" using q(4) esp r(9) by (simp_all add: k)
  note n = fork_finish_effect [OF ne, of L, folded child(1)]
  have "kernel_inv L s' (a_fork L A)"
    by (rule new_task_ready [OF L inv Cons q(1,3,6,7)])
       (use L se n k z [OF q(2)] T r(10) q(2,4) fork_finish_other [of _ c L s5] child(1) new_task_resumable(1) [OF L q(3)]
        in \<open>auto simp: set_cr3_def\<close>)
  moreover have "PID (tasks s' u) = PID (tasks s u)" if "u \<noteq> c" for u
    using fork_finish_other [OF that, of L s5] child T(1) that by (simp add: keeps_def)
  ultimately show ?thesis
    using sem_reset_counts [OF c0, of L c] Cons L by (auto simp: frame_to_def counts_ok_def n(13) k(2) a_fork_def)
qed

text \<open>\<open>sys_fork\<close> resets the semaphores.\<close>

lemma sys_fork_frame:
  assumes L: "symtab_ok L" and ni: "current s \<noteq> idle_task s" and esp: "esp s = msr_175 s - 64"
    and e: "\<forall>k<NUM_SEM. list_empty (sem_queue L k) (links s)" and f: "sys_fork L s = Some (r, s')"
  shows "frame L {} {} s s'"
proof (rule frameI)
  fix A assume inv: "kernel_inv L s A" and c0: "counts_ok s"
  have rel: "sched_rel L s A" using inv by (simp add: kernel_inv_def)
  note r = sched_relD [OF rel]
  have se: "a_queue A (sem_queue L k) = []" if "k < NUM_SEM" for k using queues_empty [OF r(2)] e that by simp
  show "\<exists>A'. frame_to L {} {} A s A' s'"
  proof (cases "a_queue A (freequeue L)")
    case Nil
    then have "s' = s" using f queues_empty [OF r(2), of "freequeue L"] by (simp add: sys_fork_def)
    then show ?thesis using inv c0 by (auto simp: frame_to_def)
  next
    case (Cons c fs)
    note q = fork_prepare_queues [OF L inv ni Cons se] and z = sem_reset_ok [OF L]
    obtain i where i: "i < NR_TASKS" "c = task L i" using q(3) by (auto simp: tasks_of_def)
    note T = fork_prepare_tasks [OF L i(1), of s, folded i(2)]
    from L inv Cons f show ?thesis
    proof (cases rule: sys_fork_cases)
      case (fail m)
      have "kernel_inv L s' \<lparr>a_queue = (a_queue A)(freequeue L := fs @ [c]), a_cur = a_cur A\<rparr>"
        by (rule new_task_free [OF L inv Cons q(1,3,6,7)]) (use se fail z [OF q(2)] T in auto)
      then have "frame_to L {} {} A s \<lparr>a_queue = (a_queue A)(freequeue L := fs @ [c]), a_cur = a_cur A\<rparr> s'"
        using sem_reset_counts [OF c0, of L c] T(1) Cons by (simp add: frame_to_def counts_ok_def fail(1))
      then show ?thesis ..
    next
      case (child s5)
      from fork_child_frame [OF L inv c0 ni esp se Cons child] show ?thesis ..
    qed
  qed
qed

lemma sys_threadCreate_cases:
  assumes L: "symtab_ok L" and inv: "kernel_inv L s A" and pl: "\<not> int TOTAL_PAGES < int_of_dword (page_of (cur_heap s))"
    and e: "sys_threadCreate L func par wrapp s = Some (r, s')"
  obtains (refused) "s' = s"
    | (fail) c fs s3 where "a_queue A (freequeue L) = c # fs" "keeps (thread_prepare c s) s3"
        "s' = upd_links (list_add_tail (tnode c) (freequeue L)) s3"
    | (thread) c fs s3 us where "a_queue A (freequeue L) = c # fs" "keeps (thread_prepare c s) s3" "s' = thread_finish L c us wrapp s3"
proof -
  have rel: "sched_rel L s A" using inv by (simp add: kernel_inv_def)
  note q = sched_relD(2) [OF rel]
  show thesis
  proof (cases "access_ok VERIFY_READ func 4 (task_heap s) \<and> (par \<noteq> 0 \<longrightarrow> access_ok VERIFY_READ par 4 (task_heap s)) \<and>
      access_ok VERIFY_READ wrapp 4 (task_heap s) \<and> a_queue A (freequeue L) \<noteq> []")
    case False
    then have "s' = s" using e queues_empty [OF q, of "freequeue L"] by (auto simp: sys_threadCreate_def split: if_splits)
    then show thesis by (rule refused)
  next
    case True
    then obtain c fs where c: "a_queue A (freequeue L) = c # fs" by (cases "a_queue A (freequeue L)") auto
    obtain f m where al: "alloc_frame (mm s) = (f, m)" by (cases "alloc_frame (mm s)")
    have cr: "cr3 m = cr3 (mm s)" by (rule alloc_frame_cr3 [OF al])
    let ?PT = "get_PT c (thread_prepare c s)" and ?us = "push_bit 12 (page_of (cur_heap s))"
    let ?s1 = "upd_task c (\<lambda>T. T\<lparr>ustack := ?us\<rparr>)
       (move_heap (\<lambda>x. x + 4096) ((thread_prepare c s)\<lparr>mm := set_ss_pag ?PT (page_of (cur_heap s)) (dword_of_int f) m\<rparr>))"
    have k1: "keeps (thread_prepare c s) ?s1" using cr by (simp add: keeps_def move_heap_def)
    have k0: "keeps (thread_prepare c s) ((thread_prepare c s)\<lparr>mm := m\<rparr>)" using cr by (simp add: keeps_def)
    have "access_ok VERIFY_READ func 4 (task_heap s)" "par \<noteq> 0 \<longrightarrow> access_ok VERIFY_READ par 4 (task_heap s)"
      "access_ok VERIFY_READ wrapp 4 (task_heap s)" using True by simp_all
    note u = sys_threadCreate_unfold [OF L inv c this pl al]
    show thesis
    proof (cases "f = -1")
      case True
      with e obtain s3 where s3: "release_heap ?PT ((thread_prepare c s)\<lparr>mm := m\<rparr>) = Some s3"
        "s' = upd_links (list_add_tail (tnode c) (freequeue L)) s3" unfolding u by (auto split: bind_splits)
      show thesis by (rule fail [OF c keeps_trans [OF k0 release_heap_keeps [OF s3(1)]] s3(2)])
    next
      case False
      with e obtain s2 s3 s4 where "put_dword (?us + of_nat 4084) 0x777 ?s1 = Some s2" "put_dword (?us + of_nat 4088) func s2 = Some s3"
        "put_dword (?us + of_nat 4092) par s3 = Some s4" "s' = thread_finish L c ?us wrapp s4"
        unfolding u if_not_P [OF False] by (auto split: bind_splits)
      then show thesis using thread [OF c keeps_trans [OF k1]] put_dword_keeps keeps_trans by blast
    qed
  qed
qed

lemma sys_threadCreate_frame:
  assumes L: "symtab_ok L" and ni: "current s \<noteq> idle_task s"
    and pl: "\<not> int TOTAL_PAGES < int_of_dword (page_of (cur_heap s))" and e: "sys_threadCreate L func par wrapp s = Some (r, s')"
  shows "frame L {..<NUM_SEM} {} s s'"
proof (rule frameI)
  fix A assume inv: "kernel_inv L s A" and c0: "counts_ok s"
  have rel: "sched_rel L s A" and sinv: "sem_inv L s (a_queue A)" using inv by (auto simp: kernel_inv_def)
  note r = sched_relD [OF rel]
  have "current s \<notin> set (a_queue A (freequeue L))" using not_queuedD [OF r(5)] by simp
  then have sa: "semafors (tasks s (current s)) = sym_semafor_proces L" using sinv r(4) ni by (simp add: sem_inv_def)
  have so: "sem_ok k (sems s (sem_of L k)) (a_queue A (sem_queue L k))" if "k < NUM_SEM" for k using sinv that by (simp add: sem_inv_def)
  from L inv pl e show "\<exists>A'. frame_to L {..<NUM_SEM} {} A s A' s'"
  proof (cases rule: sys_threadCreate_cases)
    case refused
    then show ?thesis using inv c0 by (auto simp: frame_to_def)
  next
    case (fail c fs s3)
    note t = thread_prepare_queues [OF L inv fail(1)] and k = fail(2) [unfolded keeps_def]
    have "kernel_inv L s' \<lparr>a_queue = (a_queue A)(freequeue L := fs @ [c]), a_cur = a_cur A\<rparr>"
      by (rule new_task_free [OF L inv fail(1) t(1,2,4,5)]) (use k so fail(3) in auto)
    then have "frame_to L {..<NUM_SEM} {} A s \<lparr>a_queue = (a_queue A)(freequeue L := fs @ [c]), a_cur = a_cur A\<rparr> s'"
      using k fail L c0 by (simp add: frame_to_def counts_ok_def)
    then show ?thesis ..
  next
    case (thread c fs s3 us)
    note t = thread_prepare_queues [OF L inv thread(1)] and k = thread(2) [unfolded keeps_def]
    note n = thread_finish_effect [of L c us wrapp s3, folded thread(3)]
    have "kernel_inv L s' (a_fork L A)"
      by (rule new_task_ready [OF L inv thread(1) t(1,2,4,5)])
         (use k so n sa new_task_resumable(2) [OF L t(2)] in auto)
    then have "frame_to L {..<NUM_SEM} {} A s (a_fork L A) s'"
      using k n thread(1) L c0 by (auto simp: frame_to_def counts_ok_def a_fork_def)
    then show ?thesis ..
  qed
qed

section \<open>Semaphores\<close>

lemma sem_waiting_bound:
  assumes L: "symtab_ok L" and inv: "kernel_inv L s A" and k: "k < NUM_SEM"
  shows "length (a_queue A (sem_queue L k)) \<le> NR_TASKS"
proof -
  have q: "queues L (links s) (a_queue A)" using inv by (simp add: kernel_inv_def sched_rel_def tasks_placed_def)
  have "length (a_queue A (sem_queue L k)) = card (set (a_queue A (sem_queue L k)))"
    using queues_distinct [OF q, of "sem_queue L k"] k by (simp add: distinct_card)
  also have "\<dots> \<le> card (tasks_of L)" using queuesD(2) [OF q, of "sem_queue L k"] k by (intro card_mono) (simp_all add: tasks_of_def)
  also have "\<dots> \<le> NR_TASKS" using card_image_le [of "{..<NR_TASKS}" "task L"] by (simp add: tasks_of_def)
  finally show ?thesis .
qed

text \<open>A call on an index other than 10 changes nothing unless the running task owns the semaphore.\<close>

lemma sem_calls_cases:
  assumes inv: "kernel_inv L s A" and ni: "current s \<noteq> idle_task s" and i: "i \<noteq> 10"
  obtains (refused) "sys_semWait L i s = (-1, s)" "sys_semSignal L i s = (-1, s)" "sys_semDestroy L i s = Some (-1, s)"
    | (owned) k where "i = int k" "owns_sem L s k"
proof (cases "0 \<le> i \<and> i < 10")
  case True
  then obtain k where k: "i = int k" "k < NUM_SEM" by (cases i) (auto simp: NUM_SEM_def)
  note c = cur_sem_eq [OF inv ni, of k]
  show thesis
  proof (cases "owns_sem L s k")
    case False
    then have "sem_PID (sems s (sem_of L k)) \<noteq> PID (tasks s (current s)) \<or> semid (sems s (sem_of L k)) \<noteq> int k"
      using k(2) ni by (auto simp: owns_sem_def)
    then show thesis using refused k c by (auto simp: sys_semWait_def sys_semSignal_def sys_semDestroy_def)
  qed (use owned k in blast)
next
  case False
  then have "i < 0 \<or> 10 < i" using i by auto
  then show thesis using refused by (auto simp: sys_semWait_def sys_semSignal_def sys_semDestroy_def)
qed

lemma sems_sched_next_rr [simp]: "sems (sched_next_rr L s) = sems s"
  by (simp add: sched_next_rr_def inner_task_switch_def switch_stack_def Let_def split: prod.splits)

lemma PID_sched_next_rr [simp]: "PID (tasks (sched_next_rr L s) u) = PID (tasks s u)"
  by (simp add: sched_next_rr_def inner_task_switch_def switch_stack_def Let_def split: prod.splits)

lemma sem_wake_all_sems:
  assumes "sem_wake_all L i s = Some s'"
  shows "sems s' = sems s \<and> semafors (tasks s' u) = semafors (tasks s u) \<and> PID (tasks s' u) = PID (tasks s u) \<and> current s' = current s"
proof (rule sem_wake_all.raw_induct [where P = "\<lambda>L i s s'. sems s' = sems s \<and> semafors (tasks s' u) = semafors (tasks s u) \<and>
    PID (tasks s' u) = PID (tasks s u) \<and> current s' = current s", OF _ assms], goal_cases)
  case (1 f L i s s')
  show ?case using 1(2) by (auto simp: Let_def split: if_splits dest!: 1(1))
qed

text \<open>A call leaves the semaphores other than its own, and the processes the tasks belong to.\<close>

lemma sem_calls_other:
  "a \<noteq> cur_sem s i \<Longrightarrow> sems (snd (sys_semWait L i s)) a = sems s a"
  "a \<noteq> cur_sem s i \<Longrightarrow> sems (snd (sys_semSignal L i s)) a = sems s a"
  "PID (tasks (snd (sys_semWait L i s)) u) = PID (tasks s u)"
  "PID (tasks (snd (sys_semSignal L i s)) u) = PID (tasks s u)"
  by (simp_all add: sys_semWait_def sys_semSignal_def Let_def)

lemma sys_semDestroy_other:
  assumes "sys_semDestroy L i s = Some (r, s')"
  shows "a \<noteq> cur_sem s i \<Longrightarrow> sems s' a = sems s a" and "PID (tasks s' u) = PID (tasks s u)"
proof -
  have "cur_sem s1 i = cur_sem s i" if "sem_wake_all L i s = Some s1" for s1
    using sem_wake_all_sems [OF that, of "current s"] by (simp add: cur_sem_def)
  then show "a \<noteq> cur_sem s i \<Longrightarrow> sems s' a = sems s a" "PID (tasks s' u) = PID (tasks s u)"
    using assms sem_wake_all_sems [of L i s _ u] by (auto simp: sys_semDestroy_def Let_def split: if_splits bind_splits)
qed

lemma sem_create_loop_counts:
  "int32 v \<Longrightarrow> \<forall>a. int32 (count (sems s a)) \<Longrightarrow> int32 (count (sems (snd (sem_create_loop is v s)) a))"
  by (induction "is" arbitrary: s) (simp_all add: Let_def)

lemma sem_counts:
  assumes "counts_ok s"
  shows "counts_ok (snd (sys_semWait L i s))" "counts_ok (snd (sys_semSignal L i s))"
    "int32 v \<Longrightarrow> counts_ok (snd (sys_semCreate v s))" "sys_semDestroy L i s = Some (r, s') \<Longrightarrow> counts_ok s'"
proof -
  have c: "int32 (count (sems s a))" for a using assms by (simp add: counts_ok_def)
  show "counts_ok (snd (sys_semWait L i s))" "counts_ok (snd (sys_semSignal L i s))"
    using c by (simp_all add: counts_ok_def sys_semWait_def sys_semSignal_def Let_def)
  show "counts_ok (snd (sys_semCreate v s))" if "int32 v"
    using sem_create_loop_counts [OF that] c by (simp add: counts_ok_def sys_semCreate_def)
  show "counts_ok s'" if "sys_semDestroy L i s = Some (r, s')"
    using that c by (auto simp: counts_ok_def sys_semDestroy_def Let_def int32_def split: if_splits bind_splits dest!: sem_wake_all_sems [where u = 0])
qed

text \<open>Each call goes to a sound state with the same free tasks; it may change the queue of its semaphore.\<close>

definition sem_to :: "symtab \<Rightarrow> nat \<Rightarrow> sched_abs \<Rightarrow> kstate \<Rightarrow> bool" where
  "sem_to L k A s' \<longleftrightarrow> (\<exists>A'. kernel_inv L s' A' \<and> a_queue A' (freequeue L) = a_queue A (freequeue L) \<and>
     (\<forall>j<NUM_SEM. j \<noteq> k \<longrightarrow> a_queue A' (sem_queue L j) = a_queue A (sem_queue L j)))"

lemma sem_calls_inv:
  assumes L: "symtab_ok L" and inv: "kernel_inv L s A" and c: "counts_ok s" and ni: "current s \<noteq> idle_task s" and own: "owns_sem L s k"
  shows "sem_to L k A (snd (sys_semWait L (int k) s))"
    and "count (sems s (sem_of L k)) < 2 ^ 31 - 1 \<Longrightarrow> sem_to L k A (snd (sys_semSignal L (int k) s))"
    and "sys_semDestroy L (int k) s = Some (r, s') \<Longrightarrow> sem_to L k A s'"
proof -
  let ?c = "count (sems s (sem_of L k))"
  have k: "k < NUM_SEM" using own by (simp add: owns_sem_def)
  have c32: "int32 ?c" using c by (simp add: counts_ok_def)
  have "int (length (a_queue A (sem_queue L k))) \<le> 10" using sem_waiting_bound [OF L inv k] by (simp add: NR_TASKS_def)
  then have lo: "-10 \<le> ?c" using sem_invD [OF inv own] by linarith
  have GI: "sem_to L k A t" if "kernel_inv L t B" "a_queue B (freequeue L) = a_queue A (freequeue L)"
    "\<forall>j<NUM_SEM. j \<noteq> k \<longrightarrow> a_queue B (sem_queue L j) = a_queue A (sem_queue L j)" for t B using that unfolding sem_to_def by blast
  then have G: "kernel_inv L t A \<Longrightarrow> sem_to L k A t" for t by blast
  show "sem_to L k A (snd (sys_semWait L (int k) s))"
  proof (cases "0 < ?c")
    case True
    then show ?thesis using sys_semWait_passes [OF L inv own True c32] G by blast
  next
    case False
    have "int32 (?c - 1)" using lo False by (simp add: int32_def)
    then have "kernel_inv L (snd (sys_semWait L (int k) s)) (a_block L (idle_task s) k A)"
      using sys_semWait_blocks [OF L inv own] False by force
    then show ?thesis by (rule GI) (use L k in \<open>simp_all add: a_block_def a_next_def\<close>)
  qed
  show "sem_to L k A (snd (sys_semSignal L (int k) s))" if "?c < 2 ^ 31 - 1"
  proof (cases "?c < 0")
    case True
    from sys_semSignal_wakes [OF L inv own True c32] obtain t ts where "kernel_inv L (snd (sys_semSignal L (int k) s))
      \<lparr>a_queue = (a_queue A)(sem_queue L k := ts, readyqueue L := t # a_queue A (readyqueue L)), a_cur = a_cur A\<rparr>" by blast
    then show ?thesis by (rule GI) (use L k in simp_all)
  next
    case False
    have "int32 (?c + 1)" using False that by (simp add: int32_def)
    then show ?thesis using sys_semSignal_counts [OF L inv own] False G by force
  qed
  show "sem_to L k A s'" if "sys_semDestroy L (int k) s = Some (r, s')"
  proof -
    have "kernel_inv L s' \<lparr>a_queue = (a_queue A)(sem_queue L k := [],
      readyqueue L := a_queue A (readyqueue L) @ a_queue A (sem_queue L k)), a_cur = a_cur A\<rparr>"
      using sys_semDestroy_found [OF L inv own] that by auto
    then show ?thesis by (rule GI) (use L k in simp_all)
  qed
qed

text \<open>A call on semaphore \<open>i\<close> that is refused, or done as above, leaves the others.\<close>

lemma sem_frameI:
  assumes L: "symtab_ok L"
    and t: "\<And>A. kernel_inv L s A \<Longrightarrow> counts_ok s \<Longrightarrow> t = s \<or> (\<exists>k. i = int k \<and> owns_sem L s k \<and> counts_ok t \<and> sem_to L k A t)"
    and other: "\<And>a. a \<noteq> cur_sem s i \<Longrightarrow> sems t a = sems s a" "\<And>u. PID (tasks t u) = PID (tasks s u)"
  shows "frame L {k. k < NUM_SEM \<and> i \<noteq> int k} {} s t"
proof (rule frameI)
  fix A assume inv: "kernel_inv L s A" and c: "counts_ok s"
  show "\<exists>A'. frame_to L {k. k < NUM_SEM \<and> i \<noteq> int k} {} A s A' t"
  proof (cases "t = s")
    case True
    then show ?thesis using inv c by (auto simp: frame_to_def)
  next
    case False
    with t [OF inv c] obtain k A' where k: "i = int k" "owns_sem L s k" "counts_ok t" "kernel_inv L t A'"
      "a_queue A' (freequeue L) = a_queue A (freequeue L)" "\<forall>j<NUM_SEM. j \<noteq> k \<longrightarrow> a_queue A' (sem_queue L j) = a_queue A (sem_queue L j)"
      by (auto simp: sem_to_def)
    have "frame_to L {k. k < NUM_SEM \<and> i \<noteq> int k} {} A s A' t"
      using k owns_semD(1,3) [OF inv k(2)] L other by (auto simp: frame_to_def)
    then show ?thesis ..
  qed
qed

lemma sem_calls_frame:
  assumes L: "symtab_ok L" and ni: "current s \<noteq> idle_task s" and i: "i \<noteq> 10"
  defines "F \<equiv> frame L {k. k < NUM_SEM \<and> i \<noteq> int k} {} s"
  shows "F (snd (sys_semWait L i s))"
    and "\<forall>k<NUM_SEM. i = int k \<longrightarrow> count (sems s (sem_of L k)) < 2 ^ 31 - 1 \<Longrightarrow> F (snd (sys_semSignal L i s))"
    and "sys_semDestroy L i s = Some (r, s') \<Longrightarrow> F s'"
proof -
  note cases = sem_calls_cases [OF _ ni i] and calls = sem_calls_inv [OF L _ _ ni]
  show "F (snd (sys_semWait L i s))"
    unfolding F_def by (rule sem_frameI [OF L _ sem_calls_other(1,3)]) (rule cases, assumption, auto intro: calls sem_counts)
  show "F (snd (sys_semSignal L i s))" if "\<forall>k<NUM_SEM. i = int k \<longrightarrow> count (sems s (sem_of L k)) < 2 ^ 31 - 1"
    unfolding F_def by (rule sem_frameI [OF L _ sem_calls_other(2,4)]) (rule cases, assumption, use that in \<open>auto intro!: calls(2) sem_counts simp: owns_sem_def\<close>)
  show "F s'" if d: "sys_semDestroy L i s = Some (r, s')"
    unfolding F_def by (rule sem_frameI [OF L _ sys_semDestroy_other [OF d]]) (rule cases, assumption, use d in \<open>auto intro: calls sem_counts\<close>)
qed

text \<open>\<open>sys_semCreate\<close> leaves the semaphores in use.\<close>

lemma sys_semCreate_frame:
  assumes L: "symtab_ok L" and ni: "current s \<noteq> idle_task s" and v: "0 \<le> v" "int32 v"
  shows "frame L {k. k < NUM_SEM \<and> \<not> sem_free L s k} {} s (snd (sys_semCreate v s))"
proof (rule frameI)
  let ?K = "{k. k < NUM_SEM \<and> \<not> sem_free L s k}"
  fix A assume inv: "kernel_inv L s A" and c: "counts_ok s"
  have pid: "PID (tasks (snd (sem_create_loop is v s)) u) = PID (tasks s u)" for "is" u
    by (induction "is") (simp_all add: Let_def)
  have other: "sems (snd (sem_create_loop is v s)) a = sems s a" if "\<forall>i \<in> set is. a = cur_sem s (int i) \<longrightarrow> semid (sems s a) \<noteq> -1" for "is" a
    using that by (induction "is") (auto simp: Let_def)
  have oth: "sems (snd (sys_semCreate v s)) (sem_of L k) = sems s (sem_of L k)" if "\<not> sem_free L s k" for k
    unfolding sys_semCreate_def by (rule other) (use that in \<open>auto simp: sem_free_def\<close>)
  have "kernel_inv L (snd (sys_semCreate v s)) A"
  proof (cases "\<exists>i<NUM_SEM. sem_free L s i")
    case True
    then obtain i where i: "i < NUM_SEM" "sem_free L s i" "\<forall>j<i. \<not> sem_free L s j"
      using exists_least_iff [of "\<lambda>i. i < NUM_SEM \<and> sem_free L s i"] by (meson less_trans)
    then show ?thesis using sys_semCreate_found(2) [OF L inv ni i v(1)] by blast
  next
    case False
    then show ?thesis using sys_semCreate_full [OF inv ni] inv by auto
  qed
  then have "frame_to L ?K {} A s A (snd (sys_semCreate v s))"
    using sem_counts(3) [OF c v(2)] oth pid by (simp add: frame_to_def sys_semCreate_def)
  then show "\<exists>A'. frame_to L ?K {} A s A' (snd (sys_semCreate v s))" ..
qed

section \<open>Handlers\<close>

lemma schedule_frame:
  assumes L: "symtab_ok L"
  shows "frame L {..<NUM_SEM} {} s (schedule L s)"
proof (rule frameI)
  fix A assume inv: "kernel_inv L s A" and c: "counts_ok s"
  then have rel: "sched_rel L s A" by (simp add: kernel_inv_def)
  have k: "keeps s (s\<lparr>remaining_quantum := q\<rparr>)" for q by (simp add: keeps_def)
  have "frame L {..<NUM_SEM} {} s (schedule L s)"
  proof (cases "wrap32 (remaining_quantum s - 1) = 0 \<and> a_queue A (readyqueue L) \<noteq> []")
    case True
    have "frame L {..<NUM_SEM} {} (s\<lparr>remaining_quantum := 0\<rparr>) (force_task_switch L (s\<lparr>remaining_quantum := 0\<rparr>))"
      by (rule force_task_switch_frame [OF L]) (use True queues_empty [OF sched_relD(2) [OF rel], of "readyqueue L"] in simp)
    from frame_trans'(1) [OF keeps_frame [OF k] this] show ?thesis using True by (simp add: schedule_cases [OF L rel])
  next
    case False
    show ?thesis unfolding schedule_cases [OF L rel] if_not_P [OF False] by (rule keeps_frame [OF k])
  qed
  from frameE [OF this inv c] show "\<exists>A'. frame_to L {..<NUM_SEM} {} A s A' (schedule L s)" by blast
qed

lemma clock_handler_frame:
  assumes L: "symtab_ok L"
  shows "frame L {..<NUM_SEM} {} s (clock_handler L show_clock s)"
proof -
  let ?s1 = "(upd_con show_clock (user_to_system s))\<lparr>zeos_ticks := wrap32 (zeos_ticks (upd_con show_clock (user_to_system s)) + 1)\<rparr>"
  have k: "keeps s ?s1" "\<And>t. keeps t (system_to_user t)" by (simp_all add: keeps_def user_to_system_def system_to_user_def)
  have "frame L {..<NUM_SEM} {} s (system_to_user (schedule L ?s1))"
    by (rule frame_trans'(2) [OF frame_trans'(1) [OF keeps_frame [OF k(1)] schedule_frame [OF L]] keeps_frame [OF k(2)]])
  then show ?thesis by (simp add: clock_handler_def clock_routine_def Let_def)
qed

lemma keyboard_handler_keeps: "keeps s (keyboard_handler beyond c s)"
  by (simp add: keyboard_handler_def Let_def keeps_def user_to_system_def system_to_user_def)

text \<open>
  The calls that keep the kernel sound. The others are the flaws of the calls: \<open>sys_fork\<close> while a thread waits on a
  semaphore loses that thread; \<open>sys_yield\<close> with nobody else ready reloads a stack pointer that may never have been
  saved; \<open>sys_threadCreate\<close> beyond the last page loses a task; a negative semaphore and one that overflows take an
  entry from an empty queue; and index 10 is not a semaphore.
\<close>

definition allowed :: "symtab \<Rightarrow> int \<Rightarrow> DWord \<Rightarrow> kstate \<Rightarrow> bool" where
  "allowed L nr ebx s \<longleftrightarrow>
     (nr = 2 \<longrightarrow> (\<forall>k<NUM_SEM. list_empty (sem_queue L k) (links s))) \<and>
     (nr = 13 \<longrightarrow> \<not> list_empty (readyqueue L) (links s) \<or> resumable s (current s)) \<and>
     (nr = 26 \<longrightarrow> int_of_dword (page_of (cur_heap s)) \<le> int TOTAL_PAGES) \<and>
     (nr = 28 \<longrightarrow> 0 \<le> int_of_dword ebx) \<and>
     (nr \<in> {29, 30, 31} \<longrightarrow> int_of_dword ebx \<noteq> 10) \<and>
     (nr = 30 \<longrightarrow> (\<forall>k<NUM_SEM. int_of_dword ebx = int k \<longrightarrow> count (sems s (sem_of L k)) < 2 ^ 31 - 1))"

lemma int32_int_of_dword [simp]: "int32 (int_of_dword w)"
  using sint_lt [of w] sint_ge [of w] by (simp add: int32_def int_of_dword_def)

text \<open>What a call leaves alone: every semaphore but the one it is about, and every task but one that exits.\<close>

definition untouched :: "symtab \<Rightarrow> int \<Rightarrow> DWord \<Rightarrow> kstate \<Rightarrow> nat set" where
  "untouched L nr ebx s = {k. k < NUM_SEM \<and> nr \<noteq> 2 \<and> (nr = 28 \<longrightarrow> \<not> sem_free L s k) \<and> (nr \<in> {29, 30, 31} \<longrightarrow> int_of_dword ebx \<noteq> int k)}"

definition exiting :: "int \<Rightarrow> kstate \<Rightarrow> ptr set" where
  "exiting nr s = (if nr \<in> {1, 27} then {current s} else {})"

lemma sem_syscall_frame:
  assumes L: "symtab_ok L" and ni: "current s \<noteq> idle_task s" and al: "allowed L nr ebx s" and nr: "nr \<in> {28, 29, 30, 31}"
    and c: "sys_call_table L lb nr ebx ecx edx s = Some (r, s')"
  shows "frame L (untouched L nr ebx s) {} s s'"
proof (cases "nr = 28")
  case True
  let ?i = "int_of_dword ebx"
  have s': "s' = snd (sys_semCreate ?i s)" using c True by (simp add: sys_call_table_def)
  have "frame L {k. k < NUM_SEM \<and> \<not> sem_free L s k} {} s s'"
    unfolding s' by (rule sys_semCreate_frame [OF L ni]) (use al True in \<open>simp_all add: allowed_def\<close>)
  then show ?thesis by (rule frame_mono) (use True in \<open>auto simp: untouched_def\<close>)
next
  case False
  let ?i = "int_of_dword ebx"
  have "?i \<noteq> 10" using al nr False by (auto simp: allowed_def)
  note f = sem_calls_frame [OF L ni this]
  have "frame L {k. k < NUM_SEM \<and> ?i \<noteq> int k} {} s s'"
    using c al nr False f(1,3) f(2) by (auto simp: sys_call_table_def allowed_def)
  then show ?thesis by (rule frame_mono) (use nr False in \<open>auto simp: untouched_def\<close>)
qed

lemma sys_call_table_frame:
  assumes L: "symtab_ok L" and ni: "current s \<noteq> idle_task s" and esp: "esp s = msr_175 s - 64"
    and al: "allowed L nr ebx s" and c: "sys_call_table L lb nr ebx ecx edx s = Some (r, s')"
  shows "frame L (untouched L nr ebx s) (exiting nr s) s s'"
proof -
  let ?U = "untouched L nr ebx s"
  have U: "?U \<subseteq> {..<NUM_SEM}" by (auto simp: untouched_def)
  note all = frame_mono [OF _ U]
  consider "nr = 1" | "nr = 2" | "nr = 13" | "nr = 26" | "nr = 27" | "nr \<in> {28, 29, 30, 31}" | "nr \<notin> {1, 2, 13, 26, 27, 28, 29, 30, 31}"
    by blast
  then show ?thesis
  proof cases
    case 1
    then show ?thesis using c by (intro all [OF sys_exit_frame [OF L ni]]) (auto simp: sys_call_table_def exiting_def)
  next
    case 2
    then have "?U = {}" by (simp add: untouched_def)
    then show ?thesis using c al 2 sys_fork_frame [OF L ni esp] by (auto simp: sys_call_table_def allowed_def exiting_def)
  next
    case 3
    then have "frame L {..<NUM_SEM} {} s s'"
      using c al force_task_switch_frame [OF L] by (auto simp: sys_call_table_def allowed_def sys_yield_def)
    then show ?thesis by (rule all) simp
  next
    case 4
    have "frame L {..<NUM_SEM} {} s s'"
      by (rule sys_threadCreate_frame [OF L ni]) (use c al 4 in \<open>auto simp: sys_call_table_def allowed_def\<close>)
    then show ?thesis by (rule all) simp
  next
    case 5
    then have "s' = sys_threadExit L s" "exiting nr s = {current s}" using c by (simp_all add: sys_call_table_def exiting_def)
    then show ?thesis using all [OF sys_threadExit_frame [OF L ni] order_refl] by simp
  next
    case 6
    from sem_syscall_frame [OF L ni al this c] show ?thesis by (rule frame_mono) simp_all
  next
    case 7
    have "keeps s s'"
      using c 7 sys_write_keeps sys_getKey_keeps sys_spritePut_keeps sys_get_stats_keeps sys_sbrk_keeps
      by (auto dest: con_call_keeps' simp: sys_call_table_def sys_gettime_def sys_getpid_def sys_gotoXY_def sys_SetColor_def sys_ni_syscall_def split: if_splits)
    then show ?thesis by (rule keeps_frame)
  qed
qed

lemma system_call_handler_frame:
  assumes L: "symtab_ok L" and ok: "kernel_ok L s" and ni: "current s \<noteq> idle_task s"
    and al: "allowed L nr ebx (kernel_entry s)" and c: "system_call_handler L lb nr ebx ecx edx s = Some (r, s')"
  shows "frame L (untouched L nr ebx s) (exiting nr s) s s'"
proof -
  note e = kernel_entry_ok [OF L ok]
  have f: "frame L (untouched L nr ebx s) X s (kernel_entry s)" for X using e(1) .
  have u: "untouched L nr ebx (kernel_entry s) = untouched L nr ebx s" "exiting nr (kernel_entry s) = exiting nr s"
    "current (kernel_entry s) \<noteq> idle_task (kernel_entry s)"
    using ni e(2) by (simp_all add: untouched_def exiting_def sem_free_def kernel_entry_def)
  show ?thesis
  proof (cases "nr < 0 \<or> nr > 36")
    case True
    then have "s' = kernel_entry s" using c by (auto simp: system_call_handler_def Let_def)
    then show ?thesis using f by simp
  next
    case False
    then have "sys_call_table L lb nr ebx ecx edx (kernel_entry s) = Some (r, s')" using c by (auto simp: system_call_handler_def Let_def)
    from sys_call_table_frame [OF L u(3) e(3) al this] show ?thesis unfolding u by (rule frame_trans'(1) [OF f])
  qed
qed

text \<open>
  One step of the machine in the kernel: a clock tick, on the stack of the running task; a key; or a system call
  of the running process, when it is one of the calls above.
\<close>

inductive kernel_step :: "symtab \<Rightarrow> kstate \<Rightarrow> kstate \<Rightarrow> bool" for L where
  clock: "(e - 12) AND 0xfffff000 = current s \<Longrightarrow> kernel_step L s (clock_handler L show_clock (s\<lparr>esp := e\<rparr>))"
| keyboard: "kernel_step L s (keyboard_handler beyond c s)"
| syscall: "current s \<noteq> idle_task s \<Longrightarrow> allowed L nr ebx (kernel_entry s) \<Longrightarrow>
    system_call_handler L localbuffer nr ebx ecx edx s = Some (r, s') \<Longrightarrow> kernel_step L s s'"

inductive_cases kernel_stepE: "kernel_step L s s'"

lemma kernel_step_ok:
  assumes "kernel_step L s s'" "symtab_ok L" "kernel_ok L s"
  shows "kernel_ok L s'"
  using assms
proof (induction rule: kernel_step.induct)
  case (clock e s show_clock)
  have "frame L {} {} s (clock_handler L show_clock (s\<lparr>esp := e\<rparr>))"
    by (rule frame_trans'(1) [OF esp_frame [OF clock.hyps] frame_mono [OF clock_handler_frame [OF clock.prems(1)]]]) simp_all
  then show ?case using clock.prems(2) by (rule frame_ok)
next
  case (keyboard s beyond c)
  then show ?case by (intro frame_ok [OF keeps_frame [OF keyboard_handler_keeps]])
next
  case (syscall s nr ebx localbuffer ecx edx r s')
  from system_call_handler_frame [OF syscall.prems syscall.hyps] syscall.prems(2) show ?case by (rule frame_ok)
qed

lemma boot_ok:
  assumes L: "symtab_ok L" and c: "counts_ok s"
  shows "kernel_ok L (kernel_entry (init_kernel L s))"
proof -
  have "int32 (count (S a)) \<Longrightarrow> int32 (count (fold (\<lambda>i S. S(f i := \<lparr>semid = -1, count = 0, sem_PID = -1\<rparr>)) xs S a))"
    for S a and f :: "nat \<Rightarrow> ptr" and xs
    by (induction xs arbitrary: S) (simp_all add: int32_def)
  with c have "counts_ok (kernel_entry (init_kernel L s))"
    by (simp add: counts_ok_def kernel_entry_def init_kernel_def Let_def init_task1_def init_idle_def init_sched_def init_mm_def
        init_sems_eq init_freequeue_eq allocate_DIR_def)
  with boot_kernel_inv(1) [OF L, of s] show ?thesis by (auto simp: kernel_ok_def)
qed

text \<open>The states the kernel reaches from boot, and the invariant in each of them.\<close>

lemma reachable_ok:
  assumes "symtab_ok L" "counts_ok s0" "(kernel_step L)\<^sup>*\<^sup>* (kernel_entry (init_kernel L s0)) s"
  shows "kernel_ok L s"
  using assms(3)
  by (induction rule: rtranclp_induct) (use assms(1,2) in \<open>auto intro: boot_ok kernel_step_ok\<close>)

lemma first_key_and_tick:
  "(kernel_step example_symtab)\<^sup>*\<^sup>* booted
     (clock_handler example_symtab id ((keyboard_handler beyond c booted)\<lparr>esp := esp booted\<rparr>))"
proof -
  let ?k = "keyboard_handler beyond c booted"
  have "keeps booted ?k" by (rule keyboard_handler_keeps)
  then have c: "current ?k = current booted" by (simp add: keeps_def current_def)
  have "(esp booted - 12) AND 0xfffff000 = current booted"
    by (simp add: current_def)
  then have "kernel_step example_symtab ?k (clock_handler example_symtab id (?k\<lparr>esp := esp booted\<rparr>))"
    using c by (intro kernel_step.clock) simp
  then show ?thesis using kernel_step.keyboard [of example_symtab booted beyond c] by auto
qed

lemma zero_counts_ok: "counts_ok zero_kstate"
  by (simp add: counts_ok_def zero_kstate_def int32_def)

end
