(* ===== verification/Zeos_Machine.thy ===== *)
theory Zeos_Machine
  imports Zeos_Memory
begin

text \<open>
  The segment and interrupt tables (\<open>include/types.h\<close>, \<open>setGdt\<close> and \<open>setTSS\<close> of \<open>mm.c\<close>,
  \<open>setIdt\<close> of \<open>interrupt.c\<close>), the processor registers that \<open>hardware.c\<close> and \<open>kernel-utils.S\<close>
  load, and \<open>main\<close> of \<open>system.c\<close>, from the loaded kernel to the first user instruction. The
  handlers \<open>set_handlers\<close> installs come from the library the kernel is linked with and are a
  parameter.
\<close>

section \<open>Parts of an address\<close>

definition highWord :: "DWord \<Rightarrow> Word16" where
  "highWord a = ucast (drop_bit 16 a AND 0xFFFF)"

definition lowWord :: "DWord \<Rightarrow> Word16" where
  "lowWord a = ucast (a AND 0xFFFF)"

definition midByte :: "DWord \<Rightarrow> Byte" where
  "midByte a = ucast (drop_bit 16 a AND 0xFF)"

definition highByte :: "DWord \<Rightarrow> Byte" where
  "highByte a = ucast (drop_bit (16 + 8) a AND 0xFF)"

section \<open>Tables\<close>

record Descriptor =
  seg_limit :: Word16
  lowBase :: Word16
  midBase :: Byte
  flags1 :: Byte
  flags2 :: Byte
  highBase :: Byte

record Gate =
  lowOffset :: Word16
  segmentSelector :: Word16
  gate_flags :: Word16
  highOffset :: Word16

text \<open>The task state segment; the padding words are left out.\<close>

record TSS =
  ts_PreviousTaskLink :: Word16
  ts_esp0 :: DWord
  ts_ss0 :: Word16
  ts_esp1 :: DWord
  ts_ss1 :: Word16
  ts_esp2 :: DWord
  ts_ss2 :: Word16
  ts_cr3 :: DWord
  ts_eip :: DWord
  ts_eFlags :: DWord
  ts_eax :: DWord
  ts_ecx :: DWord
  ts_edx :: DWord
  ts_ebx :: DWord
  ts_esp :: DWord
  ts_ebp :: DWord
  ts_esi :: DWord
  ts_edi :: DWord
  ts_es :: Word16
  ts_cs :: Word16
  ts_ss :: Word16
  ts_ds :: Word16
  ts_fs :: Word16
  ts_gs :: Word16
  ts_LDTSegmentSelector :: Word16
  ts_debugTrap :: Word16
  ts_IOMapBaseAddress :: Word16

record Register =
  reg_limit :: Word16
  reg_base :: DWord

definition KERNEL_CS :: Word16 where "KERNEL_CS = 0x10"
definition KERNEL_DS :: Word16 where "KERNEL_DS = 0x18"
definition USER_CS :: Word16 where "USER_CS = 0x23"
definition USER_DS :: Word16 where "USER_DS = 0x2B"
definition KERNEL_TSS :: Word16 where "KERNEL_TSS = 0x30"
definition GDT_START :: DWord where "GDT_START = 0x901b3"
definition INITIAL_EFLAGS :: DWord where "INITIAL_EFLAGS = 0x00000200"
definition IDT_ENTRIES :: nat where "IDT_ENTRIES = 256"
definition KERNEL_START :: nat where "KERNEL_START = 0x10000"
definition USER_ESP :: nat where "USER_ESP = L_USER_START + (NUM_PAG_CODE + NUM_PAG_DATA) * 0x1000 - 16"

lemmas selector_defs = KERNEL_CS_def KERNEL_DS_def USER_CS_def USER_DS_def KERNEL_TSS_def

section \<open>The machine\<close>

text \<open>
  The kernel state, the tables in memory and the registers of the processor and of the interrupt
  controller. \<open>eFlags\<close> is the value \<open>pushfl\<close> stores, in which bit 1 is always set.
\<close>

record machine =
  kern :: kstate
  gdt :: "nat \<Rightarrow> Descriptor"
  gdtR :: Register
  idt :: "int \<Rightarrow> Gate"
  idtR :: Register
  tss :: TSS
  cpu_gdtr :: Register
  cpu_idtr :: Register
  cpu_ldtr :: Word16
  cpu_tr :: Word16
  eFlags :: DWord
  msrs :: "DWord \<Rightarrow> DWord \<times> DWord"
  cs :: Word16
  ds :: Word16
  es :: Word16
  fs :: Word16
  gs :: Word16
  ss :: Word16
  eip :: DWord
  pic_mask :: Byte

text \<open>Where the linker puts the tables and the handlers of \<open>entry.S\<close>.\<close>

record entry_syms =
  sym_tss :: ptr
  sym_idt :: ptr
  sym_clock_handler :: ptr
  sym_keyboard_handler :: ptr
  sym_system_call_handler :: ptr

section \<open>hardware.c\<close>

definition get_eflags :: "machine \<Rightarrow> DWord" where
  "get_eflags M = eFlags M"

definition set_eflags :: "machine \<Rightarrow> machine" where
  "set_eflags M = M\<lparr>eFlags := 0 OR 2\<rparr>"

definition set_idt_reg :: "Register \<Rightarrow> machine \<Rightarrow> machine" where
  "set_idt_reg r M = M\<lparr>cpu_idtr := r\<rparr>"

definition set_gdt_reg :: "Register \<Rightarrow> machine \<Rightarrow> machine" where
  "set_gdt_reg r M = M\<lparr>cpu_gdtr := r\<rparr>"

definition set_ldt_reg :: "Word16 \<Rightarrow> machine \<Rightarrow> machine" where
  "set_ldt_reg ldt M = M\<lparr>cpu_ldtr := ldt\<rparr>"

definition set_task_reg :: "Word16 \<Rightarrow> machine \<Rightarrow> machine" where
  "set_task_reg tr M = M\<lparr>cpu_tr := tr\<rparr>"

text \<open>\<open>return_gate\<close> stores \<open>*p_rdtr\<close> above the user stack pointer and leaves the kernel by a far return;
  the store may fault.\<close>

definition return_gate :: "Word16 \<Rightarrow> Word16 \<Rightarrow> DWord \<Rightarrow> Word16 \<Rightarrow> DWord \<Rightarrow> DWord \<Rightarrow> machine \<Rightarrow> machine option" where
  "return_gate user_ds user_ss user_esp user_cs user_eip rdtr M =
     (let M = M\<lparr>es := user_ds\<rparr>;
          M = M\<lparr>ds := user_ds\<rparr>
      in Option.bind (put_dword (user_esp + 12) rdtr (kern M)) (\<lambda>s.
           Some (M\<lparr>kern := s\<lparr>esp := user_esp\<rparr>, ss := user_ss, cs := user_cs, eip := user_eip\<rparr>)))"

definition enable_int :: "machine \<Rightarrow> machine" where
  "enable_int M =
     (let M = M\<lparr>pic_mask := 0xfc\<rparr>
      in M\<lparr>eFlags := set_bit 9 (eFlags M)\<rparr>)"

text \<open>\<open>setMSR\<close> of \<open>kernel-utils.S\<close>; the kernel state keeps the low half of register 0x175.\<close>

definition setMSR :: "DWord \<Rightarrow> DWord \<Rightarrow> DWord \<Rightarrow> machine \<Rightarrow> machine" where
  "setMSR n high low M =
     (let M = M\<lparr>msrs := (msrs M)(n := (high, low))\<rparr>
      in if n = 0x175 then M\<lparr>kern := (kern M)\<lparr>msr_175 := low\<rparr>\<rparr> else M)"

section \<open>Interrupt table\<close>

definition setInterruptHandler :: "int \<Rightarrow> ptr \<Rightarrow> int \<Rightarrow> machine \<Rightarrow> machine" where
  "setInterruptHandler vector handler maxAccessibleFromPL M =
     (let flags = ucast (push_bit 13 (dword_of_int maxAccessibleFromPL)) :: Word16;
          flags = flags OR 0x8E00;
          g = idt M vector;
          g = g\<lparr>lowOffset := lowWord handler\<rparr>;
          g = g\<lparr>segmentSelector := KERNEL_CS\<rparr>;
          g = g\<lparr>gate_flags := flags\<rparr>;
          g = g\<lparr>highOffset := highWord handler\<rparr>
      in M\<lparr>idt := (idt M)(vector := g)\<rparr>)"

definition setTrapHandler :: "int \<Rightarrow> ptr \<Rightarrow> int \<Rightarrow> machine \<Rightarrow> machine" where
  "setTrapHandler vector handler maxAccessibleFromPL M =
     (let flags = ucast (push_bit 13 (dword_of_int maxAccessibleFromPL)) :: Word16;
          flags = flags OR 0x8E00;
          g = idt M vector;
          g = g\<lparr>lowOffset := lowWord handler\<rparr>;
          g = g\<lparr>segmentSelector := KERNEL_CS\<rparr>;
          g = g\<lparr>gate_flags := flags\<rparr>;
          g = g\<lparr>highOffset := highWord handler\<rparr>
      in M\<lparr>idt := (idt M)(vector := g)\<rparr>)"

definition INITIAL_ESP :: "symtab \<Rightarrow> DWord" where
  "INITIAL_ESP L = stack_slot (task L 1) KERNEL_STACK_SIZE"

definition setSysenter :: "symtab \<Rightarrow> entry_syms \<Rightarrow> machine \<Rightarrow> machine" where
  "setSysenter L E M =
     (let M = setMSR 0x174 0 (ucast KERNEL_CS) M;
          M = setMSR 0x175 0 (INITIAL_ESP L) M
      in setMSR 0x176 0 (sym_system_call_handler E) M)"

text \<open>\<open>sizeof(Gate)\<close> and \<open>sizeof(Descriptor)\<close> are 8.\<close>

definition setIdt :: "(machine \<Rightarrow> machine) \<Rightarrow> symtab \<Rightarrow> entry_syms \<Rightarrow> machine \<Rightarrow> machine" where
  "setIdt set_handlers L E M =
     (let M = M\<lparr>idtR := (idtR M)\<lparr>reg_base := sym_idt E\<rparr>\<rparr>;
          M = M\<lparr>idtR := (idtR M)\<lparr>reg_limit := of_nat (IDT_ENTRIES * 8 - 1)\<rparr>\<rparr>;
          M = set_handlers M;
          M = setInterruptHandler 32 (sym_clock_handler E) 0 M;
          M = setInterruptHandler 33 (sym_keyboard_handler E) 0 M;
          M = setSysenter L E M
      in set_idt_reg (idtR M) M)"

section \<open>Segments\<close>

definition setGdt :: "entry_syms \<Rightarrow> machine \<Rightarrow> machine" where
  "setGdt E M =
     (let i = unat (drop_bit 3 KERNEL_TSS);
          M = M\<lparr>gdt := (gdt M)(i := (gdt M i)\<lparr>lowBase := lowWord (sym_tss E)\<rparr>)\<rparr>;
          M = M\<lparr>gdt := (gdt M)(i := (gdt M i)\<lparr>midBase := midByte (sym_tss E)\<rparr>)\<rparr>;
          M = M\<lparr>gdt := (gdt M)(i := (gdt M i)\<lparr>highBase := highByte (sym_tss E)\<rparr>)\<rparr>;
          M = M\<lparr>gdtR := (gdtR M)\<lparr>reg_base := GDT_START\<rparr>\<rparr>;
          M = M\<lparr>gdtR := (gdtR M)\<lparr>reg_limit := of_nat (256 * 8)\<rparr>\<rparr>
      in set_gdt_reg (gdtR M) M)"

text \<open>\<open>setTSS\<close>; the kernel state keeps \<open>tss.esp0\<close>, the one field that changes later.\<close>

definition setTSS :: "symtab \<Rightarrow> machine \<Rightarrow> machine" where
  "setTSS L M =
     (let t = \<lparr>ts_PreviousTaskLink = 0, ts_esp0 = INITIAL_ESP L, ts_ss0 = KERNEL_DS, ts_esp1 = 0, ts_ss1 = 0,
            ts_esp2 = 0, ts_ss2 = 0, ts_cr3 = 0, ts_eip = 0, ts_eFlags = INITIAL_EFLAGS, ts_eax = 0, ts_ecx = 0,
            ts_edx = 0, ts_ebx = 0, ts_esp = of_nat USER_ESP, ts_ebp = of_nat USER_ESP, ts_esi = 0, ts_edi = 0,
            ts_es = USER_DS, ts_cs = USER_CS, ts_ss = USER_DS, ts_ds = USER_DS, ts_fs = 0, ts_gs = 0,
            ts_LDTSegmentSelector = KERNEL_TSS, ts_debugTrap = 0, ts_IOMapBaseAddress = 0\<rparr>;
          M = M\<lparr>tss := t\<rparr>;
          M = M\<lparr>kern := (kern M)\<lparr>tss_esp0 := ts_esp0 t\<rparr>\<rparr>
      in set_task_reg KERNEL_TSS M)"

section \<open>Boot\<close>

definition set_seg_regs :: "Word16 \<Rightarrow> Word16 \<Rightarrow> DWord \<Rightarrow> machine \<Rightarrow> machine" where
  "set_seg_regs data_sel stack_sel sp M =
     (let sp = sp - 5 * 4
      in M\<lparr>ds := data_sel, es := data_sel, fs := data_sel, gs := data_sel, ss := stack_sel,
           kern := (kern M)\<lparr>esp := sp\<rparr>\<rparr>)"

definition on_kern :: "(kstate \<Rightarrow> kstate) \<Rightarrow> machine \<Rightarrow> machine" where
  "on_kern f M = M\<lparr>kern := f (kern M)\<rparr>"

text \<open>A word the boot loader left at the start of the kernel image: \<open>*p_sys_size\<close>, \<open>*p_usr_size\<close>, \<open>*p_rdtr\<close>.\<close>

definition boot_word :: "nat \<Rightarrow> kstate \<Rightarrow> DWord option" where
  "boot_word i s =
     (let a = of_nat (KERNEL_START + 4 * i)
      in if mapped (mm s) a 4 then Some (rd32 (paged_rd (mm s)) (ram s) a) else None)"

definition msg_loaded :: "Byte list" where "msg_loaded = map of_char ''Kernel Loaded!    ''"
definition msg_user_mode :: "Byte list" where "msg_user_mode = map of_char ''Entering user mode...''"

definition system_main :: "(machine \<Rightarrow> machine) \<Rightarrow> symtab \<Rightarrow> entry_syms \<Rightarrow> machine \<Rightarrow> machine option" where
  "system_main set_handlers L E M =
     (let M = set_eflags M;
          M = set_seg_regs KERNEL_DS KERNEL_DS (protected_tasks L 5) M;
          M = on_kern (upd_con (printk msg_loaded)) M;
          M = setGdt E M;
          M = setIdt set_handlers L E M;
          M = setTSS L M;
          M = on_kern (init_kernel L) M
      in Option.bind (boot_word 0 (kern M)) (\<lambda>sys_size.
         Option.bind (boot_word 1 (kern M)) (\<lambda>usr_size.
         Option.bind (vm_copy (of_nat KERNEL_START + sys_size) (of_nat L_USER_START)
             (nat (int_of_dword usr_size)) (kern M)) (\<lambda>s.
         let M = M\<lparr>kern := s\<rparr>;
             M = on_kern (upd_con (printk msg_user_mode)) M;
             M = enable_int M
         in Option.bind (boot_word 2 (kern M)) (\<lambda>rdtr.
              return_gate USER_DS USER_DS (of_nat USER_ESP) USER_CS (of_nat L_USER_START) rdtr M)))))"

section \<open>Gates and descriptors\<close>

text \<open>The handler, the privilege level and the type the processor reads from a gate, and the base it
  reads from a segment descriptor.\<close>

definition gate_offset :: "Gate \<Rightarrow> DWord" where
  "gate_offset g = push_bit 16 (ucast (highOffset g)) OR ucast (lowOffset g)"

definition gate_dpl :: "Gate \<Rightarrow> nat" where
  "gate_dpl g = unat (take_bit 2 (drop_bit 13 (gate_flags g)))"

definition gate_type :: "Gate \<Rightarrow> nat" where
  "gate_type g = unat (take_bit 5 (drop_bit 8 (gate_flags g)))"

definition gate_present :: "Gate \<Rightarrow> bool" where
  "gate_present g = bit (gate_flags g) 15"

definition seg_base :: "Descriptor \<Rightarrow> DWord" where
  "seg_base d = push_bit 24 (ucast (highBase d)) OR push_bit 16 (ucast (midBase d)) OR ucast (lowBase d)"

lemma and_masks: "(a :: 32 word) AND 0xFFFF = take_bit 16 a" "(a :: 32 word) AND 0xFF = take_bit 8 a"
  by (simp_all add: take_bit_eq_mask mask_eq_exp_minus_1)

lemma gate_offset_parts: "push_bit 16 (ucast (highWord a)) OR ucast (lowWord a) = a"
  by (rule bit_word_eqI) (auto simp: highWord_def lowWord_def and_masks bit_simps)

lemma seg_base_parts:
  "push_bit 24 (ucast (highByte a)) OR push_bit 16 (ucast (midByte a)) OR ucast (lowWord a) = a"
proof (rule bit_word_eqI)
  fix n assume "n < LENGTH(32)"
  then show "bit (push_bit 24 (ucast (highByte a)) OR push_bit 16 (ucast (midByte a)) OR ucast (lowWord a) :: DWord) n = bit a n"
    by (cases "n < 24") (auto simp: highByte_def midByte_def lowWord_def and_masks bit_simps)
qed

section \<open>Boot\<close>

text \<open>What \<open>init_kernel\<close> leaves alone.\<close>

lemma init_kernel_frame: "ram (init_kernel L s) = ram s" "con (init_kernel L s) = con s"
  by (simp_all add: init_kernel_def Let_def init_task1_def init_idle_def init_sched_def init_mm_def init_sems_eq
      init_freequeue_eq allocate_DIR_def)

lemma sched_rel_ram_con:
  "sched_rel L (kernel_entry (s\<lparr>con := c, ram := r, esp := e\<rparr>)) A = sched_rel L (kernel_entry s) A"
  by (simp add: sched_rel_def tasks_placed_def kernel_entry_def current_def resumable_def)

text \<open>After boot a kernel page that is not a guard page is mapped to itself.\<close>

lemma boot_pte_cases:
  assumes "p < TOTAL_PAGES"
  shows "1 \<le> p \<Longrightarrow> p < 256 \<Longrightarrow> \<not> guard_page L p \<Longrightarrow> pte_present (boot_pte L p) \<and> pbase_addr (boot_pte L p) = of_nat p"
    and "256 \<le> p \<Longrightarrow> p < 284 \<Longrightarrow> pte_present (boot_pte L p) \<and> pbase_addr (boot_pte L p) = of_nat (2 * p - 256)"
proof -
  have 1: "take_bit 20 (of_nat p :: 32 word) = of_nat p" using assms by (intro take_bit20_of_nat) (simp add: TOTAL_PAGES_def)
  have 2: "take_bit 20 (of_nat (2 * p - 256) :: 32 word) = of_nat (2 * p - 256)"
    using assms by (intro take_bit20_of_nat) (simp add: TOTAL_PAGES_def)
  show "pte_present (boot_pte L p) \<and> pbase_addr (boot_pte L p) = of_nat p" if "1 \<le> p" "p < 256" "\<not> guard_page L p"
    using that 1 by (simp add: boot_pte_def layout_consts kernel_pte_def)
  show "pte_present (boot_pte L p) \<and> pbase_addr (boot_pte L p) = of_nat (2 * p - 256)" if "256 \<le> p" "p < 284"
    using that 2 by (simp add: boot_pte_def layout_consts del: of_nat_diff)
qed

lemma boot_addr:
  assumes L: "symtab_ok L" and len: "length (phys_mem (mm s)) = TOTAL_PAGES"
  defines "m \<equiv> mm (init_kernel L s)"
  shows "dirs_ok L m" "cr3 m = dir_pages L 1" "\<And>p. p < TOTAL_PAGES \<Longrightarrow> pte_of L 1 m p = boot_pte L p"
    "\<And>a. 4096 \<le> unat a \<Longrightarrow> unat a < 0x100000 \<Longrightarrow> \<not> guard_page L (unat a div 4096) \<Longrightarrow> to_phys m a = a"
    "\<And>a. 0x100000 \<le> unat a \<Longrightarrow> unat a < 0x11C000 \<Longrightarrow>
      unat (to_phys m a) = (2 * (unat a div 4096) - 256) * 4096 + unat a mod 4096"
proof -
  have nr: "1 < NR_TASKS" by (simp add: NR_TASKS_def)
  show d: "dirs_ok L m" unfolding m_def by (rule boot_mm(3) [OF L len])
  show c: "cr3 m = dir_pages L 1" unfolding m_def boot_mm_eq [OF L] by (simp add: set_cr3_def)
  show e: "pte_of L 1 m p = boot_pte L p" if "p < TOTAL_PAGES" for p unfolding m_def by (rule boot_ptes [OF L len that])
  show "to_phys m a = a" if a: "4096 \<le> unat a" "unat a < 0x100000" "\<not> guard_page L (unat a div 4096)" for a
  proof -
    let ?p = "unat a div 4096"
    have p: "1 \<le> ?p" "?p < 256" "?p < TOTAL_PAGES" using a by (auto simp: TOTAL_PAGES_def)
    note b = boot_pte_cases(1) [OF p(3,1,2) a(3)]
    have "unat (to_phys m a) = ?p * 4096 + unat a mod 4096"
      by (rule to_phys_task [OF L d nr c]) (use a b p e in \<open>auto simp: TOTAL_PAGES_def unat_of_nat\<close>)
    then have "unat (to_phys m a) = unat a" by (simp only: div_mult_mod_eq)
    then show ?thesis by (simp only: word_unat_eq_iff)
  qed
  show "unat (to_phys m a) = (2 * (unat a div 4096) - 256) * 4096 + unat a mod 4096"
    if a: "0x100000 \<le> unat a" "unat a < 0x11C000" for a
  proof -
    let ?p = "unat a div 4096"
    have p: "256 \<le> ?p" "?p < 284" "?p < TOTAL_PAGES" using a by (auto simp: TOTAL_PAGES_def)
    note b = boot_pte_cases(2) [OF p(3,1,2), of L]
    show ?thesis
      by (rule to_phys_task [OF L d nr c])
        (use a b p e in \<open>auto simp: TOTAL_PAGES_def unat_of_nat simp del: of_nat_diff\<close>)
  qed
qed

text \<open>The user image that the boot loader left behind the kernel: its size, and that it lies below the user pages,
  in kernel pages that are mapped.\<close>

definition image_ok :: "symtab \<Rightarrow> nat \<Rightarrow> nat \<Rightarrow> (ptr \<Rightarrow> Byte) \<Rightarrow> bool" where
  "image_ok L sys usr r \<longleftrightarrow> rd32 flat_rd r (of_nat KERNEL_START) = of_nat sys \<and>
     rd32 flat_rd r (of_nat (KERNEL_START + 4)) = of_nat usr \<and>
     KERNEL_START + sys + usr \<le> L_USER_START \<and> usr + 4 \<le> (NUM_PAG_CODE + NUM_PAG_DATA) * PAGE_SIZE \<and>
     \<not> guard_page L 16 \<and> (\<forall>p \<in> block_pages (of_nat (KERNEL_START + sys)) usr. \<not> guard_page L p)"

lemma boot_word_eq:
  assumes L: "symtab_ok L" and len: "length (phys_mem (mm s)) = TOTAL_PAGES" and g: "\<not> guard_page L 16" and i: "i < 3"
    and m: "mm s' = mm (init_kernel L s)"
  shows "boot_word i s' = Some (rd32 flat_rd (ram s') (of_nat (KERNEL_START + 4 * i)))"
proof -
  note b = boot_addr [OF L len, folded m]
  have nr: "1 < NR_TASKS" by (simp add: NR_TASKS_def)
  let ?a = "of_nat (KERNEL_START + 4 * i) :: ptr"
  have u: "unat ?a = 65536 + 4 * i"
    unfolding KERNEL_START_def using i by (subst unat_of_nat_word32) simp_all
  have "to_phys (mm s') (?a + of_nat k) = ?a + of_nat k" if "k < 4" for k
  proof (rule b(4))
    have "unat (?a + of_nat k) = 65536 + 4 * i + k"
      using u i that by (subst unat_plus_word32) (simp_all add: unat_of_nat)
    moreover have "(65536 + 4 * i + k) div 4096 = 16" using i that by (intro div_nat_eqI) simp_all
    ultimately show "4096 \<le> unat (?a + of_nat k)" "unat (?a + of_nat k) < 0x100000"
      "\<not> guard_page L (unat (?a + of_nat k) div 4096)" using i that g by simp_all
  qed
  from this [of 0] this [of 1] this [of 2] this [of 3]
  have "rd32 (paged_rd (mm s')) (ram s') ?a = rd32 flat_rd (ram s') ?a"
    by (simp add: rd32_def paged_rd_def flat_rd_def)
  moreover have "mapped (mm s') ?a 4"
  proof (rule mapped_task [OF L b(1) nr b(2)])
    show "unat ?a + 4 \<le> TOTAL_PAGES * 4096" using u i by (simp add: TOTAL_PAGES_def)
    fix p assume "unat ?a div 4096 \<le> p" "p * 4096 < unat ?a + 4"
    then have "p = 16" using u i by simp
    then show "pte_present (pte_of L 1 (mm s') p)"
      using b(3) [of 16] boot_pte_cases(1) [of 16 L] g by (simp add: TOTAL_PAGES_def)
  qed
  ultimately show ?thesis by (simp add: boot_word_def Let_def)
qed

text \<open>A machine as the boot loader leaves it, with a user image of 100 bytes 4096 bytes after the start of the
  kernel; used to evaluate the model.\<close>

definition raw_image :: "ptr \<Rightarrow> Byte" where
  "raw_image = ((\<lambda>_. 0x90)(0x10000 := 0, 0x10001 := 0x10, 0x10002 := 0, 0x10003 := 0,
     0x10004 := 100, 0x10005 := 0, 0x10006 := 0, 0x10007 := 0))"

definition raw_machine :: machine where
  "raw_machine = \<lparr>kern = zero_kstate\<lparr>ram := raw_image\<rparr>,
     gdt = \<lambda>_. \<lparr>seg_limit = 0, lowBase = 0, midBase = 0, flags1 = 0, flags2 = 0, highBase = 0\<rparr>,
     gdtR = \<lparr>reg_limit = 0, reg_base = 0\<rparr>, idt = \<lambda>_. \<lparr>lowOffset = 0, segmentSelector = 0, gate_flags = 0, highOffset = 0\<rparr>,
     idtR = \<lparr>reg_limit = 0, reg_base = 0\<rparr>,
     tss = \<lparr>ts_PreviousTaskLink = 0, ts_esp0 = 0, ts_ss0 = 0, ts_esp1 = 0, ts_ss1 = 0, ts_esp2 = 0, ts_ss2 = 0,
       ts_cr3 = 0, ts_eip = 0, ts_eFlags = 0, ts_eax = 0, ts_ecx = 0, ts_edx = 0, ts_ebx = 0, ts_esp = 0,
       ts_ebp = 0, ts_esi = 0, ts_edi = 0, ts_es = 0, ts_cs = 0, ts_ss = 0, ts_ds = 0, ts_fs = 0, ts_gs = 0,
       ts_LDTSegmentSelector = 0, ts_debugTrap = 0, ts_IOMapBaseAddress = 0\<rparr>,
     cpu_gdtr = \<lparr>reg_limit = 0, reg_base = 0\<rparr>, cpu_idtr = \<lparr>reg_limit = 0, reg_base = 0\<rparr>,
     cpu_ldtr = 0, cpu_tr = 0, eFlags = 2, msrs = \<lambda>_. (0, 0), cs = 0, ds = 0, es = 0, fs = 0, gs = 0, ss = 0,
     eip = 0, pic_mask = 0xff\<rparr>"

text \<open>The pages of the first process at boot, kernel pages in their own frames and user pages in every second frame from 256 on.\<close>

definition boot_page :: "symtab \<Rightarrow> nat \<Rightarrow> bool" where
  "boot_page L r \<longleftrightarrow> 1 \<le> r \<and> r < 284 \<and> (r < 256 \<longrightarrow> \<not> guard_page L r)"

lemma boot_pages:
  assumes L: "symtab_ok L" and len: "length (phys_mem (mm s)) = TOTAL_PAGES" and m: "mm s' = mm (init_kernel L s)"
    and R: "\<And>r. r \<in> R \<Longrightarrow> boot_page L r"
  shows "\<forall>r\<in>R. pte_present (pte_of L 1 (mm s') r)" "inj_on (\<lambda>r. pbase_addr (pte_of L 1 (mm s') r)) R"
proof -
  define fr where "fr r = (if r < 256 then r else 2 * r - 256)" for r :: nat
  have fr: "pte_present (pte_of L 1 (mm s') r) \<and> unat (pbase_addr (pte_of L 1 (mm s') r)) = fr r" if "r \<in> R" for r
    using R [OF that] boot_addr(3) [OF L len, of r, folded m] boot_pte_cases [of r L]
    by (cases "r < 256") (simp_all add: boot_page_def fr_def TOTAL_PAGES_def unat_of_nat del: of_nat_diff)
  then show "\<forall>r\<in>R. pte_present (pte_of L 1 (mm s') r)" by blast
  show "inj_on (\<lambda>r. pbase_addr (pte_of L 1 (mm s') r)) R"
  proof (rule inj_onI)
    fix x y assume "x \<in> R" "y \<in> R" "pbase_addr (pte_of L 1 (mm s') x) = pbase_addr (pte_of L 1 (mm s') y)"
    then have "fr x = fr y" using fr by metis
    then show "x = y" by (auto simp: fr_def split: if_splits)
  qed
qed

lemma copy_user_image:
  assumes L: "symtab_ok L" and len: "length (phys_mem (mm s)) = TOTAL_PAGES" and im: "image_ok L sys usr (ram s)"
  defines "s1 \<equiv> init_kernel L s" and "p \<equiv> of_nat KERNEL_START + of_nat sys" and "q \<equiv> of_nat L_USER_START"
  obtains r where "vm_copy p q usr s1 = Some (s1\<lparr>ram := r\<rparr>)"
    "\<And>k. k < usr \<Longrightarrow> paged_rd (mm s1) r (q + of_nat k) = ram s (p + of_nat k)"
proof -
  note b = boot_addr [OF L len, folded s1_def]
  have nr: "1 < NR_TASKS" by (simp add: NR_TASKS_def)
  have sz: "65536 + sys + usr \<le> 0x100000" "usr + 4 \<le> 28 * 4096"
    using im by (simp_all add: image_ok_def KERNEL_START_def layout_consts)
  have up: "unat p = 65536 + sys" unfolding p_def KERNEL_START_def of_nat_add [symmetric]
    using sz by (subst unat_of_nat_word32) simp_all
  have uq: "unat q = 0x100000" unfolding q_def L_USER_START_def by simp
  have P: "16 \<le> r \<and> r < 256 \<and> \<not> guard_page L r" if "r \<in> block_pages p usr" for r
  proof -
    have "(65536 + sys) div 4096 \<le> r" "r * 4096 < 65536 + sys + usr" using that up by (simp_all add: block_pages_def)
    moreover have "16 \<le> (65536 + sys) div 4096" by simp
    ultimately have "16 \<le> r" "r < 256" using sz(1) by linarith+
    moreover have "\<not> guard_page L r" using im that by (simp add: image_ok_def p_def)
    ultimately show ?thesis by simp
  qed
  have Q: "256 \<le> r \<and> r < 284" if "r \<in> block_pages q usr" for r using that uq sz by (simp add: block_pages_def)
  have "boot_page L r" if "r \<in> block_pages p usr \<union> block_pages q usr" for r using that P Q by (fastforce simp: boot_page_def)
  note bp = boot_pages [OF L len _ this, of s1, unfolded s1_def, OF refl, folded s1_def]
  obtain r where r: "vm_copy p q usr s1 = Some (s1\<lparr>ram := r\<rparr>)" "paged.copied (mm s1) p q usr (ram s1) r"
    by (rule vm_copy_task [OF L b(1) nr b(2) _ _ _ bp]) (use up uq sz in \<open>simp_all add: TOTAL_PAGES_def\<close>)
  have id: "to_phys (mm s1) (p + of_nat k) = p + of_nat k" if "k < usr" for k
  proof (rule b(4))
    have "unat p + usr \<le> 2 ^ 32" using up sz by simp
    note bp = block_page [OF this that]
    show "4096 \<le> unat (p + of_nat k)" "unat (p + of_nat k) < 0x100000" using bp(1) up sz that by simp_all
    show "\<not> guard_page L (unat (p + of_nat k) div 4096)" using P [OF bp(2)] by simp
  qed
  show thesis
    by (rule that [OF r(1)]) (use r(2) id in \<open>simp add: paged.copied_def paged_rd_def s1_def init_kernel_frame\<close>)
qed

text \<open>The machine when the tables are set up, before the kernel structures are initialised.\<close>

definition tables_set :: "(machine \<Rightarrow> machine) \<Rightarrow> symtab \<Rightarrow> entry_syms \<Rightarrow> machine \<Rightarrow> machine" where
  "tables_set set_handlers L E M =
     setTSS L (setIdt set_handlers L E (setGdt E (on_kern (upd_con (printk msg_loaded))
       (set_seg_regs KERNEL_DS KERNEL_DS (protected_tasks L 5) (set_eflags M)))))"

lemma tables_set_eq:
  fixes L :: symtab and E :: entry_syms and M :: machine
  assumes "\<And>M. \<exists>i. set_handlers M = M\<lparr>idt := i\<rparr>"
  defines "M' \<equiv> tables_set set_handlers L E M"
  shows "ram (kern M') = ram (kern M)" "mm (kern M') = mm (kern M)" "cpu_tr M' = KERNEL_TSS"
    "seg_base (gdt M' 6) = sym_tss E" "gate_offset (idt M' 32) = sym_clock_handler E"
    "gate_offset (idt M' 33) = sym_keyboard_handler E" "gate_dpl (idt M' 32) = 0" "gate_dpl (idt M' 33) = 0"
    "msrs M' 0x176 = (0, sym_system_call_handler E)" "reg_base (cpu_idtr M') = sym_idt E" "reg_base (cpu_gdtr M') = GDT_START"
proof -
  define M2 where "M2 = setGdt E (on_kern (upd_con (printk msg_loaded))
       (set_seg_regs KERNEL_DS KERNEL_DS (protected_tasks L 5) (set_eflags M)))"
  define M3 where "M3 = M2\<lparr>idtR := \<lparr>reg_limit = of_nat (IDT_ENTRIES * 8 - 1), reg_base = sym_idt E\<rparr>\<rparr>"
  obtain i where i: "set_handlers M3 = M3\<lparr>idt := i\<rparr>" using assms(1) by blast
  have m3: "M2\<lparr>idtR := (idtR M2)\<lparr>reg_base := sym_idt E, reg_limit := of_nat (IDT_ENTRIES * 8 - 1)\<rparr>\<rparr> = M3"
    by (cases "idtR M2") (simp add: M3_def)
  let ?g = "setInterruptHandler 33 (sym_keyboard_handler E) 0 (setInterruptHandler 32 (sym_clock_handler E) 0 (M3\<lparr>idt := i\<rparr>))"
  have e: "M' = setTSS L (set_idt_reg (idtR M3) (setSysenter L E ?g))"
    unfolding M'_def tables_set_def M2_def [symmetric] setIdt_def Let_def
    using m3 i by (simp add: setSysenter_def setMSR_def setInterruptHandler_def Let_def)
  have m2: "ram (kern M2) = ram (kern M)" "mm (kern M2) = mm (kern M)" "seg_base (gdt M2 6) = sym_tss E"
    "cpu_gdtr M2 = \<lparr>reg_limit = of_nat (256 * 8), reg_base = GDT_START\<rparr>"
    by (simp_all add: M2_def setGdt_def on_kern_def set_seg_regs_def set_eflags_def set_gdt_reg_def Let_def
        KERNEL_TSS_def seg_base_def seg_base_parts upd_con_def)
  note defs = e setTSS_def set_idt_reg_def set_task_reg_def setSysenter_def setMSR_def setInterruptHandler_def Let_def
    M3_def gate_offset_def gate_offset_parts gate_dpl_def dword_of_int_def
  show "ram (kern M') = ram (kern M)" "mm (kern M') = mm (kern M)" "seg_base (gdt M' 6) = sym_tss E"
    using m2 by (simp_all add: defs)
  show "cpu_tr M' = KERNEL_TSS" "gate_offset (idt M' 32) = sym_clock_handler E"
    "gate_offset (idt M' 33) = sym_keyboard_handler E"
    "msrs M' 0x176 = (0, sym_system_call_handler E)" "reg_base (cpu_idtr M') = sym_idt E"
    by (simp_all add: defs)
  show "gate_dpl (idt M' 32) = 0" "gate_dpl (idt M' 33) = 0" by (simp_all add: defs take_bit_eq_mod)
  show "reg_base (cpu_gdtr M') = GDT_START" using m2(4) by (simp add: defs)
qed

text \<open>The last word of the user stack, which \<open>return_gate\<close> writes.\<close>

lemma put_stack_top:
  assumes L: "symtab_ok L" and len: "length (phys_mem (mm s)) = TOTAL_PAGES" and m: "mm s' = mm (init_kernel L s)"
  obtains r where "put_dword (of_nat USER_ESP + 12) v s' = Some (s'\<lparr>ram := r\<rparr>)"
    "\<And>k. k + 4 < (NUM_PAG_CODE + NUM_PAG_DATA) * PAGE_SIZE \<Longrightarrow>
      paged_rd (mm s') r (of_nat L_USER_START + of_nat k) = paged_rd (mm s') (ram s') (of_nat L_USER_START + of_nat k)"
proof -
  note b = boot_addr [OF L len, folded m]
  have nr: "1 < NR_TASKS" by (simp add: NR_TASKS_def)
  let ?a = "of_nat USER_ESP + 12 :: ptr"
  have a: "?a = 0x11BFFC" by (simp add: USER_ESP_def layout_consts)
  have bp: "\<forall>p \<in> {256..<284}. pte_present (pte_of L 1 (mm s') p)" "inj_on (\<lambda>p. pbase_addr (pte_of L 1 (mm s') p)) {256..<284}"
    by (rule boot_pages [OF L len m]; simp add: boot_page_def)+
  have mp: "mapped (mm s') ?a 4"
  proof (rule mapped_task [OF L b(1) nr b(2)])
    fix p assume "unat ?a div 4096 \<le> p" "p * 4096 < unat ?a + 4"
    then have "p \<in> {256..<284}" unfolding a by simp
    then show "pte_present (pte_of L 1 (mm s') p)" using bp(1) by blast
  qed (simp add: a TOTAL_PAGES_def)
  let ?r = "wr32 (paged_wr (mm s')) ?a v (ram s')"
  have "paged_rd (mm s') ?r (of_nat L_USER_START + of_nat k) = paged_rd (mm s') (ram s') (of_nat L_USER_START + of_nat k)"
    if k: "k + 4 < (NUM_PAG_CODE + NUM_PAG_DATA) * PAGE_SIZE" for k
  proof -
    let ?b = "of_nat L_USER_START + of_nat k :: ptr"
    have k': "k + 4 < 0x1C000" using k by (simp add: layout_consts)
    then have u: "unat ?b = 0x100000 + k"
      unfolding L_USER_START_def by (subst unat_plus_word32) (simp_all add: unat_of_nat)
    have "to_phys (mm s') ?b \<noteq> to_phys (mm s') (?a + of_nat j)" if j: "j < 4" for j
    proof
      have uj: "unat (?a + of_nat j) = 0x11BFFC + j" unfolding a using j by (subst unat_plus_word32) (simp_all add: unat_of_nat)
      have lt: "unat ?b < TOTAL_PAGES * 4096" "unat (?a + of_nat j) < TOTAL_PAGES * 4096"
        unfolding u uj using k' j by (simp_all add: TOTAL_PAGES_def)
      have pg: "unat ?b div 4096 \<in> {256..<284}" "unat (?a + of_nat j) div 4096 \<in> {256..<284}"
        unfolding u uj using k' j by auto
      assume "to_phys (mm s') ?b = to_phys (mm s') (?a + of_nat j)"
      then have "?b = ?a + of_nat j"
        by (rule to_phys_inject [OF L b(1) nr b(2) lt pg bp])
      then have "0x100000 + k = 0x11BFFC + j" using u uj by metis
      then show False using k' by simp
    qed
    from this [of 0] this [of 1] this [of 2] this [of 3] show ?thesis
      by (simp add: wr32_def paged.rd_wr)
  qed
  with mp that [of ?r] show thesis by (simp add: put_dword_def)
qed

text \<open>\<open>main\<close> as a whole: the tables, then the memory and the tasks, then the copy of the user image and the far return.\<close>

lemma system_main_eq:
  fixes E :: entry_syms
  assumes L: "symtab_ok L" and sh: "\<And>M. \<exists>i. set_handlers M = M\<lparr>idt := i\<rparr>"
    and pm: "length (phys_mem (mm (kern M))) = TOTAL_PAGES" and im: "image_ok L sys usr (ram (kern M))"
  defines "T \<equiv> tables_set set_handlers L E M"
  obtains s where "system_main set_handlers L E M = Some (T\<lparr>eFlags := set_bit 9 (eFlags T), pic_mask := 0xfc, es := USER_DS,
      ds := USER_DS, kern := s, ss := USER_DS, cs := USER_CS, eip := of_nat L_USER_START\<rparr>)" "esp s = of_nat USER_ESP"
    "\<forall>k<usr. user_view s (of_nat L_USER_START + of_nat k) = ram (kern M) (of_nat KERNEL_START + of_nat sys + of_nat k)"
    "sched_rel L (kernel_entry s) (boot_abs L)"
proof -
  note T = tables_set_eq [OF sh, of L E M, folded T_def]
  have len: "length (phys_mem (mm (kern T))) = TOTAL_PAGES" using pm T(2) by simp
  have im': "image_ok L sys usr (ram (kern T))" using im T(1) by simp
  define s1 where "s1 = init_kernel L (kern T)"
  have g: "\<not> guard_page L 16" using im by (simp add: image_ok_def)
  have ram1: "ram s1 = ram (kern M)" unfolding s1_def init_kernel_frame T(1) ..
  have w: "boot_word 0 s1 = Some (of_nat sys)" "boot_word 1 s1 = Some (of_nat usr)"
    using boot_word_eq [OF L len g, of 0 s1] boot_word_eq [OF L len g, of 1 s1] im
    by (simp_all add: s1_def ram1 [unfolded s1_def] image_ok_def)
  have "usr < 2 ^ 31" using im by (simp add: image_ok_def layout_consts)
  then have n: "nat (int_of_dword (of_nat usr)) = usr"
    using int_of_dword_of_int [of "int usr"] by (simp add: dword_of_int_def int32_def)
  obtain r where r: "vm_copy (of_nat KERNEL_START + of_nat sys) (of_nat L_USER_START) usr s1 = Some (s1\<lparr>ram := r\<rparr>)"
    "\<And>k. k < usr \<Longrightarrow> paged_rd (mm s1) r (of_nat L_USER_START + of_nat k) = ram (kern T) (of_nat KERNEL_START + of_nat sys + of_nat k)"
    by (rule copy_user_image [OF L len im', folded s1_def]) (rule that, assumption+)
  define s2 where "s2 = upd_con (printk msg_user_mode) (s1\<lparr>ram := r\<rparr>)"
  have s2: "mm s2 = mm s1" "ram s2 = r" by (simp_all add: s2_def upd_con_def)
  obtain v where v: "boot_word 2 s2 = Some v" using boot_word_eq [OF L len g, of 2 s2] s2 by (simp add: s1_def)
  obtain r2 where r2: "put_dword (of_nat USER_ESP + 12) v s2 = Some (s2\<lparr>ram := r2\<rparr>)"
    "\<And>k. k + 4 < (NUM_PAG_CODE + NUM_PAG_DATA) * PAGE_SIZE \<Longrightarrow>
      paged_rd (mm s2) r2 (of_nat L_USER_START + of_nat k) = paged_rd (mm s2) (ram s2) (of_nat L_USER_START + of_nat k)"
    using put_stack_top [OF L len, of s2 v] s2 s1_def by metis
  let ?s = "s2\<lparr>ram := r2, esp := of_nat USER_ESP\<rparr>"
  show thesis
  proof (rule that [of ?s])
    show "system_main set_handlers L E M = Some (T\<lparr>eFlags := set_bit 9 (eFlags T), pic_mask := 0xfc, es := USER_DS,
        ds := USER_DS, kern := ?s, ss := USER_DS, cs := USER_CS, eip := of_nat L_USER_START\<rparr>)"
      unfolding system_main_def Let_def tables_set_def [symmetric] T_def [symmetric]
      by (simp add: on_kern_def s1_def [symmetric] w w(2) [unfolded One_nat_def] n r(1) s2_def [symmetric] enable_int_def Let_def v return_gate_def r2(1))
    show "\<forall>k<usr. user_view ?s (of_nat L_USER_START + of_nat k) = ram (kern M) (of_nat KERNEL_START + of_nat sys + of_nat k)"
      using r r2(2) im by (simp add: image_ok_def user_view_def s2 T(1))
    show "sched_rel L (kernel_entry ?s) (boot_abs L)"
      using boot_sched_rel_aux [OF L, of "kern T"] by (simp add: s2_def upd_con_def s1_def sched_rel_ram_con)
  qed simp
qed

section \<open>Properties\<close>

text \<open>A gate installed by \<open>setInterruptHandler\<close> leads the processor to the given handler through the kernel
  code segment, is present, is an interrupt gate of the given privilege level, and no other gate
  changes; \<open>setTrapHandler\<close> installs the very same interrupt gate.\<close>

theorem setInterruptHandler_spec:
  assumes "0 \<le> pl" and "pl \<le> 3"
  shows "let M' = setInterruptHandler v h pl M; g = idt M' v in
    gate_offset g = h \<and> segmentSelector g = KERNEL_CS \<and> gate_present g \<and> gate_type g = 14 \<and> gate_dpl g = nat pl \<and>
    (\<forall>w. w \<noteq> v \<longrightarrow> idt M' w = idt M w) \<and> setTrapHandler v h pl M = M'"
proof -
  let ?g = "idt (setInterruptHandler v h pl M) v"
  have f: "gate_flags ?g = ucast (push_bit 13 (dword_of_int pl)) OR 0x8E00"
    by (simp add: setInterruptHandler_def Let_def)
  consider "pl = 0" | "pl = 1" | "pl = 2" | "pl = 3" using assms by linarith
  then have "gate_present ?g \<and> gate_type ?g = 14 \<and> gate_dpl ?g = nat pl"
    unfolding gate_present_def gate_type_def gate_dpl_def f
    by cases (simp_all add: dword_of_int_def take_bit_eq_mod)
  then show ?thesis
    unfolding Let_def
    by (intro conjI) (simp_all add: setInterruptHandler_def setTrapHandler_def Let_def gate_offset_def gate_offset_parts)
qed

theorem setInterruptHandler_spec_witness:
  "gate_offset (idt (setInterruptHandler 33 0x12345678 3 raw_machine) 33) = 0x12345678"
  using setInterruptHandler_spec [of 3 33 "0x12345678" raw_machine] by (simp add: Let_def)

text \<open>C31: From the loaded kernel, \<open>main\<close> reaches user mode: it runs at the first user address with the user
  segments and stack, privilege level 3, interrupts enabled for the timer and the keyboard only;
  the clock and keyboard gates and the system-call entry lead to their handlers, the task register
  to the task state segment; every byte of the user image is at its place in the address space of
  the first process; and the scheduler is in its initial state.\<close>

theorem system_main_enters_user_mode:
  assumes "symtab_ok L" and "\<And>M. \<exists>i. set_handlers M = M\<lparr>idt := i\<rparr>"
    and "length (phys_mem (mm (kern M))) = TOTAL_PAGES" and "image_ok L sys usr (ram (kern M))"
  shows "\<exists>M'. system_main set_handlers L E M = Some M' \<and>
    eip M' = of_nat L_USER_START \<and> esp (kern M') = of_nat USER_ESP \<and>
    cs M' = USER_CS \<and> take_bit 2 (cs M') = 3 \<and> ds M' = USER_DS \<and> es M' = USER_DS \<and> ss M' = USER_DS \<and>
    bit (eFlags M') 9 \<and> (\<forall>i<8. \<not> bit (pic_mask M') i \<longleftrightarrow> i < 2) \<and>
    cpu_tr M' = KERNEL_TSS \<and> seg_base (gdt M' 6) = sym_tss E \<and>
    gate_offset (idt M' 32) = sym_clock_handler E \<and> gate_offset (idt M' 33) = sym_keyboard_handler E \<and>
    msrs M' 0x176 = (0, sym_system_call_handler E) \<and>
    (\<forall>k<usr. user_view (kern M') (of_nat L_USER_START + of_nat k) = ram (kern M) (of_nat KERNEL_START + of_nat sys + of_nat k)) \<and>
    sched_rel L (kernel_entry (kern M')) (boot_abs L)"
proof -
  let ?T = "tables_set set_handlers L E M"
  note T = tables_set_eq [OF assms(2), of L E M]
  obtain s where s: "system_main set_handlers L E M = Some (?T\<lparr>eFlags := set_bit 9 (eFlags ?T), pic_mask := 0xfc, es := USER_DS,
      ds := USER_DS, kern := s, ss := USER_DS, cs := USER_CS, eip := of_nat L_USER_START\<rparr>)" "esp s = of_nat USER_ESP"
    "\<forall>k<usr. user_view s (of_nat L_USER_START + of_nat k) = ram (kern M) (of_nat KERNEL_START + of_nat sys + of_nat k)"
    "sched_rel L (kernel_entry s) (boot_abs L)"
    by (rule system_main_eq [OF assms])
  have "\<forall>i<8. \<not> bit (0xfc :: Byte) i \<longleftrightarrow> i < 2" by code_simp
  then show ?thesis using s T unfolding s(1) by (simp add: USER_CS_def take_bit_eq_mod bit_simps)
qed

theorem system_main_enters_user_mode_witness:
  "\<exists>M'. system_main (\<lambda>M. M) example_symtab \<lparr>sym_tss = 0x15000, sym_idt = 0x15100, sym_clock_handler = 0x12000,
      sym_keyboard_handler = 0x12100, sym_system_call_handler = 0x12200\<rparr> raw_machine = Some M' \<and>
    eip M' = 0x100000 \<and> user_view (kern M') 0x100005 = 0x90"
proof -
  have k: "ram (kern raw_machine) = raw_image" "length (phys_mem (mm (kern raw_machine))) = TOTAL_PAGES"
    by (simp_all add: raw_machine_def zero_kstate_def)
  have b: "block_pages (of_nat (KERNEL_START + 4096)) 100 = {17}"
    by (auto simp: block_pages_def KERNEL_START_def)
  have "\<not> guard_page example_symtab 16" "\<not> guard_page example_symtab 17"
    by (simp_all add: guard_page_def protected_tasks_def example_symtab_def PAGE_SIZE_def)
  then have "image_ok example_symtab 4096 100 (ram (kern raw_machine))"
    unfolding k image_ok_def b
    by (simp add: rd32_def flat_rd_def raw_image_def KERNEL_START_def layout_consts)
  note im = this
  let ?E = "\<lparr>sym_tss = 0x15000, sym_idt = 0x15100, sym_clock_handler = 0x12000, sym_keyboard_handler = 0x12100,
    sym_system_call_handler = 0x12200\<rparr>"
  have "\<exists>i. M = M\<lparr>idt := i\<rparr>" for M :: machine by (rule exI [of _ "idt M"]) simp
  from system_main_enters_user_mode [OF example_symtab_ok this k(2) im, of ?E]
  obtain M' where M': "system_main (\<lambda>M. M) example_symtab ?E raw_machine = Some M'" "eip M' = of_nat L_USER_START"
    and v: "\<forall>k<100. user_view (kern M') (of_nat L_USER_START + of_nat k) =
      ram (kern raw_machine) (of_nat KERNEL_START + of_nat 4096 + of_nat k)" by blast
  have "user_view (kern M') 0x100005 = 0x90"
    using v [rule_format, of 5] by (simp add: k raw_image_def L_USER_START_def KERNEL_START_def)
  with M' show ?thesis by (auto simp: L_USER_START_def)
qed

end
