(* ===== verification/Zeos_Libc.thy ===== *)
theory Zeos_Libc
  imports Zeos_Prelude
begin

text \<open>
  The user library: \<open>itoa\<close>, \<open>strlen\<close> and \<open>perror\<close> of \<open>libc.c\<close>, and \<open>put_hex\<close> and \<open>delay\<close> of
  \<open>user.c\<close>. A \<open>char *\<close> is the array it points to, from index to byte; output is the list of the
  bytes handed to \<open>write\<close> on descriptor 1, in order.
\<close>

section \<open>libc.c\<close>

text \<open>The loop of \<open>itoa\<close> that stores the digits, lowest first, and the loop that reverses them.\<close>

function itoa_loop :: "int \<Rightarrow> nat \<Rightarrow> (nat \<Rightarrow> Byte) \<Rightarrow> nat \<times> (nat \<Rightarrow> Byte)" where
  "itoa_loop a i b =
     (if a > 0 then itoa_loop (a div 10) (i + 1) (b(i := word_of_int (a mod 10) + of_char CHR ''0''))
      else (i, b))"
  by pat_completeness auto
termination
  by (relation "measure (\<lambda>(a, i, b). nat a)") auto

declare itoa_loop.simps [simp del]

definition itoa_swap :: "nat \<Rightarrow> (nat \<Rightarrow> Byte) \<Rightarrow> (nat \<Rightarrow> Byte)" where
  "itoa_swap i b =
     fold (\<lambda>i1 b. let c = b i1; b = b(i1 := b (i - i1 - 1)) in b(i - i1 - 1 := c)) [0..<i div 2] b"

definition itoa :: "int \<Rightarrow> (nat \<Rightarrow> Byte) \<Rightarrow> (nat \<Rightarrow> Byte)" where
  "itoa a b =
     (if a = 0 then b(0 := of_char CHR ''0'', 1 := 0)
      else case itoa_loop a 0 b of (i, b) \<Rightarrow> (itoa_swap i b)(i := 0))"

partial_function (option) strlen_from :: "(nat \<Rightarrow> Byte) \<Rightarrow> nat \<Rightarrow> nat option" where
  "strlen_from a i = (if a i \<noteq> 0 then strlen_from a (i + 1) else Some i)"

definition strlen :: "(nat \<Rightarrow> Byte) \<Rightarrow> nat option" where
  "strlen a = strlen_from a 0"

text \<open>\<open>perror\<close>, given \<open>errno\<close> and what the stack held in its buffer.\<close>

definition perror :: "int \<Rightarrow> (nat \<Rightarrow> Byte) \<Rightarrow> Byte list option" where
  "perror errno buffer =
     (let buffer = itoa errno buffer
      in Option.bind (strlen buffer) (\<lambda>n. Some (map buffer [0..<n])))"

section \<open>user.c\<close>

definition hex_chars :: "Byte list" where
  "hex_chars = map of_char ''0123456789ABCDEF''"

text \<open>The two loops of \<open>put_hex\<close>: the first fills the buffer, the second writes it from the end.\<close>

function put_hex_loop :: "DWord \<Rightarrow> nat \<Rightarrow> (nat \<Rightarrow> Byte) \<Rightarrow> nat \<times> (nat \<Rightarrow> Byte)" where
  "put_hex_loop num i buffer =
     (if num > 0 then put_hex_loop (num div 16) (i + 1) (buffer(i := hex_chars ! unat (num mod 16)))
      else (i, buffer))"
  by pat_completeness auto
termination
proof (relation "measure (\<lambda>(num, i, b). unat num)")
  fix num :: DWord and i :: nat and b :: "nat \<Rightarrow> Byte"
  assume "num > 0"
  then have "0 < unat num" by (simp add: word_less_nat_alt)
  then show "((num div 16, i + 1, b(i := hex_chars ! unat (num mod 16))), num, i, b) \<in> measure (\<lambda>(num, i, b). unat num)"
    by (simp add: unat_div)
qed simp

declare put_hex_loop.simps [simp del]

fun put_hex_out :: "nat \<Rightarrow> (nat \<Rightarrow> Byte) \<Rightarrow> Byte list" where
  "put_hex_out i buffer = (if i > 0 then buffer (i - 1) # put_hex_out (i - 1) buffer else [])"

declare put_hex_out.simps [simp del]

definition put_hex :: "DWord \<Rightarrow> (nat \<Rightarrow> Byte) \<Rightarrow> Byte list" where
  "put_hex num buffer =
     (if num = 0 then [of_char CHR ''0'']
      else case put_hex_loop num 0 buffer of (i, buffer) \<Rightarrow> put_hex_out i buffer)"

text \<open>\<open>delay\<close>: the count at the end; \<open>milliseconds * 1000\<close> wraps around.\<close>

function delay_loop :: "DWord \<Rightarrow> DWord \<Rightarrow> DWord" where
  "delay_loop count max_count = (if count < max_count then delay_loop (count + 1) max_count else count)"
  by pat_completeness auto
termination
proof (relation "measure (\<lambda>(count, max_count). unat max_count - unat count)")
  fix count max_count :: DWord
  assume "count < max_count"
  then have lt: "unat count < unat max_count" by (simp add: word_less_nat_alt)
  moreover have "unat max_count < 2 ^ 32" by (rule unat_word32_less)
  ultimately have "unat (count + 1) = unat count + 1" by (subst unat_plus_word32) simp_all
  with lt show "((count + 1, max_count), count, max_count) \<in> measure (\<lambda>(count, max_count). unat max_count - unat count)"
    by simp
qed simp

declare delay_loop.simps [simp del]

definition delay :: "DWord \<Rightarrow> DWord" where
  "delay milliseconds = (let max_count = milliseconds * 1000 in delay_loop 0 max_count)"

section \<open>Digits\<close>

text \<open>The digits of a number in a base, lowest first, and their value.\<close>

fun digits :: "nat \<Rightarrow> nat \<Rightarrow> nat list" where
  "digits base n = (if n = 0 \<or> base < 2 then [] else n mod base # digits base (n div base))"

declare digits.simps [simp del]

lemma digits_0 [simp]: "digits base 0 = []"
  by (simp add: digits.simps)

definition digits_value :: "nat \<Rightarrow> nat list \<Rightarrow> nat" where
  "digits_value base ds = foldr (\<lambda>d v. d + base * v) ds 0"

lemma digits_value_digits: "2 \<le> base \<Longrightarrow> digits_value base (digits base n) = n"
proof (induction base n rule: digits.induct)
  case (1 base n)
  then show ?case by (cases "n = 0") (simp_all add: digits.simps [of base n] digits_value_def)
qed

lemma digits_less: "2 \<le> base \<Longrightarrow> d \<in> set (digits base n) \<Longrightarrow> d < base"
proof (induction base n rule: digits.induct)
  case (1 base n)
  then show ?case by (cases "n = 0") (auto simp: digits.simps [of base n])
qed

lemma digits_last: "2 \<le> base \<Longrightarrow> 0 < n \<Longrightarrow> digits base n \<noteq> [] \<and> last (digits base n) \<noteq> 0"
proof (induction base n rule: digits.induct)
  case (1 base n)
  show ?case
  proof (cases "n div base = 0")
    case True
    then have "n mod base = n" using 1 by (metis add_0 div_mult_mod_eq mult_zero_left)
    then show ?thesis using 1 True by (simp add: digits.simps [of base n] digits.simps [of base 0])
  next
    case False
    then have "digits base (n div base) \<noteq> [] \<and> last (digits base (n div base)) \<noteq> 0"
      using 1 by (intro "1.IH") auto
    then show ?thesis using 1 by (simp add: digits.simps [of base n])
  qed
qed

lemma digits_length: "n < base ^ k \<Longrightarrow> 2 \<le> base \<Longrightarrow> length (digits base n) \<le> k"
proof (induction k arbitrary: n)
  case 0
  then show ?case by (simp add: digits.simps)
next
  case (Suc k)
  have "n div base < base ^ k" using Suc.prems by (simp add: less_mult_imp_div_less mult.commute)
  then have "length (digits base (n div base)) \<le> k" using Suc by simp
  then show ?case by (simp add: digits.simps [of base n])
qed

text \<open>A list stored in an array from index \<open>i\<close> on.\<close>

definition stored :: "nat \<Rightarrow> 'a list \<Rightarrow> (nat \<Rightarrow> 'a) \<Rightarrow> (nat \<Rightarrow> 'a)" where
  "stored i xs b = (\<lambda>j. if i \<le> j \<and> j < i + length xs then xs ! (j - i) else b j)"

lemma stored_Cons: "stored (Suc i) xs (b(i := x)) = stored i (x # xs) b"
  by (rule ext) (auto simp: stored_def nth_Cons')

lemma stored_Nil [simp]: "stored i [] b = b"
  by (rule ext) (auto simp: stored_def)

lemma map_stored: "map (stored 0 xs b) [0..<length xs] = xs"
  by (rule nth_equalityI) (simp_all add: stored_def)

definition digit_char :: "nat \<Rightarrow> Byte" where
  "digit_char d = of_nat d + of_char CHR ''0''"

lemma itoa_loop_eq:
  "0 \<le> a \<Longrightarrow> itoa_loop a i b =
     (i + length (digits 10 (nat a)), stored i (map digit_char (digits 10 (nat a))) b)"
proof (induction a i b rule: itoa_loop.induct)
  case (1 a i b)
  show ?case
  proof (cases "a = 0")
    case True
    then show ?thesis by (simp add: itoa_loop.simps [of 0])
  next
    case False
    then have pos: "a > 0" using 1 by simp
    have d: "digits 10 (nat a) = nat a mod 10 # digits 10 (nat (a div 10))"
      using pos by (simp add: digits.simps [of 10 "nat a"] nat_div_distrib)
    have c: "word_of_int (a mod 10) + of_char CHR ''0'' = digit_char (nat a mod 10)"
    proof -
      have "a mod 10 = int (nat a mod 10)" using pos by (simp add: zmod_int)
      then show ?thesis by (simp add: digit_char_def)
    qed
    have "itoa_loop a i b = itoa_loop (a div 10) (i + 1) (b(i := digit_char (nat a mod 10)))"
      using pos c by (simp add: itoa_loop.simps [of a i b])
    also have "\<dots> = (i + 1 + length (digits 10 (nat (a div 10))),
        stored (i + 1) (map digit_char (digits 10 (nat (a div 10)))) (b(i := digit_char (nat a mod 10))))"
      by (rule "1.IH" [OF pos _, unfolded c]) (use pos in simp)
    finally show ?thesis by (simp add: d stored_Cons)
  qed
qed

text \<open>The reversing loop after \<open>k\<close> rounds.\<close>

definition swapped :: "nat \<Rightarrow> nat \<Rightarrow> (nat \<Rightarrow> 'a) \<Rightarrow> nat \<Rightarrow> 'a" where
  "swapped n k b j = (if j < k \<or> n - k \<le> j \<and> j < n then b (n - 1 - j) else b j)"

lemma swapped_step:
  assumes "Suc k \<le> n div 2"
  shows "(swapped n k b)(k := swapped n k b (n - k - 1), n - k - 1 := swapped n k b k) = swapped n (Suc k) b"
proof
  fix j
  have lt: "k < n - k - 1" using assms by linarith
  have "swapped n k b k = b k" "swapped n k b (n - k - 1) = b (n - k - 1)" using lt by (auto simp: swapped_def)
  moreover have "n - 1 - (n - k - 1) = k" "n - 1 - k = n - k - 1" using lt by auto
  moreover have "j < Suc k \<longleftrightarrow> j < k \<or> j = k" "n - Suc k \<le> j \<longleftrightarrow> n - k \<le> j \<or> j = n - k - 1" using lt by auto
  ultimately show "((swapped n k b)(k := swapped n k b (n - k - 1), n - k - 1 := swapped n k b k)) j = swapped n (Suc k) b j"
    using lt by (auto simp: swapped_def)
qed

lemma itoa_swap_eq: "itoa_swap n b = swapped n (n div 2) b"
proof -
  define F where "F = (\<lambda>i1 b. let c = b i1; b = b(i1 := b (n - i1 - 1)) in b(n - i1 - 1 := c) :: nat \<Rightarrow> Byte)"
  have "fold F [0..<k] b = swapped n k b" if "k \<le> n div 2" for k
    using that
  proof (induction k)
    case 0
    show ?case by (rule ext) (auto simp: swapped_def)
  next
    case (Suc k)
    have "fold F [0..<Suc k] b = F k (fold F [0..<k] b)" by simp
    also have "\<dots> = F k (swapped n k b)" using Suc by (simp only: Suc_leD)
    also have "\<dots> = swapped n (Suc k) b"
      unfolding F_def Let_def using Suc.prems swapped_step [of k n b] by simp
    finally show ?case .
  qed
  then show ?thesis by (simp only: itoa_swap_def F_def order_refl)
qed

lemma itoa_swap_rev: "itoa_swap (length xs) (stored 0 xs b) = stored 0 (rev xs) b"
proof
  fix j
  let ?n = "length xs"
  have "j < ?n \<Longrightarrow> \<not> (j < ?n div 2 \<or> ?n - ?n div 2 \<le> j) \<Longrightarrow> ?n - 1 - j = j" by linarith
  then show "itoa_swap ?n (stored 0 xs b) j = stored 0 (rev xs) b j"
    unfolding itoa_swap_eq swapped_def by (auto simp: stored_def rev_nth)
qed

lemma strlen_from_eq:
  assumes "\<And>j. i \<le> j \<Longrightarrow> j < n \<Longrightarrow> a j \<noteq> 0" "a n = 0" "i \<le> n"
  shows "strlen_from a i = Some n"
  using assms
proof (induction "n - i" arbitrary: i)
  case 0
  then show ?case by (subst strlen_from.simps) simp
next
  case (Suc k)
  then have "strlen_from a (i + 1) = Some n" by (intro Suc(1)) auto
  moreover have "a i \<noteq> 0" using Suc by simp
  ultimately show ?case by (subst strlen_from.simps) simp
qed

lemma digit_char_nonzero: "d < 10 \<Longrightarrow> digit_char d \<noteq> 0"
proof -
  assume "d < 10"
  then have "unat (digit_char d) = d + 48" by (simp add: digit_char_def unat_word_ariths unat_of_nat)
  then show ?thesis by auto
qed

text \<open>The decimal digits of a number, highest first, as one writes them.\<close>

definition decimal :: "nat \<Rightarrow> nat list" where
  "decimal n = (if n = 0 then [0] else rev (digits 10 n))"

lemma itoa_eq: "0 \<le> a \<Longrightarrow> itoa a b = (stored 0 (map digit_char (decimal (nat a))) b)(length (decimal (nat a)) := 0)"
proof (cases "a = 0")
  case True
  have "(stored 0 [digit_char 0] b)(1 := 0) = b(0 := of_char CHR ''0'', 1 := 0)"
    by (rule ext) (simp add: stored_def digit_char_def)
  then show ?thesis using True by (simp add: itoa_def decimal_def)
next
  case False
  assume "0 \<le> a"
  then have "itoa a b = (itoa_swap (length (digits 10 (nat a))) (stored 0 (map digit_char (digits 10 (nat a))) b))(length (digits 10 (nat a)) := 0)"
    using False by (simp add: itoa_def itoa_loop_eq)
  then show ?thesis
    using False \<open>0 \<le> a\<close> itoa_swap_rev [of "map digit_char (digits 10 (nat a))" b] by (simp add: decimal_def rev_map)
qed

lemma decimal_props:
  shows "decimal n \<noteq> []" "d \<in> set (decimal n) \<Longrightarrow> d < 10" "n < 10 ^ k \<Longrightarrow> 0 < k \<Longrightarrow> length (decimal n) \<le> k"
    "digits_value 10 (rev (decimal n)) = n" "hd (decimal n) = 0 \<Longrightarrow> decimal n = [0]"
proof -
  show "decimal n \<noteq> []" using digits_last [of 10 n] by (simp add: decimal_def)
  show "d \<in> set (decimal n) \<Longrightarrow> d < 10" using digits_less [of 10 d n] by (auto simp: decimal_def split: if_splits)
  show "length (decimal n) \<le> k" if "n < 10 ^ k" "0 < k" using digits_length [OF that(1)] that(2) by (simp add: decimal_def)
  show "digits_value 10 (rev (decimal n)) = n"
    using digits_value_digits [of 10 n] by (simp add: decimal_def digits_value_def)
  show "decimal n = [0]" if "hd (decimal n) = 0"
    using that digits_last [of 10 n] by (simp add: decimal_def hd_rev split: if_splits)
qed

lemma put_hex_loop_eq:
  "put_hex_loop num i b =
     (i + length (digits 16 (unat num)), stored i (map (\<lambda>d. hex_chars ! d) (digits 16 (unat num))) b)"
proof (induction num i b rule: put_hex_loop.induct)
  case (1 num i b)
  show ?case
  proof (cases "num = 0")
    case True
    then show ?thesis by (simp add: put_hex_loop.simps [of 0])
  next
    case False
    then have pos: "num > 0" by (simp add: word_gt_0)
    have d: "digits 16 (unat num) = unat (num mod 16) # digits 16 (unat (num div 16))"
      using False by (simp add: digits.simps [of 16 "unat num"] unat_div unat_mod unat_eq_0)
    have "put_hex_loop num i b = put_hex_loop (num div 16) (i + 1) (b(i := hex_chars ! unat (num mod 16)))"
      using pos by (simp add: put_hex_loop.simps [of num i b])
    also have "\<dots> = (i + 1 + length (digits 16 (unat (num div 16))),
        stored (i + 1) (map (\<lambda>d. hex_chars ! d) (digits 16 (unat (num div 16)))) (b(i := hex_chars ! unat (num mod 16))))"
      by (rule 1 [OF pos])
    finally show ?thesis by (simp add: d stored_Cons)
  qed
qed

lemma put_hex_out_eq: "put_hex_out (length xs) (stored 0 xs b) = rev xs"
proof -
  have "put_hex_out i f = rev (map f [0..<i])" for i f
    by (induction i) (simp_all add: put_hex_out.simps [of 0] put_hex_out.simps [of "Suc _"])
  then show ?thesis by (simp add: map_stored)
qed

text \<open>\<open>delay\<close> ends after \<open>milliseconds * 1000\<close> rounds, taken modulo \<open>2 ^ 32\<close>.\<close>

lemma delay_loop_eq: "count \<le> max_count \<Longrightarrow> delay_loop count max_count = max_count"
proof (induction count max_count rule: delay_loop.induct)
  case (1 count max_count)
  show ?case
  proof (cases "count < max_count")
    case True
    then have "count + 1 \<le> max_count" by (rule inc_le)
    then show ?thesis using 1 True by (simp add: delay_loop.simps [of count])
  next
    case False
    then show ?thesis using "1.prems" by (simp add: delay_loop.simps [of max_count])
  qed
qed

lemma delay_count: "delay ms = ms * 1000"
  by (simp add: delay_def delay_loop_eq)

section \<open>Properties\<close>

text \<open>C34: For a number that is not negative, \<open>itoa\<close> writes its decimal digits, highest first, without leading
  zeros, and a final zero byte, and nothing beyond: at most 11 bytes; \<open>strlen\<close> then ends and returns
  the number of digits; the value of the digits is the number; and \<open>perror\<close> writes exactly these
  digits. For a negative number \<open>itoa\<close> gives the empty string and \<open>perror\<close> writes nothing.\<close>

theorem itoa_decimal:
  assumes "int32 a"
  shows "let ds = (if a < 0 then [] else decimal (nat a)); b' = itoa a b in
    strlen b' = Some (length ds) \<and> map b' [0..<length ds] = map digit_char ds \<and>
    perror a b = Some (map digit_char ds) \<and> (\<forall>j > length ds. b' j = b j) \<and> length ds \<le> 10 \<and>
    (0 \<le> a \<longrightarrow> int (digits_value 10 (rev ds)) = a \<and> (\<forall>d \<in> set ds. d < 10) \<and> (hd ds = 0 \<longrightarrow> ds = [0]))"
proof -
  define ds where "ds = (if a < 0 then [] else decimal (nat a))"
  have b': "itoa a b = (stored 0 (map digit_char ds) b)(length ds := 0)"
  proof (cases "a < 0")
    case True
    then show ?thesis by (simp add: itoa_def itoa_loop.simps [of a] itoa_swap_def ds_def)
  next
    case False
    then show ?thesis by (simp add: itoa_eq ds_def)
  qed
  have lt: "\<forall>d \<in> set ds. d < 10" using decimal_props(2) by (auto simp: ds_def)
  have "a < 10 ^ 10" using assms by (simp add: int32_def)
  then have "0 \<le> a \<Longrightarrow> nat a < 10 ^ 10" by (simp add: nat_less_iff)
  then have len: "length ds \<le> 10" using decimal_props(3) [of "nat a" 10] by (auto simp: ds_def)
  have st: "strlen (itoa a b) = Some (length ds)"
    unfolding strlen_def b' by (rule strlen_from_eq) (use lt in \<open>auto simp: stored_def digit_char_nonzero\<close>)
  have mp: "map (itoa a b) [0..<length ds] = map digit_char ds"
    unfolding b' by (rule nth_equalityI) (simp_all add: stored_def)
  have "perror a b = Some (map digit_char ds)" by (simp add: perror_def st mp)
  moreover have "\<forall>j > length ds. itoa a b j = b j" unfolding b' by (simp add: stored_def)
  moreover have "0 \<le> a \<longrightarrow> int (digits_value 10 (rev ds)) = a \<and> (hd ds = 0 \<longrightarrow> ds = [0])"
    using decimal_props(4,5) [of "nat a"] by (simp add: ds_def)
  ultimately show ?thesis using st mp lt len unfolding Let_def ds_def [symmetric] by blast
qed

theorem itoa_decimal_witness:
  "perror 2025 (\<lambda>_. 0xAA) = Some (map of_char ''2025'')"
proof -
  have "int32 2025" by (simp add: int32_def)
  moreover have "decimal (nat 2025) = [2, 0, 2, 5]" by (simp add: decimal_def digits.simps)
  ultimately show ?thesis using itoa_decimal [of 2025 "\<lambda>_. 0xAA"] by (simp add: Let_def digit_char_def)
qed

text \<open>\<open>put_hex\<close> ends and writes the hexadecimal digits of its argument, highest first, without leading
  zeros; there are at most 8, so the buffer of 16 bytes is never exceeded.\<close>

theorem put_hex_digits:
  "let ds = (if num = 0 then [0] else rev (digits 16 (unat num))) in
    put_hex num b = map (\<lambda>d. hex_chars ! d) ds \<and> length ds \<le> 8 \<and> digits_value 16 (rev ds) = unat num \<and>
    (\<forall>d \<in> set ds. d < 16) \<and> (num \<noteq> 0 \<longrightarrow> hd ds \<noteq> 0)"
proof (cases "num = 0")
  case True
  then show ?thesis by (simp add: put_hex_def hex_chars_def digits_value_def)
next
  case False
  let ?ds = "digits 16 (unat num)"
  have "put_hex num b = map (\<lambda>d. hex_chars ! d) (rev ?ds)"
    using False put_hex_out_eq [of "map (\<lambda>d. hex_chars ! d) ?ds" b]
    by (simp add: put_hex_def put_hex_loop_eq rev_map)
  moreover have "unat num < 16 ^ 8" using unat_word32_less [of num] by simp
  then have "length ?ds \<le> 8" by (rule digits_length) simp
  moreover have "hd (rev ?ds) \<noteq> 0" using digits_last [of 16 "unat num"] False by (simp add: hd_rev unat_gt_0)
  ultimately show ?thesis
    using False digits_value_digits [of 16 "unat num"] digits_less [of 16 _ "unat num"] by (simp add: Let_def)
qed

theorem put_hex_digits_witness: "put_hex 0x2AF (\<lambda>_. 0) = map of_char ''2AF''"
proof -
  have "rev (digits 16 (unat (0x2AF :: DWord))) = [2, 10, 15]" by (simp add: digits.simps)
  then show ?thesis using put_hex_digits [of "0x2AF" "\<lambda>_. 0"] by (simp add: Let_def hex_chars_def)
qed

end
