(* ===== verification/Zeos_User.thy ===== *)
theory Zeos_User
  imports Zeos_Io
begin

text \<open>
  The screens and figures of the user program \<open>user.c\<close>: the character arrays, row by row, and the
  \<open>Sprite\<close> objects over them. Drawing one with \<open>spriteDraw\<close> (\<open>io.c\<close>) is shown to put exactly its
  characters on the screen.
\<close>

section \<open>Character arrays\<close>

definition spriteMarco :: string where
  "spriteMarco = concat [
    ''MMMMMMMMMMMMMMMMMMMMMMMMMMMMMMMMMMMMMMMMMMMMMMMMMMMMMMMMMMMMMMMMMMMMMMMMMMMMMMMM'',
    ''M                                                                              M'',
    ''M                                                                              M'',
    ''M                                                                              M'',
    ''M                                                                              M'',
    ''M                                                                              M'',
    ''M                                                                              M'',
    ''M                                                                              M'',
    ''M                                                                              M'',
    ''M                                                                              M'',
    ''M                                                                              M'',
    ''M                                                                              M'',
    ''M                                                                              M'',
    ''M                                                                              M'',
    ''M                                                                              M'',
    ''M                                                                              M'',
    ''M                                                                              M'',
    ''M                                                                              M'',
    ''M                                                                              M'',
    ''M                                                                              M'',
    ''M                                                                              M'',
    ''M                                                                              M'',
    ''M SCORE:                                                                       M'',
    ''M                                                                              M'',
    ''MMMMMMMMMMMMMMMMMMMMMMMMMMMMMMMMMMMMMMMMMMMMMMMMMMMMMMMMMMMMMMMMMMMMMMMMMMMMMMMM'']"

definition GO :: string where
  "GO = concat [
    ''MMMMMMMMMMMMMMMMMMMMMMMMMMMMMMMMMMMMMMMMMMMMMMMMMMMMMMMMMMMMMMMMMMMMMMMMMMMMMMMM'',
    ''M                                                                              M'',
    ''M                                                                              M'',
    ''M                                                                              M'',
    ''M                                                                              M'',
    ''M                                                                              M'',
    ''M    ####     ####    #        w:up               ####      ####     ####      M'',
    ''M   #    #   #    #   #                          #    #    #    #   #    #     M'',
    ''M   #        #    #   #        s:down            #         #    #   #    #     M'',
    ''M   #        #    #   #                          #         #    #   #    #     M'',
    ''M   #        #    #   #        a:front           #         #    #   #    #     M'',
    ''M   #        #    #   #                           ####     #    #   ######     M'',
    ''M   #  ##    #    #   #        d:shoot                #    #    #   #    #     M'',
    ''M   #    #   #    #   #                               #    #    #   #    #     M'',
    ''M   #    #   #    #   #        q:dup                  #    #    #   #    #     M'',
    ''M   #    #   #    #                              #    #    #    #   #    #     M'',
    ''M    ####     ####    #        z:ddown            ####      ####    #    #     M'',
    ''M                                                                              M'',
    ''M                                                                              M'',
    ''M                                                                              M'',
    ''M   ALEIX & AXEL PRESENTS: ALIEN MASSACRE                                      M'',
    ''M                                                                              M'',
    ''M                                                                              M'',
    ''M                                                                              M'',
    ''MMMMMMMMMMMMMMMMMMMMMMMMMMMMMMMMMMMMMMMMMMMMMMMMMMMMMMMMMMMMMMMMMMMMMMMMMMMMMMMM'']"

definition LOSE :: string where
  "LOSE = concat [
    ''MMMMMMMMMMMMMMMMMMMMMMMMMMMMMMMMMMMMMMMMMMMMMMMMMMMMMMMMMMMMMMMMMMMMMMMMMMMMMMMM'',
    ''M                                                                              M'',
    ''M                                                                              M'',
    ''M                                                                              M'',
    ''M                                                                              M'',
    ''M                                                                              M'',
    ''M   #          ####      ####     ######   #                                   M'',
    ''M   #         #    #    #    #    #        #                                   M'',
    ''M   #         #    #    #         #        #                                   M'',
    ''M   #         #    #    #         #        #                                   M'',
    ''M   #         #    #    #         #        #       PRESS c TO END              M'',
    ''M   #         #    #     ####     ######   #                                   M'',
    ''M   #         #    #         #    #        #                                   M'',
    ''M   #         #    #         #    #        #                                   M'',
    ''M   #         #    #         #    #        #                                   M'',
    ''M   #         #    #    #    #    #                                            M'',
    ''M   ######     ####      ####     ######   #                                   M'',
    ''M                                                                              M'',
    ''M                                                                              M'',
    ''M                                                                              M'',
    ''M                                                                              M'',
    ''M                                                                              M'',
    ''M                                                                              M'',
    ''M                                                                              M'',
    ''MMMMMMMMMMMMMMMMMMMMMMMMMMMMMMMMMMMMMMMMMMMMMMMMMMMMMMMMMMMMMMMMMMMMMMMMMMMMMMMM'']"

definition WIN :: string where
  "WIN = concat [
    ''MMMMMMMMMMMMMMMMMMMMMMMMMMMMMMMMMMMMMMMMMMMMMMMMMMMMMMMMMMMMMMMMMMMMMMMMMMMMMMMM'',
    ''M                                                                              M'',
    ''M                                                                              M'',
    ''M                                                                              M'',
    ''M                                                                              M'',
    ''M                                                                              M'',
    ''M   #    #    #    #    #    #                                                 M'',
    ''M   #    #    #    ##   #    #                                                 M'',
    ''M   #    #         #    #    #                                                 M'',
    ''M   #    #    #    # #  #    #                                                 M'',
    ''M   #    #    #    #    #    #                     PRESS c TO END              M'',
    ''M   #    #    #    #  # #    #                                                 M'',
    ''M   # ## #    #    #    #    #                                                 M'',
    ''M   # ## #    #    #   ##    #                                                 M'',
    ''M   # ## #    #    #    #    #                                                 M'',
    ''M   # ## #    #    #    #                                                      M'',
    ''M   ######    #    #    #    #                                                 M'',
    ''M                                                                              M'',
    ''M                                                                              M'',
    ''M                                                                              M'',
    ''M                                                                              M'',
    ''M                                                                              M'',
    ''M                                                                              M'',
    ''M                                                                              M'',
    ''MMMMMMMMMMMMMMMMMMMMMMMMMMMMMMMMMMMMMMMMMMMMMMMMMMMMMMMMMMMMMMMMMMMMMMMMMMMMMMMM'']"

definition spriteAlien :: string where
  "spriteAlien = concat [
    ''A A'',
    '' A '']"

definition eraseAlien :: string where
  "eraseAlien = concat [
    ''   '',
    ''   '']"

definition AspriteCannon :: string where
  "AspriteCannon = concat [
    '' - - -'']"

definition eraseAspriteCannon :: string where
  "eraseAspriteCannon = concat [
    ''      '']"

definition SspriteCannon :: string where
  "SspriteCannon = concat [
    ''  /'',
    '' / '',
    ''/  '']"

definition eraseSspriteCannon :: string where
  "eraseSspriteCannon = concat [
    ''   '',
    ''   '',
    ''   '']"

definition WspriteCannon :: string where
  "WspriteCannon = concat [
    [CHR 0x5C, CHR '' '', CHR '' ''],
    [CHR '' '', CHR 0x5C, CHR '' ''],
    [CHR '' '', CHR '' '', CHR 0x5C]]"

definition eraseWspriteCannon :: string where
  "eraseWspriteCannon = concat [
    ''   '',
    ''   '',
    ''   '']"

definition spriteBullet :: string where
  "spriteBullet = concat [
    ''<<<'']"

definition erasespriteBullet :: string where
  "erasespriteBullet = concat [
    ''   '']"

lemmas content_defs = spriteMarco_def GO_def LOSE_def WIN_def spriteAlien_def eraseAlien_def AspriteCannon_def eraseAspriteCannon_def SspriteCannon_def eraseSspriteCannon_def WspriteCannon_def eraseWspriteCannon_def spriteBullet_def erasespriteBullet_def

section \<open>Sprites\<close>

text \<open>\<open>Sprite\<close> of \<open>include/io.h\<close>: \<open>x\<close> is the number of rows and \<open>y\<close> the number of columns.\<close>

record Sprite =
  spr_x :: int
  spr_y :: int
  spr_content :: string

definition marcoSprite :: Sprite where
  "marcoSprite = \<lparr>spr_x = 25, spr_y = 80, spr_content = spriteMarco\<rparr>"

definition goSprite :: Sprite where
  "goSprite = \<lparr>spr_x = 25, spr_y = 80, spr_content = GO\<rparr>"

definition loseSprite :: Sprite where
  "loseSprite = \<lparr>spr_x = 25, spr_y = 80, spr_content = LOSE\<rparr>"

definition winSprite :: Sprite where
  "winSprite = \<lparr>spr_x = 25, spr_y = 80, spr_content = WIN\<rparr>"

definition alienSprite :: Sprite where
  "alienSprite = \<lparr>spr_x = 2, spr_y = 3, spr_content = spriteAlien\<rparr>"

definition erasealienSprite :: Sprite where
  "erasealienSprite = \<lparr>spr_x = 2, spr_y = 3, spr_content = eraseAlien\<rparr>"

definition AcannonSprite :: Sprite where
  "AcannonSprite = \<lparr>spr_x = 1, spr_y = 6, spr_content = AspriteCannon\<rparr>"

definition eraseAcannonSprite :: Sprite where
  "eraseAcannonSprite = \<lparr>spr_x = 1, spr_y = 6, spr_content = eraseAspriteCannon\<rparr>"

definition ScannonSprite :: Sprite where
  "ScannonSprite = \<lparr>spr_x = 3, spr_y = 3, spr_content = SspriteCannon\<rparr>"

definition eraseScannonSprite :: Sprite where
  "eraseScannonSprite = \<lparr>spr_x = 3, spr_y = 3, spr_content = eraseSspriteCannon\<rparr>"

definition WcannonSprite :: Sprite where
  "WcannonSprite = \<lparr>spr_x = 3, spr_y = 3, spr_content = WspriteCannon\<rparr>"

definition eraseWcannonSprite :: Sprite where
  "eraseWcannonSprite = \<lparr>spr_x = 3, spr_y = 3, spr_content = eraseWspriteCannon\<rparr>"

definition bulletSprite :: Sprite where
  "bulletSprite = \<lparr>spr_x = 1, spr_y = 3, spr_content = spriteBullet\<rparr>"

definition erasebulletSprite :: Sprite where
  "erasebulletSprite = \<lparr>spr_x = 1, spr_y = 3, spr_content = erasespriteBullet\<rparr>"

lemmas sprite_defs = marcoSprite_def goSprite_def loseSprite_def winSprite_def alienSprite_def erasealienSprite_def AcannonSprite_def eraseAcannonSprite_def ScannonSprite_def eraseScannonSprite_def WcannonSprite_def eraseWcannonSprite_def bulletSprite_def erasebulletSprite_def

definition user_sprites :: "Sprite list" where
  "user_sprites = [marcoSprite, goSprite, loseSprite, winSprite, alienSprite,
     erasealienSprite, AcannonSprite, eraseAcannonSprite, ScannonSprite, eraseScannonSprite,
     WcannonSprite, eraseWcannonSprite, bulletSprite, erasebulletSprite]"

section \<open>Well-formed sprites\<close>

text \<open>The content fills the rectangle, and no character is a zero byte or a newline.\<close>

definition sprite_wf :: "Sprite \<Rightarrow> bool" where
  "sprite_wf S \<longleftrightarrow> 0 < spr_x S \<and> spr_x S \<le> int NUM_ROWS \<and> 0 < spr_y S \<and> spr_y S \<le> int NUM_COLUMNS \<and>
     int (length (spr_content S)) = spr_x S * spr_y S \<and>
     list_all (\<lambda>c. c \<noteq> CHR 0x00 \<and> c \<noteq> CHR 0x0A) (spr_content S)"

lemma marcoSprite_wf: "sprite_wf marcoSprite"
  by (simp add: sprite_wf_def marcoSprite_def spriteMarco_def NUM_ROWS_def NUM_COLUMNS_def)

lemma goSprite_wf: "sprite_wf goSprite"
  by (simp add: sprite_wf_def goSprite_def GO_def NUM_ROWS_def NUM_COLUMNS_def)

lemma loseSprite_wf: "sprite_wf loseSprite"
  by (simp add: sprite_wf_def loseSprite_def LOSE_def NUM_ROWS_def NUM_COLUMNS_def)

lemma winSprite_wf: "sprite_wf winSprite"
  by (simp add: sprite_wf_def winSprite_def WIN_def NUM_ROWS_def NUM_COLUMNS_def)

lemma alienSprite_wf: "sprite_wf alienSprite"
  by (simp add: sprite_wf_def alienSprite_def spriteAlien_def NUM_ROWS_def NUM_COLUMNS_def)

lemma erasealienSprite_wf: "sprite_wf erasealienSprite"
  by (simp add: sprite_wf_def erasealienSprite_def eraseAlien_def NUM_ROWS_def NUM_COLUMNS_def)

lemma AcannonSprite_wf: "sprite_wf AcannonSprite"
  by (simp add: sprite_wf_def AcannonSprite_def AspriteCannon_def NUM_ROWS_def NUM_COLUMNS_def)

lemma eraseAcannonSprite_wf: "sprite_wf eraseAcannonSprite"
  by (simp add: sprite_wf_def eraseAcannonSprite_def eraseAspriteCannon_def NUM_ROWS_def NUM_COLUMNS_def)

lemma ScannonSprite_wf: "sprite_wf ScannonSprite"
  by (simp add: sprite_wf_def ScannonSprite_def SspriteCannon_def NUM_ROWS_def NUM_COLUMNS_def)

lemma eraseScannonSprite_wf: "sprite_wf eraseScannonSprite"
  by (simp add: sprite_wf_def eraseScannonSprite_def eraseSspriteCannon_def NUM_ROWS_def NUM_COLUMNS_def)

lemma WcannonSprite_wf: "sprite_wf WcannonSprite"
  by (simp add: sprite_wf_def WcannonSprite_def WspriteCannon_def NUM_ROWS_def NUM_COLUMNS_def)

lemma eraseWcannonSprite_wf: "sprite_wf eraseWcannonSprite"
  by (simp add: sprite_wf_def eraseWcannonSprite_def eraseWspriteCannon_def NUM_ROWS_def NUM_COLUMNS_def)

lemma bulletSprite_wf: "sprite_wf bulletSprite"
  by (simp add: sprite_wf_def bulletSprite_def spriteBullet_def NUM_ROWS_def NUM_COLUMNS_def)

lemma erasebulletSprite_wf: "sprite_wf erasebulletSprite"
  by (simp add: sprite_wf_def erasebulletSprite_def erasespriteBullet_def NUM_ROWS_def NUM_COLUMNS_def)

lemma user_sprites_wf: "S \<in> set user_sprites \<Longrightarrow> sprite_wf S"
  unfolding user_sprites_def
  by (auto simp: marcoSprite_wf goSprite_wf loseSprite_wf winSprite_wf alienSprite_wf erasealienSprite_wf AcannonSprite_wf
      eraseAcannonSprite_wf ScannonSprite_wf eraseScannonSprite_wf WcannonSprite_wf eraseWcannonSprite_wf bulletSprite_wf
      erasebulletSprite_wf)

text \<open>User memory that holds a sprite at an address the kernel accepts.\<close>

definition holds_sprite :: "(ptr \<Rightarrow> Byte) \<Rightarrow> ptr \<Rightarrow> Sprite \<Rightarrow> bool" where
  "holds_sprite um sp S \<longleftrightarrow> access_ok 0 sp 12 None \<and> sp \<noteq> 0 \<and> sprite_content um sp \<noteq> 0 \<and>
     sprite_x um sp = spr_x S \<and> sprite_y um sp = spr_y S \<and>
     (\<forall>k<length (spr_content S). um (sprite_content um sp + of_nat k) = of_char (spr_content S ! k))"

lemma sprite_char_content:
  assumes "sprite_wf S" "holds_sprite um sp S" "0 \<le> r" "r < spr_x S" "0 \<le> c" "c < spr_y S"
  shows "nat (r * spr_y S + c) < length (spr_content S)"
    and "sprite_char um sp (r, c) = of_char (spr_content S ! nat (r * spr_y S + c))"
proof -
  have "r * spr_y S + c < (r + 1) * spr_y S" using assms(6) by (simp add: algebra_simps)
  also have "\<dots> \<le> spr_x S * spr_y S" using assms by (intro mult_right_mono) auto
  also have "\<dots> = int (length (spr_content S))" using assms(1) by (simp add: sprite_wf_def)
  finally have lt: "r * spr_y S + c < int (length (spr_content S))" .
  have nn: "0 \<le> r * spr_y S + c" using assms by simp
  with lt show k: "nat (r * spr_y S + c) < length (spr_content S)" by simp
  have "(word_of_int (r * spr_y S + c) :: ptr) = of_nat (nat (r * spr_y S + c))" using nn by simp
  then show "sprite_char um sp (r, c) = of_char (spr_content S ! nat (r * spr_y S + c))"
    using assms(2) k by (simp add: sprite_char_def holds_sprite_def)
qed

lemma of_char_zero_newline: "(of_char c :: Byte) = 0 \<longleftrightarrow> c = CHR 0x00" "(of_char c :: Byte) = 10 \<longleftrightarrow> c = CHR 0x0A"
proof -
  have u: "unat (of_char c :: Byte) = (of_char c :: nat)" for c
  proof -
    have "(of_char c :: Byte) = of_nat (of_char c :: nat)" by (simp only: of_nat_of_char)
    then show ?thesis by (simp add: unat_of_nat)
  qed
  have "(of_char c :: Byte) = of_char d \<longleftrightarrow> c = d" for d
    by (simp only: word_unat_eq_iff u of_char_eq_iff)
  from this [of "CHR 0x00"] this [of "CHR 0x0A"]
  show "(of_char c :: Byte) = 0 \<longleftrightarrow> c = CHR 0x00" "(of_char c :: Byte) = 10 \<longleftrightarrow> c = CHR 0x0A" by simp_all
qed

lemma holds_sprite_drawable:
  assumes "sprite_wf S" "holds_sprite um sp S" "0 \<le> px" "px < int NUM_COLUMNS" "0 \<le> py" "py < int NUM_ROWS"
  shows "sprite_drawable px py sp um"
proof -
  have "sprite_char um sp rc \<notin> {0, 10}" if "rc \<in> sprite_area um sp" for rc
  proof -
    obtain r c where rc: "rc = (r, c)" by fastforce
    have "0 \<le> r" "r < spr_x S" "0 \<le> c" "c < spr_y S" using that assms(2) by (auto simp: rc sprite_area_def holds_sprite_def)
    note k = sprite_char_content [OF assms(1,2) this]
    have "spr_content S ! nat (r * spr_y S + c) \<in> set (spr_content S)" using k(1) by simp
    then show ?thesis using assms(1) k(2) by (auto simp: sprite_wf_def list_all_iff rc of_char_zero_newline)
  qed
  then show ?thesis using assms by (simp add: sprite_drawable_def holds_sprite_def sprite_wf_def)
qed

section \<open>Properties\<close>

text \<open>C35: Every sprite of the user program, held in user memory and drawn by \<open>spriteDraw\<close> where it fits on the
  screen, appears cell by cell with the characters of its array, nothing else on the screen changes
  and the call returns 0. The full-screen sprites fit at the origin.\<close>

theorem user_sprites_drawn:
  assumes "S \<in> set user_sprites" and "holds_sprite um sp S" and "0 \<le> px" and "0 \<le> py"
    and "py + spr_x S \<le> int NUM_ROWS" and "px + spr_y S \<le> int NUM_COLUMNS"
  shows "fst (spriteDraw px py sp um s) = 0 \<and>
    (let s' = snd (spriteDraw px py sp um s) in
       (\<forall>r c. 0 \<le> r \<and> r < spr_x S \<and> 0 \<le> c \<and> c < spr_y S \<longrightarrow>
          screen s' (nat (py + r) * NUM_COLUMNS + nat (px + c)) =
            char_cell s (of_char (spr_content S ! nat (r * spr_y S + c)))) \<and>
       (\<forall>k. k \<notin> (\<lambda>(r, c). nat (py + r) * NUM_COLUMNS + nat (px + c)) ` ({0..<spr_x S} \<times> {0..<spr_y S}) \<longrightarrow>
          screen s' k = screen s k))"
proof -
  have wf: "sprite_wf S" by (rule user_sprites_wf [OF assms(1)])
  then have "px < int NUM_COLUMNS" "py < int NUM_ROWS" using assms(5,6) by (auto simp: sprite_wf_def)
  then have d: "sprite_drawable px py sp um" using wf assms by (intro holds_sprite_drawable) auto
  have f: "sprite_fits px py sp um" using assms by (simp add: sprite_fits_def holds_sprite_def)
  have area: "sprite_area um sp = {0..<spr_x S} \<times> {0..<spr_y S}" using assms(2) by (simp add: sprite_area_def holds_sprite_def)
  have cell: "sprite_cell px py = (\<lambda>(r, c). nat (py + r) * NUM_COLUMNS + nat (px + c))" by (auto simp: sprite_cell_def)
  let ?s' = "snd (spriteDraw px py sp um s)"
  note c = spriteDraw_cells [OF d f, of s, unfolded Let_def area cell]
  have "screen ?s' (nat (py + r) * NUM_COLUMNS + nat (px + c)) = char_cell s (of_char (spr_content S ! nat (r * spr_y S + c)))"
    if rc: "0 \<le> r" "r < spr_x S" "0 \<le> c" "c < spr_y S" for r c
    using c rc sprite_char_content(2) [OF wf assms(2) rc] by fastforce
  with c show ?thesis by (simp add: Let_def)
qed

text \<open>A user memory with the bullet at 0x108000.\<close>

definition bullet_mem :: "ptr \<Rightarrow> Byte" where
  "bullet_mem = (\<lambda>_. 0)(0x108000 := 1, 0x108004 := 3, 0x108008 := 0x10, 0x108009 := 0x80, 0x10800A := 0x10,
     0x108010 := of_char CHR ''<'', 0x108011 := of_char CHR ''<'', 0x108012 := of_char CHR ''<'')"

lemma bullet_mem_holds: "holds_sprite bullet_mem 0x108000 bulletSprite"
proof -
  have c: "sprite_content bullet_mem 0x108000 = 0x108010"
    by (simp add: sprite_content_def rd32_def flat_rd_def bullet_mem_def)
  have xy: "sprite_x bullet_mem 0x108000 = 1" "sprite_y bullet_mem 0x108000 = 3"
    by (simp_all add: sprite_x_def sprite_y_def rd32_def flat_rd_def bullet_mem_def int_of_dword_def)
  have a: "access_ok 0 0x108000 12 None" by (simp add: access_ok_iff layout_consts)
  have "bullet_mem (0x108010 + of_nat k) = of_char (spriteBullet ! k)" if "k < length spriteBullet" for k
  proof -
    have "k = 0 \<or> k = 1 \<or> k = 2" using that by (auto simp: spriteBullet_def)
    then show ?thesis by (auto simp: bullet_mem_def spriteBullet_def)
  qed
  with c xy a show ?thesis by (simp add: holds_sprite_def bulletSprite_def)
qed

theorem user_sprites_drawn_witness:
  "screen (snd (spriteDraw 40 12 0x108000 bullet_mem (io_init (\<lambda>_. 0)))) 1002 = char_cell (io_init (\<lambda>_. 0)) 60"
proof -
  have "bulletSprite \<in> set user_sprites" by (simp add: user_sprites_def)
  moreover have "(0 :: int) \<le> 40" "(0 :: int) \<le> 12" "12 + spr_x bulletSprite \<le> int NUM_ROWS" "40 + spr_y bulletSprite \<le> int NUM_COLUMNS"
    by (simp_all add: bulletSprite_def NUM_ROWS_def NUM_COLUMNS_def)
  ultimately have "fst (spriteDraw 40 12 0x108000 bullet_mem (io_init (\<lambda>_. 0))) = 0 \<and>
      (\<forall>r c. 0 \<le> r \<and> r < spr_x bulletSprite \<and> 0 \<le> c \<and> c < spr_y bulletSprite \<longrightarrow>
        screen (snd (spriteDraw 40 12 0x108000 bullet_mem (io_init (\<lambda>_. 0)))) (nat (12 + r) * NUM_COLUMNS + nat (40 + c)) =
          char_cell (io_init (\<lambda>_. 0)) (of_char (spr_content bulletSprite ! nat (r * spr_y bulletSprite + c))))"
    using user_sprites_drawn [OF _ bullet_mem_holds, of 40 12 "io_init (\<lambda>_. 0)"] unfolding Let_def by blast
  from conjunct2 [OF this, rule_format, of 0 2] show ?thesis
    by (simp add: bulletSprite_def spriteBullet_def NUM_COLUMNS_def)
qed

end
