(* ===== verification/Zeos_Build.thy ===== *)
theory Zeos_Build
  imports Zeos_Machine
begin

text \<open>
  The image builder (\<open>build.c\<close>, a program of the development machine): it writes the boot sector, the kernel and the user
  program one after the other and patches the lengths into the result, from where \<open>main\<close> of the kernel reads them. The
  library calls \<open>open\<close>, \<open>fstat\<close>, \<open>read\<close>, \<open>write\<close> and \<open>lseek\<close> are modelled on files that other programs leave alone: a name
  stands for a regular file or a directory (which opens but cannot be read), the output has limited space and may be a pipe,
  which has no position to seek. The messages on the standard error output are left out; the one that ends the
  program is the value \<open>Inl\<close>, with what was written until then. \<open>fstat\<close> of an open file does not fail.
\<close>

section \<open>Files\<close>

datatype host_file = Regular "Byte list" | Directory nat

datatype build_error = Usage | Unable_to_open string | Unable_to_read_header string | Non_Minix_header string
  | Illegal_data_segment string | Illegal_bss_segment string | Illegal_symbol_table string | Boot_block_size | Boot_block_flag
  | Write_call_failed | Error_reading string | Unexpected_EOF string | Write_failed | Seek_failed
  | Write_of_image_length_failed | Write_of_system_length_failed | Write_of_user_length_failed

text \<open>The global variables \<open>buf\<close> and \<open>fd\<close> (the file and the position in it) and the standard output.\<close>

record builder =
  b_buf :: "Byte list"
  b_fd :: "host_file \<times> nat"
  b_out :: "Byte list"
  b_pos :: nat
  b_cap :: nat
  b_seekable :: bool

type_synonym 'a build_result = "(build_error \<times> builder) + 'a"

fun and_then :: "'e + 'a \<Rightarrow> ('a \<Rightarrow> 'e + 'b) \<Rightarrow> 'e + 'b" where
  "and_then (Inl e) f = Inl e"
| "and_then (Inr x) f = f x"

definition die_if :: "bool \<Rightarrow> build_error \<Rightarrow> builder \<Rightarrow> builder build_result" where
  "die_if b e st = (if b then Inl (e, st) else Inr st)"

definition st_size :: "host_file \<Rightarrow> nat" where
  "st_size f = (case f of Regular bs \<Rightarrow> length bs | Directory n \<Rightarrow> n)"

definition buf_put :: "Byte list \<Rightarrow> builder \<Rightarrow> builder" where
  "buf_put bs st = st\<lparr>b_buf := bs @ drop (length bs) (b_buf st)\<rparr>"

definition in_open :: "(string \<Rightarrow> host_file option) \<Rightarrow> string \<Rightarrow> builder \<Rightarrow> builder build_result" where
  "in_open files name st = (case files name of None \<Rightarrow> Inl (Unable_to_open name, st) | Some f \<Rightarrow> Inr (st\<lparr>b_fd := (f, 0)\<rparr>))"

definition in_read :: "nat \<Rightarrow> builder \<Rightarrow> int \<times> builder" where
  "in_read n st = (case b_fd st of
     (Regular bs, p) \<Rightarrow> let d = take n (drop p bs) in (int (length d), buf_put d (st\<lparr>b_fd := (Regular bs, p + length d)\<rparr>))
   | (Directory _, p) \<Rightarrow> (-1, st))"

definition overwrite :: "nat \<Rightarrow> Byte list \<Rightarrow> Byte list \<Rightarrow> Byte list" where
  "overwrite p d bs = take p bs @ replicate (p - length bs) 0 @ d @ drop (p + length d) bs"

definition out_write :: "Byte list \<Rightarrow> builder \<Rightarrow> int \<times> builder" where
  "out_write bs st =
     (let k = min (length bs) (b_cap st - b_pos st)
      in (if k = 0 \<and> bs \<noteq> [] then -1 else int k,
          st\<lparr>b_out := overwrite (b_pos st) (take k bs) (b_out st), b_pos := b_pos st + k\<rparr>))"

definition out_lseek :: "nat \<Rightarrow> builder \<Rightarrow> int \<times> builder" where
  "out_lseek n st = (if b_seekable st then (int n, st\<lparr>b_pos := n\<rparr>) else (-1, st))"

text \<open>\<open>write(1, buf, n)\<close> and \<open>lseek(1, n, SEEK_SET)\<close> with the test of their result.\<close>

definition write_buf :: "nat \<Rightarrow> build_error \<Rightarrow> builder \<Rightarrow> builder build_result" where
  "write_buf n e st = (case out_write (take n (b_buf st)) st of (k, st) \<Rightarrow> die_if (k \<noteq> int n) e st)"

definition seek_to :: "nat \<Rightarrow> builder \<Rightarrow> builder build_result" where
  "seek_to n st = (case out_lseek n st of (k, st) \<Rightarrow> die_if (k \<noteq> int n) Seek_failed st)"

section \<open>The boot sector\<close>

definition MINIX_HEADER_LEN :: nat where "MINIX_HEADER_LEN = 32"

definition minix_hdr :: "Byte list" where "minix_hdr = [0x01, 0x03, 0x10, 0x04, 0x20, 0x00, 0x00, 0x00]"

text \<open>\<open>lb[i]\<close>: the buffer as an array of 32-bit words.\<close>

definition lb :: "nat \<Rightarrow> builder \<Rightarrow> DWord" where
  "lb i st = rd32 (\<lambda>bs a. bs ! unat a) (b_buf st) (of_nat (4 * i))"

definition minix_open :: "(string \<Rightarrow> host_file option) \<Rightarrow> string \<Rightarrow> builder \<Rightarrow> builder build_result" where
  "minix_open files name st =
     and_then (in_open files name st) (\<lambda>st.
     case in_read MINIX_HEADER_LEN st of (n, st) \<Rightarrow>
     and_then (die_if (n \<noteq> int MINIX_HEADER_LEN) (Unable_to_read_header name) st) (\<lambda>st.
     and_then (die_if (take (length minix_hdr) (b_buf st) \<noteq> minix_hdr \<or> lb 5 st \<noteq> 0) (Non_Minix_header name) st) (\<lambda>st.
     and_then (die_if (lb 3 st \<noteq> 0) (Illegal_data_segment name) st) (\<lambda>st.
     and_then (die_if (lb 4 st \<noteq> 0) (Illegal_bss_segment name) st) (\<lambda>st.
     die_if (lb 7 st \<noteq> 0) (Illegal_symbol_table name) st)))))"

definition boot_block :: "(string \<Rightarrow> host_file option) \<Rightarrow> string \<Rightarrow> builder \<Rightarrow> builder build_result" where
  "boot_block files name st =
     and_then (minix_open files name st) (\<lambda>st.
     case in_read 1024 st of (i, st) \<Rightarrow>
     and_then (die_if (i \<noteq> 512) Boot_block_size st) (\<lambda>st.
     and_then (die_if (b_buf st ! 510 \<noteq> 0x55 \<or> b_buf st ! 511 \<noteq> 0xaa) Boot_block_flag st) (\<lambda>st.
     let st = st\<lparr>b_buf := (b_buf st)[508 := 0]\<rparr>;
         st = st\<lparr>b_buf := (b_buf st)[509 := 0]\<rparr>
     in write_buf 512 Write_call_failed st)))"

section \<open>The kernel and the user program\<close>

function copy_chunks :: "string \<Rightarrow> nat \<Rightarrow> builder \<Rightarrow> builder build_result" where
  "copy_chunks name sz st =
     (if sz > 0 then
        let l = (if sz > 1024 then 1024 else sz) in
        case in_read l st of (n, st) \<Rightarrow>
        and_then (die_if (n \<noteq> int l) (if n < 0 then Error_reading name else Unexpected_EOF name) st) (\<lambda>st.
        and_then (write_buf l Write_failed st) (\<lambda>st. copy_chunks name (sz - l) st))
      else Inr st)"
  by pat_completeness auto
termination
  by (relation "measure (\<lambda>(name, sz, st). sz)") auto

declare copy_chunks.simps [simp del]

definition copy_file :: "(string \<Rightarrow> host_file option) \<Rightarrow> string \<Rightarrow> builder \<Rightarrow> (DWord \<times> builder) build_result" where
  "copy_file files name st =
     and_then (in_open files name st) (\<lambda>st.
     let sz = of_nat (st_size (fst (b_fd st))) :: DWord
     in and_then (copy_chunks name (unat sz) st) (\<lambda>st. Inr (sz, st)))"

section \<open>The lengths\<close>

definition im_bytes :: "DWord \<Rightarrow> Byte list" where
  "im_bytes n = [ucast (n AND 0xff), ucast (drop_bit 8 n AND 0xff)]"

definition len_bytes :: "DWord \<Rightarrow> Byte list" where
  "len_bytes n = [ucast (n AND 0xff), ucast (drop_bit 8 n AND 0xff), ucast (drop_bit 16 n AND 0xff), 0]"

text \<open>The two versions of the builder differ in the order of the seek and the stores to the buffer, and in the last word.\<close>

definition patch :: "nat \<Rightarrow> Byte list \<Rightarrow> build_error \<Rightarrow> builder \<Rightarrow> builder build_result" where
  "patch p bs e st = and_then (seek_to p st) (\<lambda>st. write_buf (length bs) e (buf_put bs st))"

definition patch_early :: "nat \<Rightarrow> Byte list \<Rightarrow> build_error \<Rightarrow> builder \<Rightarrow> builder build_result" where
  "patch_early p bs e st = and_then (seek_to p (buf_put bs st)) (write_buf (length bs) e)"

definition build_main :: "(string \<Rightarrow> host_file option) \<Rightarrow> string list \<Rightarrow> builder \<Rightarrow> builder build_result" where
  "build_main files argv st =
     (if length argv \<noteq> 4 then Inl (Usage, st)
      else and_then (boot_block files (argv ! 1) st) (\<lambda>st.
        and_then (copy_file files (argv ! 2) st) (\<lambda>(sys_size, st).
        and_then (copy_file files (argv ! 3) st) (\<lambda>(usr_size, st).
        let im_size = (sys_size + usr_size + 15) div 16 in
        and_then (patch 500 (im_bytes im_size) Write_of_image_length_failed st) (\<lambda>st.
        and_then (patch 512 (len_bytes sys_size) Write_of_system_length_failed st) (\<lambda>st.
        and_then (patch 516 (len_bytes usr_size) Write_of_user_length_failed st) (\<lambda>st.
        patch 520 (len_bytes 0x7E1A) Write_of_user_length_failed st)))))))"

definition build_main_early :: "(string \<Rightarrow> host_file option) \<Rightarrow> string list \<Rightarrow> builder \<Rightarrow> builder build_result" where
  "build_main_early files argv st =
     (if length argv \<noteq> 4 then Inl (Usage, st)
      else and_then (boot_block files (argv ! 1) st) (\<lambda>st.
        and_then (copy_file files (argv ! 2) st) (\<lambda>(sys_size, st).
        and_then (copy_file files (argv ! 3) st) (\<lambda>(usr_size, st).
        let im_size = (sys_size + usr_size + 15) div 16 in
        and_then (patch_early 500 (im_bytes im_size) Write_of_image_length_failed st) (\<lambda>st.
        and_then (patch_early 512 (len_bytes sys_size) Write_of_system_length_failed st) (\<lambda>st.
        and_then (patch_early 516 (len_bytes usr_size) Write_of_user_length_failed st) (\<lambda>st.
        patch_early 520 (len_bytes 0x7E6A) Write_of_user_length_failed st)))))))"

section \<open>Lemmas\<close>

lemma overwrite_append: "overwrite (length bs) d bs = bs @ d"
  by (simp add: overwrite_def)

lemma length_overwrite: "p + length d \<le> length bs \<Longrightarrow> length (overwrite p d bs) = length bs"
  by (simp add: overwrite_def)

lemma nth_overwrite:
  "p + length d \<le> length bs \<Longrightarrow> i < length bs \<Longrightarrow>
   overwrite p d bs ! i = (if p \<le> i \<and> i < p + length d then d ! (i - p) else bs ! i)"
  by (auto simp: overwrite_def nth_append)

text \<open>A write of the first bytes of the buffer, at the end of the output and inside it.\<close>

lemma write_buf_ok:
  assumes "n \<le> length (b_buf st)" "b_pos st + n \<le> b_cap st"
  shows "write_buf n e st = Inr (st\<lparr>b_out := overwrite (b_pos st) (take n (b_buf st)) (b_out st), b_pos := b_pos st + n\<rparr>)"
  using assms by (auto simp: write_buf_def out_write_def die_if_def Let_def min_absorb2 min_def)

lemma patch_ok:
  assumes "b_seekable st" "p + length bs \<le> b_cap st" "length bs \<le> 1024" "length (b_buf st) = 1024"
  shows "patch p bs e st = Inr (st\<lparr>b_buf := bs @ drop (length bs) (b_buf st), b_out := overwrite p bs (b_out st), b_pos := p + length bs\<rparr>)"
    "patch_early p bs e st = patch p bs e st"
  using assms
  by (simp_all add: patch_def patch_early_def seek_to_def out_lseek_def die_if_def buf_put_def write_buf_ok)

text \<open>The loop copies the rest of the file to the end of the output.\<close>

lemma copy_chunks_ok:
  assumes "b_fd st = (Regular bs, p)" "p + sz = length bs" "b_pos st = length (b_out st)" "b_pos st + sz \<le> b_cap st"
    "length (b_buf st) = 1024"
  shows "\<exists>b. length b = 1024 \<and> copy_chunks name sz st =
    Inr (st\<lparr>b_buf := b, b_fd := (Regular bs, length bs), b_out := b_out st @ drop p bs, b_pos := b_pos st + sz\<rparr>)"
  using assms
proof (induction sz arbitrary: st p rule: less_induct)
  case (less sz)
  show ?case
  proof (cases "sz = 0")
    case True
    then show ?thesis using less.prems by (intro exI [of _ "b_buf st"]) (simp add: copy_chunks.simps)
  next
    case False
    define l where "l = (if sz > 1024 then 1024 else sz)"
    have l: "0 < l" "l \<le> sz" "l \<le> 1024" using False by (simp_all add: l_def)
    define d where "d = take l (drop p bs)"
    have d: "length d = l" "drop p bs = d @ drop (p + l) bs"
      using l less.prems(2) by (simp_all add: d_def add.commute flip: drop_drop)
    let ?st1 = "st\<lparr>b_buf := d @ drop l (b_buf st), b_fd := (Regular bs, p + l), b_out := b_out st @ d, b_pos := b_pos st + l\<rparr>"
    have rd: "in_read l st = (int l, st\<lparr>b_buf := d @ drop l (b_buf st), b_fd := (Regular bs, p + l)\<rparr>)"
      unfolding in_read_def less.prems(1) by (simp only: prod.case host_file.case Let_def buf_put_def d(1) flip: d_def) simp
    have wr: "write_buf l Write_failed (st\<lparr>b_buf := d @ drop l (b_buf st), b_fd := (Regular bs, p + l)\<rparr>) = Inr ?st1"
      using less.prems(3-5) d(1) l by (subst write_buf_ok) (simp_all add: overwrite_append)
    have step: "copy_chunks name sz st = copy_chunks name (sz - l) ?st1"
      using False by (subst copy_chunks.simps) (simp add: rd wr die_if_def flip: l_def)
    obtain b where "length b = 1024" "copy_chunks name (sz - l) ?st1 =
        Inr (?st1\<lparr>b_buf := b, b_fd := (Regular bs, length bs), b_out := b_out ?st1 @ drop (p + l) bs, b_pos := b_pos ?st1 + (sz - l)\<rparr>)"
      using less.IH [of "sz - l" ?st1 "p + l"] less.prems l d(1) by auto
    then show ?thesis using l d(2) unfolding step by (intro exI [of _ b]) simp
  qed
qed

lemma copy_file_ok:
  assumes "files name = Some (Regular bs)" "length bs < 2 ^ 32" "b_pos st = length (b_out st)" "b_pos st + length bs \<le> b_cap st"
    "length (b_buf st) = 1024"
  shows "\<exists>b. length b = 1024 \<and> copy_file files name st = Inr (of_nat (length bs),
    st\<lparr>b_buf := b, b_fd := (Regular bs, length bs), b_out := b_out st @ bs, b_pos := b_pos st + length bs\<rparr>)"
proof -
  have "unat (of_nat (length bs) :: DWord) = length bs" using assms(2) by (simp add: unat_of_nat)
  then show ?thesis using copy_chunks_ok [of "st\<lparr>b_fd := (Regular bs, 0)\<rparr>" bs 0 "length bs" name] assms
    by (fastforce simp: copy_file_def in_open_def st_size_def Let_def)
qed

text \<open>A boot sector with the header of the Minix linker.\<close>

definition minix_ok :: "Byte list \<Rightarrow> bool" where
  "minix_ok h \<longleftrightarrow> length h = 32 \<and> take 8 h = minix_hdr \<and> (\<forall>i \<in> {3, 4, 5, 7}. rd32 (\<lambda>bs a. bs ! unat a) h (of_nat (4 * i)) = 0)"

lemma length_minix_hdr: "length minix_hdr = 8"
  by (simp add: minix_hdr_def)

lemma minix_open_ok:
  assumes "files name = Some (Regular (h @ bs))" "minix_ok h" "length (b_buf st) = 1024"
  shows "minix_open files name st = Inr (st\<lparr>b_buf := h @ drop 32 (b_buf st), b_fd := (Regular (h @ bs), 32)\<rparr>)"
proof -
  let ?st = "st\<lparr>b_buf := h @ drop 32 (b_buf st), b_fd := (Regular (h @ bs), 32)\<rparr>"
  have h: "length h = 32" "take 8 h = minix_hdr" using assms(2) by (simp_all add: minix_ok_def)
  have "lb i ?st = 0" if "i \<in> {3, 4, 5, 7}" for i
    using assms(2) that by (auto simp: minix_ok_def lb_def rd32_def nth_append)
  moreover have "in_read MINIX_HEADER_LEN (st\<lparr>b_fd := (Regular (h @ bs), 0)\<rparr>) = (32, ?st)"
    using h(1) by (simp add: in_read_def buf_put_def MINIX_HEADER_LEN_def Let_def)
  ultimately show ?thesis using assms(1) h
    by (simp add: minix_open_def in_open_def die_if_def MINIX_HEADER_LEN_def length_minix_hdr)
qed

lemma boot_block_ok:
  assumes "files name = Some (Regular (h @ boot))" "minix_ok h" "length boot = 512" "boot ! 510 = 0x55" "boot ! 511 = 0xaa"
    "length (b_buf st) = 1024" "b_out st = []" "b_pos st = 0" "512 \<le> b_cap st"
  shows "\<exists>b. length b = 1024 \<and> boot_block files name st =
    Inr (st\<lparr>b_buf := b, b_fd := (Regular (h @ boot), 544), b_out := boot[508 := 0, 509 := 0], b_pos := 512\<rparr>)"
proof -
  have h: "length h = 32" using assms(2) by (simp add: minix_ok_def)
  let ?b = "boot @ drop 512 (h @ drop 32 (b_buf st))"
  have "in_read 1024 (st\<lparr>b_buf := h @ drop 32 (b_buf st), b_fd := (Regular (h @ boot), 32)\<rparr>) =
      (512, st\<lparr>b_buf := ?b, b_fd := (Regular (h @ boot), 544)\<rparr>)"
    using h assms(3) by (simp add: in_read_def buf_put_def Let_def)
  moreover have mo: "minix_open files name st = Inr (st\<lparr>b_buf := h @ drop 32 (b_buf st), b_fd := (Regular (h @ boot), 32)\<rparr>)"
    by (rule minix_open_ok) (use assms in simp_all)
  ultimately show ?thesis using assms h
    by (intro exI [of _ "?b[508 := 0, 509 := 0]"])
       (simp add: boot_block_def mo die_if_def nth_append Let_def write_buf_ok overwrite_def list_update_append)
qed

section \<open>The image\<close>

text \<open>\<open>build_input\<close>: files the builder accepts, an empty output with enough space that can be repositioned.\<close>

definition build_input :: "(string \<Rightarrow> host_file option) \<Rightarrow> string list \<Rightarrow> Byte list \<Rightarrow> Byte list \<Rightarrow> Byte list \<Rightarrow> builder \<Rightarrow> bool" where
  "build_input files argv boot sys usr st \<longleftrightarrow> length argv = 4 \<and>
     (\<exists>h. files (argv ! 1) = Some (Regular (h @ boot)) \<and> minix_ok h) \<and> length boot = 512 \<and> boot ! 510 = 0x55 \<and> boot ! 511 = 0xaa \<and>
     files (argv ! 2) = Some (Regular sys) \<and> 12 \<le> length sys \<and> length sys < 2 ^ 24 \<and>
     files (argv ! 3) = Some (Regular usr) \<and> length usr < 2 ^ 24 \<and>
     length (b_buf st) = 1024 \<and> b_out st = [] \<and> b_pos st = 0 \<and> 512 + length sys + length usr \<le> b_cap st \<and> b_seekable st"

text \<open>The output: the parts one after the other, with the two bytes of the root device cleared and the lengths patched in.\<close>

definition boot_image :: "DWord \<Rightarrow> Byte list \<Rightarrow> Byte list \<Rightarrow> Byte list \<Rightarrow> Byte list" where
  "boot_image w boot sys usr =
     (let m = of_nat (length sys); n = of_nat (length usr)
      in overwrite 520 (len_bytes w) (overwrite 516 (len_bytes n) (overwrite 512 (len_bytes m)
           (overwrite 500 (im_bytes ((m + n + 15) div 16)) (boot[508 := 0, 509 := 0] @ sys @ usr)))))"

lemma length_len_bytes [simp]: "length (len_bytes n) = 4" "length (im_bytes n) = 2"
  by (simp_all add: len_bytes_def im_bytes_def)

lemma build_main_image:
  assumes "build_input files argv boot sys usr st"
  shows "\<exists>st'. build_main files argv st = Inr st' \<and> b_out st' = boot_image 0x7E1A boot sys usr"
    "\<exists>st'. build_main_early files argv st = Inr st' \<and> b_out st' = boot_image 0x7E6A boot sys usr"
proof -
  note A = assms [unfolded build_input_def]
  have big: "length sys < 2 ^ 32" "length usr < 2 ^ 32" using A by auto
  obtain h where h: "files (argv ! 1) = Some (Regular (h @ boot))" "minix_ok h" using A by blast
  obtain st1 where st1: "boot_block files (argv ! 1) st = Inr st1" "length (b_buf st1) = 1024" "b_out st1 = boot[508 := 0, 509 := 0]"
    "b_pos st1 = 512" "b_cap st1 = b_cap st" "b_seekable st1"
    using boot_block_ok [of files "argv ! 1" h boot st] h A by auto
  obtain st2 where st2: "copy_file files (argv ! 2) st1 = Inr (of_nat (length sys), st2)" "length (b_buf st2) = 1024"
    "b_out st2 = b_out st1 @ sys" "b_pos st2 = 512 + length sys" "b_cap st2 = b_cap st" "b_seekable st2"
    using copy_file_ok [of files "argv ! 2" sys st1] A big st1 by auto
  obtain st3 where st3: "copy_file files (argv ! 3) st2 = Inr (of_nat (length usr), st3)" "length (b_buf st3) = 1024"
    "b_out st3 = boot[508 := 0, 509 := 0] @ sys @ usr" "b_cap st3 = b_cap st" "b_seekable st3"
    using copy_file_ok [of files "argv ! 3" usr st2] A big st1 st2 by auto
  have "524 \<le> b_cap st" "length argv = 4" using A by auto
  then show "\<exists>st'. build_main files argv st = Inr st' \<and> b_out st' = boot_image 0x7E1A boot sys usr"
    "\<exists>st'. build_main_early files argv st = Inr st' \<and> b_out st' = boot_image 0x7E6A boot sys usr"
    using st3(2-5)
    by (simp_all add: build_main_def build_main_early_def st1(1) [unfolded One_nat_def] st2(1) st3(1) patch_ok Let_def boot_image_def)
qed

text \<open>The bytes of the image.\<close>

lemma length_boot_image: "length boot = 512 \<Longrightarrow> 12 \<le> length sys \<Longrightarrow> length (boot_image w boot sys usr) = 512 + length sys + length usr"
  by (simp add: boot_image_def Let_def length_overwrite)

lemma nth_boot_image:
  assumes "length boot = 512" "12 \<le> length sys" "i < 512 + length sys + length usr"
  defines "m \<equiv> of_nat (length sys)" and "n \<equiv> of_nat (length usr)"
  shows "boot_image w boot sys usr ! i =
    (if i < 500 then boot ! i else if i < 502 then im_bytes ((m + n + 15) div 16) ! (i - 500) else if i < 508 then boot ! i
     else if i < 510 then 0 else if i < 512 then boot ! i else if i < 516 then len_bytes m ! (i - 512)
     else if i < 520 then len_bytes n ! (i - 516) else if i < 524 then len_bytes w ! (i - 520) else (sys @ usr) ! (i - 512))"
  using assms(1-3) by (simp add: boot_image_def Let_def nth_overwrite length_overwrite nth_append nth_list_update flip: m_def n_def)

text \<open>A length below \<open>2 ^ 24\<close> that is stored by the builder is read back as a word.\<close>

lemma rd32_len_bytes:
  assumes "\<forall>i<4. r (a + of_nat i) = len_bytes n ! i" "unat n < 2 ^ 24"
  shows "rd32 flat_rd r a = n"
proof -
  have b: "r a = len_bytes n ! 0" "r (a + 1) = len_bytes n ! 1" "r (a + 2) = len_bytes n ! 2" "r (a + 3) = len_bytes n ! 3"
    using assms(1) [rule_format, of 0] assms(1) [rule_format, of 1] assms(1) [rule_format, of 2] assms(1) [rule_format, of 3] by simp_all
  have "take_bit 24 n = n" using assms(2) by (simp add: take_bit_eq_mod word_unat_eq_iff unat_mod)
  then have hi: "\<not> bit n i" if "24 \<le> i" for i using that by (metis bit_take_bit_iff leD)
  have m: "x AND 255 = take_bit 8 x" for x :: DWord by (simp add: take_bit_eq_mask mask_eq_exp_minus_1)
  show ?thesis unfolding rd32_def flat_rd_def b
  proof (rule bit_word_eqI, goal_cases)
    case (1 i)
    consider "i < 8" | "8 \<le> i" "i < 16" | "16 \<le> i" "i < 24" | "24 \<le> i" by linarith
    then show ?case by cases (use hi in \<open>auto simp: len_bytes_def m bit_simps\<close>)
  qed
qed

text \<open>\<open>loaded_image\<close>: what the boot sector leaves in memory, the image from its second sector on at \<open>KERNEL_START\<close>.\<close>

definition loaded_image :: "Byte list \<Rightarrow> (ptr \<Rightarrow> Byte) \<Rightarrow> bool" where
  "loaded_image img r \<longleftrightarrow> (\<forall>i < length img - 512. r (of_nat (KERNEL_START + i)) = img ! (512 + i))"

lemma loaded_image_words:
  assumes b: "length boot = 512" "12 \<le> length sys" "length sys < 2 ^ 24" "length usr < 2 ^ 24" "unat w < 2 ^ 24"
    and ld: "loaded_image (boot_image w boot sys usr) r"
  shows "rd32 flat_rd r (of_nat KERNEL_START) = of_nat (length sys)" "rd32 flat_rd r (of_nat (KERNEL_START + 4)) = of_nat (length usr)"
    "rd32 flat_rd r (of_nat (KERNEL_START + 8)) = w" "k < length usr \<Longrightarrow> r (of_nat (KERNEL_START + length sys + k)) = usr ! k"
proof -
  have r: "r (of_nat (KERNEL_START + i)) = boot_image w boot sys usr ! (512 + i)" if "i < length sys + length usr" for i
    using ld that b(1,2) by (simp add: loaded_image_def length_boot_image)
  have u: "unat (of_nat (length sys) :: DWord) < 2 ^ 24" "unat (of_nat (length usr) :: DWord) < 2 ^ 24"
    using b(3,4) by (simp_all add: unat_of_nat)
  have a: "of_nat (KERNEL_START + x) + of_nat i = (of_nat (KERNEL_START + (x + i)) :: ptr)" for x i by simp
  show "rd32 flat_rd r (of_nat KERNEL_START) = of_nat (length sys)"
    by (rule rd32_len_bytes [OF _ u(1)]) (use a [of 0] r b(1,2) nth_boot_image [OF b(1,2)] in \<open>simp del: of_nat_add\<close>)
  show "rd32 flat_rd r (of_nat (KERNEL_START + 4)) = of_nat (length usr)"
    by (rule rd32_len_bytes [OF _ u(2)]) (use a [of 4] r b(1,2) nth_boot_image [OF b(1,2)] in \<open>simp del: of_nat_add\<close>)
  show "rd32 flat_rd r (of_nat (KERNEL_START + 8)) = w"
    by (rule rd32_len_bytes [OF _ b(5)]) (use a [of 8] r b(1,2) nth_boot_image [OF b(1,2)] in \<open>simp del: of_nat_add\<close>)
  show "r (of_nat (KERNEL_START + length sys + k)) = usr ! k" if "k < length usr"
    using r [of "length sys + k"] b(1,2) nth_boot_image [OF b(1,2), of "512 + (length sys + k)" usr w] that
    by (simp add: add.assoc nth_append del: of_nat_add)
qed

section \<open>Refusals\<close>

text \<open>Wrong arguments, a missing file, a boot sector of the wrong size or without its mark end the builder with the error,
  and nothing of the kernel has been written.\<close>

lemma build_main_refuses:
  shows "length argv \<noteq> 4 \<Longrightarrow> build_main files argv st = Inl (Usage, st)"
    and "length argv = 4 \<Longrightarrow> files (argv ! 1) = None \<Longrightarrow> build_main files argv st = Inl (Unable_to_open (argv ! 1), st)"
    and "length argv = 4 \<Longrightarrow> files (argv ! 1) = Some (Directory n) \<Longrightarrow>
      build_main files argv st = Inl (Unable_to_read_header (argv ! 1), st\<lparr>b_fd := (Directory n, 0)\<rparr>)"
    and "length argv = 4 \<Longrightarrow> files (argv ! 1) = Some (Regular (h @ boot)) \<Longrightarrow> minix_ok h \<Longrightarrow> length (b_buf st) = 1024 \<Longrightarrow> length boot \<noteq> 512 \<Longrightarrow>
      \<exists>st'. build_main files argv st = Inl (Boot_block_size, st') \<and> b_out st' = b_out st"
proof -
  show "length argv \<noteq> 4 \<Longrightarrow> build_main files argv st = Inl (Usage, st)"
    "length argv = 4 \<Longrightarrow> files (argv ! 1) = None \<Longrightarrow> build_main files argv st = Inl (Unable_to_open (argv ! 1), st)"
    "length argv = 4 \<Longrightarrow> files (argv ! 1) = Some (Directory n) \<Longrightarrow>
      build_main files argv st = Inl (Unable_to_read_header (argv ! 1), st\<lparr>b_fd := (Directory n, 0)\<rparr>)"
    by (simp_all add: build_main_def boot_block_def minix_open_def in_open_def in_read_def die_if_def MINIX_HEADER_LEN_def)
  assume a: "length argv = 4" "files (argv ! 1) = Some (Regular (h @ boot))" "minix_ok h" "length (b_buf st) = 1024" "length boot \<noteq> 512"
  have "length h = 32" "min (length boot) 1024 \<noteq> 512" using a(3,5) by (simp_all add: minix_ok_def min_def)
  then show "\<exists>st'. build_main files argv st = Inl (Boot_block_size, st') \<and> b_out st' = b_out st"
    using a(1) minix_open_ok [of files "argv ! 1" h boot st, OF a(2-4), unfolded One_nat_def]
    by (simp add: build_main_def boot_block_def in_read_def Let_def buf_put_def die_if_def)
qed

section \<open>Properties\<close>

text \<open>C40: From the files to the first user instruction. The builder writes an image of the size of its parts that keeps the boot
  sector but for the image length and the root device; once the boot sector has loaded the rest of the image at
  \<open>KERNEL_START\<close>, and if kernel and user program fit below the user pages, \<open>main\<close> of the kernel finds the lengths and
  starts the user program, with every byte of the file of the user program at its place in the address space of the first process.
  The earlier version of the builder writes the same image but for the word at 520.\<close>

theorem built_image_boots:
  assumes b: "build_input files argv boot sys usr st"
    and L: "symtab_ok L" and sh: "\<And>M. \<exists>i. set_handlers M = M\<lparr>idt := i\<rparr>" and pm: "length (phys_mem (mm (kern M))) = TOTAL_PAGES"
    and fit: "KERNEL_START + length sys + length usr \<le> L_USER_START" "length usr + 4 \<le> (NUM_PAG_CODE + NUM_PAG_DATA) * PAGE_SIZE"
    and g: "\<not> guard_page L 16" "\<forall>p \<in> block_pages (of_nat (KERNEL_START + length sys)) (length usr). \<not> guard_page L p"
  shows "\<exists>st' st2. build_main files argv st = Inr st' \<and> build_main_early files argv st = Inr st2 \<and>
    length (b_out st') = 512 + length sys + length usr \<and>
    (\<forall>i<512. i \<notin> {500, 501, 508, 509} \<longrightarrow> b_out st' ! i = boot ! i) \<and>
    (\<forall>i < length (b_out st'). i \<notin> {520..<524} \<longrightarrow> b_out st2 ! i = b_out st' ! i) \<and>
    (loaded_image (b_out st') (ram (kern M)) \<longrightarrow> (\<exists>M'. system_main set_handlers L E M = Some M' \<and> eip M' = of_nat L_USER_START \<and>
      (\<forall>k < length usr. user_view (kern M') (of_nat L_USER_START + of_nat k) = usr ! k)))"
proof -
  note B = b [unfolded build_input_def]
  have len: "length boot = 512" "12 \<le> length sys" "length sys < 2 ^ 24" "length usr < 2 ^ 24" using B by simp_all
  obtain st' st2 where st: "build_main files argv st = Inr st'" "build_main_early files argv st = Inr st2"
    "b_out st' = boot_image 0x7E1A boot sys usr" "b_out st2 = boot_image 0x7E6A boot sys usr"
    using build_main_image [OF b] by blast
  have boots: "\<exists>M'. system_main set_handlers L E M = Some M' \<and> eip M' = of_nat L_USER_START \<and>
      (\<forall>k < length usr. user_view (kern M') (of_nat L_USER_START + of_nat k) = usr ! k)"
    if ld: "loaded_image (b_out st') (ram (kern M))"
  proof -
    note w = loaded_image_words [OF len _ ld [unfolded st(3)], simplified]
    have im: "image_ok L (length sys) (length usr) (ram (kern M))" using w(1,2) fit g by (simp add: image_ok_def)
    show ?thesis by (rule system_main_eq [OF L sh pm im, of E]) (use w(4) in \<open>simp add: add.assoc\<close>)
  qed
  have "\<forall>i<512. i \<notin> {500, 501, 508, 509} \<longrightarrow> b_out st' ! i = boot ! i"
    "\<forall>i < 512 + length sys + length usr. i \<notin> {520..<524} \<longrightarrow> b_out st2 ! i = b_out st' ! i"
    unfolding st(3,4) using len(1,2) by (auto simp: nth_boot_image)
  with st boots len(1,2) show ?thesis by (simp add: length_boot_image)
qed

theorem built_image_boots_witness:
  "\<exists>st' M'. build_main [''bootsect'' \<mapsto> Regular (minix_hdr @ replicate 24 0 @ replicate 510 0 @ [0x55, 0xaa]),
        ''system.out'' \<mapsto> Regular (replicate 4096 0), ''user.out'' \<mapsto> Regular (replicate 100 0x90)]
      [''build'', ''bootsect'', ''system.out'', ''user.out'']
      \<lparr>b_buf = replicate 1024 0, b_fd = (Regular [], 0), b_out = [], b_pos = 0, b_cap = 1474560, b_seekable = True\<rparr> = Inr st' \<and>
    system_main (\<lambda>M. M) example_symtab \<lparr>sym_tss = 0x15000, sym_idt = 0x15100, sym_clock_handler = 0x12000,
      sym_keyboard_handler = 0x12100, sym_system_call_handler = 0x12200\<rparr>
      (raw_machine\<lparr>kern := (kern raw_machine)\<lparr>ram := \<lambda>a. b_out st' ! (512 + (unat a - KERNEL_START))\<rparr>\<rparr>) = Some M' \<and>
    user_view (kern M') 0x100005 = 0x90"
proof -
  let ?files = "[''bootsect'' \<mapsto> Regular (minix_hdr @ replicate 24 0 @ replicate 510 0 @ [0x55, 0xaa]),
    ''system.out'' \<mapsto> Regular (replicate 4096 0), ''user.out'' \<mapsto> Regular (replicate 100 0x90)]"
    and ?argv = "[''build'', ''bootsect'', ''system.out'', ''user.out'']"
    and ?st = "\<lparr>b_buf = replicate 1024 0, b_fd = (Regular [], 0), b_out = [], b_pos = 0, b_cap = 1474560, b_seekable = True\<rparr>"
    and ?E = "\<lparr>sym_tss = 0x15000, sym_idt = 0x15100, sym_clock_handler = 0x12000, sym_keyboard_handler = 0x12100, sym_system_call_handler = 0x12200\<rparr>"
    and ?M = "\<lambda>st. raw_machine\<lparr>kern := (kern raw_machine)\<lparr>ram := \<lambda>a. b_out st ! (512 + (unat a - KERNEL_START))\<rparr>\<rparr>"
    and ?usr = "replicate 100 (0x90 :: Byte)" and ?boot = "replicate 510 0 @ [0x55, 0xaa] :: Byte list"
  have h: "minix_ok (minix_hdr @ replicate 24 0)"
    by (simp add: minix_ok_def minix_hdr_def rd32_def nth_append)
  have f: "?files (?argv ! 1) = Some (Regular ((minix_hdr @ replicate 24 0) @ ?boot))"
    "?files (?argv ! 2) = Some (Regular (replicate 4096 0))" "?files (?argv ! 3) = Some (Regular ?usr)" by simp_all
  have in': "build_input ?files ?argv ?boot (replicate 4096 0) ?usr ?st"
    unfolding build_input_def f(2,3) using f(1) h by (intro conjI exI [of _ "minix_hdr @ replicate 24 0"]) (simp_all add: nth_append)
  have bp: "block_pages (of_nat (KERNEL_START + length (replicate 4096 (0::Byte)))) (length ?usr) = {17}"
    by (auto simp: block_pages_def KERNEL_START_def)
  have g: "\<not> guard_page example_symtab 16" "\<not> guard_page example_symtab 17"
    by (simp_all add: guard_page_def protected_tasks_def example_symtab_def PAGE_SIZE_def)
  have i: "\<exists>i. M = M\<lparr>idt := i\<rparr>" for M :: machine by (rule exI [of _ "idt M"]) simp
  have all: "\<exists>st' st2. build_main ?files ?argv ?st = Inr st' \<and> build_main_early ?files ?argv ?st = Inr st2 \<and>
    length (b_out st') = 512 + length (replicate 4096 (0::Byte)) + length ?usr \<and>
    (\<forall>i<512. i \<notin> {500, 501, 508, 509} \<longrightarrow> b_out st' ! i = ?boot ! i) \<and>
    (\<forall>i < length (b_out st'). i \<notin> {520..<524} \<longrightarrow> b_out st2 ! i = b_out st' ! i) \<and>
    (loaded_image (b_out st') (ram (kern (?M s))) \<longrightarrow> (\<exists>M'. system_main (\<lambda>M. M) example_symtab ?E (?M s) = Some M' \<and>
      eip M' = of_nat L_USER_START \<and> (\<forall>k < length ?usr. user_view (kern M') (of_nat L_USER_START + of_nat k) = ?usr ! k)))" for s
    by (rule built_image_boots [OF in' example_symtab_ok i])
       (use g bp in \<open>simp_all add: raw_machine_def zero_kstate_def KERNEL_START_def layout_consts\<close>)
  obtain st' where st': "build_main ?files ?argv ?st = Inr st'" "length (b_out st') = 512 + length (replicate 4096 (0::Byte)) + length ?usr"
    using all by blast
  have "loaded_image (b_out st') (ram (kern (?M st')))"
    using st'(2) by (simp add: loaded_image_def KERNEL_START_def unat_of_nat del: of_nat_add)
  moreover have "st'' = st'" if "build_main ?files ?argv ?st = Inr st''" for st'' using that st'(1) by (simp only: sum.inject)
  ultimately obtain M' where M': "system_main (\<lambda>M. M) example_symtab ?E (?M st') = Some M'"
      "\<forall>k < length ?usr. user_view (kern M') (of_nat L_USER_START + of_nat k) = ?usr ! k"
    using all [of st'] by metis
  have "user_view (kern M') 0x100005 = 0x90" using M'(2) [rule_format, of 5] by (simp add: L_USER_START_def)
  with st'(1) M'(1) show ?thesis by blast
qed

end
