(* ===== verification/Zeos_Early.thy ===== *)
theory Zeos_Early
  imports Zeos_Memory
begin

text \<open>
  The earlier kernel of \<open>src/zeOSpparri\<close>: its task structure, the scheduler of \<open>sched.c\<close>, and the parts of \<open>mm.c\<close>
  that differ from the later kernel because the data pages come before the code pages. It uses the same
  \<open>list.c\<close> and the same frame and page-table operations, so the theories of those apply to it. Its definitions
  carry the suffix \<open>_early\<close>. An access through a null pointer touches page 0, which is never present: it is a page
  fault, the value \<open>None\<close>.
\<close>

section \<open>Data\<close>

record task_struct_early =
  e_PID :: int
  e_dir_pages_baseAddr :: ptr
  e_kernel_esp :: ptr
  e_quantum :: int
  e_status :: state_t
  e_pending_unblocks :: int
  e_dad :: ptr

text \<open>The addresses the linker chooses.\<close>

record early_symtab =
  es_task :: ptr
  es_dir_pages :: ptr
  es_pagusr_table :: ptr
  es_freequeue :: ptr
  es_readyqueue :: ptr
  es_blocked :: ptr
  es_buffer_k :: ptr
  es_cpu_idle :: ptr
  es_ret_from_fork :: ptr

definition early_objs :: "early_symtab \<Rightarrow> (ptr \<times> nat) list" where
  "early_objs E = [(es_task E, NR_TASKS * PAGE_SIZE), (es_dir_pages E, NR_TASKS * PAGE_SIZE),
     (es_pagusr_table E, NR_TASKS * PAGE_SIZE), (es_freequeue E, 8), (es_readyqueue E, 8), (es_blocked E, 8),
     (es_buffer_k E, 256)]"

definition early_ok :: "early_symtab \<Rightarrow> bool" where
  "early_ok E \<longleftrightarrow> unat (es_task E) mod PAGE_SIZE = 0 \<and> unat (es_dir_pages E) mod PAGE_SIZE = 0 \<and>
     unat (es_pagusr_table E) mod PAGE_SIZE = 0 \<and> (\<forall>(a, n) \<in> set (early_objs E). kernel_obj a n) \<and>
     sorted_wrt (\<lambda>(a, m) (b, n). disjoint_objs a m b n) (early_objs E)"

definition example_early :: early_symtab where
  "example_early = \<lparr>es_task = 0x20000, es_dir_pages = 0x2A000, es_pagusr_table = 0x34000, es_freequeue = 0x18000,
     es_readyqueue = 0x18008, es_blocked = 0x18010, es_buffer_k = 0x18100, es_cpu_idle = 0x11000,
     es_ret_from_fork = 0x11100\<rparr>"

record early_state =
  e_links :: links
  e_tasks :: "ptr \<Rightarrow> task_struct_early"
  e_kstack :: "ptr \<Rightarrow> DWord"
  e_ram :: "ptr \<Rightarrow> Byte"
  e_mm :: mm_state
  e_con :: console
  e_idle_task :: ptr
  e_task_1 :: ptr
  qticks :: int
  sumPID :: int
  e_zeos_ticks :: DWord
  e_esp :: ptr
  e_tss_esp0 :: ptr
  e_msr_175 :: ptr

definition upd_task_early :: "ptr \<Rightarrow> (task_struct_early \<Rightarrow> task_struct_early) \<Rightarrow> early_state \<Rightarrow> early_state" where
  "upd_task_early t f s = s\<lparr>e_tasks := (e_tasks s)(t := f (e_tasks s t))\<rparr>"

definition upd_links_early :: "(links \<Rightarrow> links) \<Rightarrow> early_state \<Rightarrow> early_state" where
  "upd_links_early f s = s\<lparr>e_links := f (e_links s)\<rparr>"

definition upd_mm_early :: "(mm_state \<Rightarrow> mm_state) \<Rightarrow> early_state \<Rightarrow> early_state" where
  "upd_mm_early f s = s\<lparr>e_mm := f (e_mm s)\<rparr>"

definition put_kstack_early :: "ptr \<Rightarrow> DWord \<Rightarrow> early_state \<Rightarrow> early_state" where
  "put_kstack_early a v s = s\<lparr>e_kstack := (e_kstack s)(a := v)\<rparr>"

lemmas upd_early_defs = upd_task_early_def upd_links_early_def upd_mm_early_def put_kstack_early_def

text \<open>\<open>task[i]\<close>, and the nodes \<open>list\<close> and \<open>kids\<close> of a task, at offsets 8 and 32.\<close>

definition task_early :: "early_symtab \<Rightarrow> nat \<Rightarrow> ptr" where
  "task_early E i = es_task E + of_nat (i * PAGE_SIZE)"

definition tnode_early :: "ptr \<Rightarrow> ptr" where
  "tnode_early t = t + 8"

definition kids_early :: "ptr \<Rightarrow> ptr" where
  "kids_early t = t + 32"

definition list_head_to_task_struct_early :: "ptr \<Rightarrow> ptr" where
  "list_head_to_task_struct_early l = l - 8"

text \<open>\<open>current\<close> reads the stack pointer in its own frame, below that of the caller.\<close>

definition current_early :: "early_state \<Rightarrow> ptr" where
  "current_early s = (e_esp s - 12) AND 0xfffff000"

section \<open>Page tables\<close>

definition PAG_LOG_INIT_DATA_early :: nat where "PAG_LOG_INIT_DATA_early = L_USER_START div 2 ^ 12"
definition PAG_LOG_INIT_CODE_early :: nat where "PAG_LOG_INIT_CODE_early = PAG_LOG_INIT_DATA_early + NUM_PAG_DATA"

definition dir_pages_early :: "early_symtab \<Rightarrow> nat \<Rightarrow> ptr" where
  "dir_pages_early E i = es_dir_pages E + of_nat (i * PAGE_SIZE)"

definition pagusr_table_early :: "early_symtab \<Rightarrow> nat \<Rightarrow> ptr" where
  "pagusr_table_early E i = es_pagusr_table E + of_nat (i * PAGE_SIZE)"

definition get_DIR_early :: "ptr \<Rightarrow> early_state \<Rightarrow> ptr" where
  "get_DIR_early t s = e_dir_pages_baseAddr (e_tasks s t)"

definition get_PT_early :: "ptr \<Rightarrow> early_state \<Rightarrow> ptr" where
  "get_PT_early t s = push_bit 12 (pbase_addr (ptes (e_mm s) (e_dir_pages_baseAddr (e_tasks s t))))"

definition allocate_DIR_early :: "early_symtab \<Rightarrow> ptr \<Rightarrow> early_state \<Rightarrow> early_state" where
  "allocate_DIR_early E t s =
     (let pos = (t - es_task E) div of_nat PAGE_SIZE
      in upd_task_early t (\<lambda>T. T\<lparr>e_dir_pages_baseAddr := dir_pages_early E (unat pos)\<rparr>) s)"

definition init_dir_pages_early :: "early_symtab \<Rightarrow> mm_state \<Rightarrow> mm_state" where
  "init_dir_pages_early E m =
     fold (\<lambda>i m.
         let a = pt_slot (dir_pages_early E i) 0;
             m = pte_upd a (\<lambda>_. 0) m;
             m = pte_upd a (set_pbase_addr (drop_bit 12 (pagusr_table_early E i))) m;
             m = pte_upd a set_user m;
             m = pte_upd a set_rw m
         in pte_upd a set_present m) [0..<NR_TASKS] m"

definition init_table_pages_early :: "early_symtab \<Rightarrow> mm_state \<Rightarrow> mm_state" where
  "init_table_pages_early E m =
     fold (\<lambda>j m.
         let m = fold (\<lambda>i. pte_upd (pt_slot (pagusr_table_early E j) (of_nat i)) (\<lambda>_. 0)) [0..<TOTAL_PAGES] m
         in fold (\<lambda>i m.
              let a = pt_slot (pagusr_table_early E j) (of_nat i);
                  m = pte_upd a (set_pbase_addr (of_nat i)) m;
                  m = pte_upd a set_rw m
              in pte_upd a set_present m) [1..<NUM_PAG_KERNEL] m) [0..<NR_TASKS] m"

definition set_user_pages_early :: "ptr \<Rightarrow> mm_state \<Rightarrow> mm_state" where
  "set_user_pages_early process_PT m =
     (let m = fold (\<lambda>pag m.
                case alloc_frame m of (new_ph_pag, m) \<Rightarrow>
                  let a = pt_slot process_PT (of_nat (PAG_LOG_INIT_CODE_early + pag));
                      m = pte_upd a (\<lambda>_. 0) m;
                      m = pte_upd a (set_pbase_addr (dword_of_int new_ph_pag)) m;
                      m = pte_upd a set_user m
                  in pte_upd a set_present m) [0..<NUM_PAG_CODE] m
      in fold (\<lambda>pag m.
                case alloc_frame m of (new_ph_pag, m) \<Rightarrow>
                  let a = pt_slot process_PT (of_nat (PAG_LOG_INIT_DATA_early + pag));
                      m = pte_upd a (\<lambda>_. 0) m;
                      m = pte_upd a (set_pbase_addr (dword_of_int new_ph_pag)) m;
                      m = pte_upd a set_user m;
                      m = pte_upd a set_rw m
                  in pte_upd a set_present m) [0..<NUM_PAG_DATA] m)"

definition init_mm_early :: "early_symtab \<Rightarrow> early_state \<Rightarrow> early_state" where
  "init_mm_early E s =
     (let s = upd_mm_early (init_table_pages_early E) s;
          s = upd_mm_early init_frames s;
          s = upd_mm_early (init_dir_pages_early E) s;
          s = allocate_DIR_early E (task_early E 0) s;
          s = upd_mm_early (set_cr3 (get_DIR_early (task_early E 0) s)) s
      in upd_mm_early set_pe_flag s)"

section \<open>The scheduler\<close>

text \<open>\<open>update_process_state_rr\<close>; the queue is \<open>None\<close> for \<open>NULL\<close>.\<close>

definition update_process_state_rr_early :: "ptr \<Rightarrow> ptr option \<Rightarrow> early_state \<Rightarrow> early_state option" where
  "update_process_state_rr_early t dst_queue s =
     (let up = tnode_early t in
      if e_status (e_tasks s t) = ST_RUN then
        (case dst_queue of
           None \<Rightarrow> None
         | Some q \<Rightarrow>
             let s = upd_links_early (list_add_tail up q) s
             in Some (upd_task_early t (\<lambda>T. T\<lparr>e_status := ST_READY\<rparr>) s))
      else if e_status (e_tasks s t) = ST_READY then
        (if lh_next (e_links s up) = 0 \<or> lh_prev (e_links s up) = 0 then None
         else
           let s = upd_links_early (list_del up) s
           in Some (upd_task_early t (\<lambda>T. T\<lparr>e_status := ST_RUN\<rparr>) s))
      else Some s)"

text \<open>\<open>cambio_contexto\<close> (\<open>msr_func.S\<close>) saves the frame pointer of \<open>inner_task_switch\<close>, two words below the stack
  pointer of its caller, and continues on the other stack, popping \<open>ebp\<close> and the return address.\<close>

definition cambio_contexto :: "ptr \<Rightarrow> ptr \<Rightarrow> early_state \<Rightarrow> early_state" where
  "cambio_contexto t new_esp s =
     (let s = upd_task_early t (\<lambda>T. T\<lparr>e_kernel_esp := e_esp s - 8\<rparr>) s
      in s\<lparr>e_esp := new_esp + 8\<rparr>)"

definition inner_task_switch_early :: "ptr \<Rightarrow> early_state \<Rightarrow> early_state" where
  "inner_task_switch_early new s =
     (let s = s\<lparr>e_tss_esp0 := stack_slot new KERNEL_STACK_SIZE\<rparr>;
          s = s\<lparr>e_msr_175 := e_tss_esp0 s\<rparr>;
          s = upd_mm_early (set_cr3 (get_DIR_early new s)) s
      in cambio_contexto (current_early s) (e_kernel_esp (e_tasks s new)) s)"

definition sched_next_rr_early :: "early_symtab \<Rightarrow> early_state \<Rightarrow> early_state option" where
  "sched_next_rr_early E s =
     Option.bind
       (if \<not> list_empty (es_readyqueue E) (e_links s) then
          let get_head = list_first (es_readyqueue E) (e_links s);
              get_st = list_head_to_task_struct_early get_head
          in map_option (\<lambda>s. (get_st, s)) (update_process_state_rr_early get_st None s)
        else Some (e_idle_task s, s))
       (\<lambda>(get_st, s).
          let s = s\<lparr>qticks := e_quantum (e_tasks s get_st)\<rparr>
          in Some (inner_task_switch_early get_st s))"

definition needs_sched_rr_early :: "early_symtab \<Rightarrow> early_state \<Rightarrow> bool" where
  "needs_sched_rr_early E s \<longleftrightarrow>
     (qticks s = 0 \<and> \<not> list_empty (es_readyqueue E) (e_links s)) \<or> e_status (e_tasks s (current_early s)) = ST_BLOCKED"

definition update_sched_data_rr_early :: "early_state \<Rightarrow> early_state" where
  "update_sched_data_rr_early s = s\<lparr>qticks := wrap32 (qticks s - 1)\<rparr>"

definition scheduler_early :: "early_symtab \<Rightarrow> early_state \<Rightarrow> early_state option" where
  "scheduler_early E s =
     (let s = update_sched_data_rr_early s in
      if needs_sched_rr_early E s then
        Option.bind (update_process_state_rr_early (current_early s) (Some (es_readyqueue E)) s) (sched_next_rr_early E)
      else Some s)"

section \<open>Initialisation\<close>

definition init_sched_early :: "early_symtab \<Rightarrow> early_state \<Rightarrow> early_state" where
  "init_sched_early E s =
     (let s = upd_links_early (INIT_LIST_HEAD (es_freequeue E)) s;
          s = upd_links_early (INIT_LIST_HEAD (es_readyqueue E)) s;
          s = upd_links_early (INIT_LIST_HEAD (es_blocked E)) s;
          s = fold (\<lambda>i. upd_links_early (list_add (tnode_early (task_early E i)) (es_freequeue E))) [0..<NR_TASKS] s
      in s\<lparr>qticks := 1000\<rparr>)"

definition init_idle_early :: "early_symtab \<Rightarrow> early_state \<Rightarrow> early_state" where
  "init_idle_early E s =
     (let e = list_first (es_freequeue E) (e_links s);
          s = upd_links_early (list_del e) s;
          primer = list_head_to_task_struct_early e;
          s = upd_task_early primer (\<lambda>T. T\<lparr>e_PID := 0\<rparr>) s;
          s = upd_task_early primer (\<lambda>T. T\<lparr>e_quantum := 1000\<rparr>) s;
          s = upd_task_early primer (\<lambda>T. T\<lparr>e_pending_unblocks := 0\<rparr>) s;
          s = upd_task_early primer (\<lambda>T. T\<lparr>e_status := ST_READY\<rparr>) s;
          s = upd_links_early (INIT_LIST_HEAD (kids_early primer)) s;
          s = allocate_DIR_early E primer s;
          s = put_kstack_early (stack_slot primer (KERNEL_STACK_SIZE - 2)) 0 s;
          s = put_kstack_early (stack_slot primer (KERNEL_STACK_SIZE - 1)) (es_cpu_idle E) s;
          s = upd_task_early primer (\<lambda>T. T\<lparr>e_kernel_esp := stack_slot primer (KERNEL_STACK_SIZE - 2)\<rparr>) s
      in s\<lparr>e_idle_task := primer\<rparr>)"

definition init_task1_early :: "early_symtab \<Rightarrow> early_state \<Rightarrow> early_state" where
  "init_task1_early E s =
     (let l = list_first (es_freequeue E) (e_links s);
          s = upd_links_early (list_del l) s;
          primer = list_head_to_task_struct_early l;
          s = upd_task_early primer (\<lambda>T. T\<lparr>e_PID := 1\<rparr>) s;
          s = upd_task_early primer (\<lambda>T. T\<lparr>e_quantum := 1000\<rparr>) s;
          s = upd_task_early primer (\<lambda>T. T\<lparr>e_pending_unblocks := 0\<rparr>) s;
          s = upd_task_early primer (\<lambda>T. T\<lparr>e_status := ST_RUN\<rparr>) s;
          s = upd_links_early (INIT_LIST_HEAD (kids_early primer)) s;
          s = allocate_DIR_early E primer s;
          s = upd_mm_early (set_user_pages_early (get_PT_early primer s)) s;
          s = s\<lparr>e_tss_esp0 := stack_slot primer KERNEL_STACK_SIZE\<rparr>;
          s = s\<lparr>e_msr_175 := e_tss_esp0 s\<rparr>;
          s = upd_mm_early (set_cr3 (e_dir_pages_baseAddr (e_tasks s primer))) s
      in s\<lparr>e_task_1 := primer\<rparr>)"

text \<open>\<open>is_in_queue\<close>, whose loop need not end on a corrupt list.\<close>

partial_function (option) is_in_walk :: "links \<Rightarrow> ptr \<Rightarrow> ptr \<Rightarrow> ptr \<Rightarrow> bool option" where
  "is_in_walk h pos queue node =
     (if pos = queue then Some False
      else if pos = node then Some True
      else is_in_walk h (lh_next (h pos)) queue node)"

definition is_in_queue :: "ptr \<Rightarrow> ptr \<Rightarrow> early_state \<Rightarrow> bool option" where
  "is_in_queue queue node s = is_in_walk (e_links s) (lh_next (e_links s queue)) queue node"

text \<open>The part of \<open>main\<close> that sets up memory and the tasks; the first system call of the first process finds the
  stack pointer that \<open>sysenter\<close> loads, less the five words of the return frame and the eleven saved registers.\<close>

definition init_kernel_early :: "early_symtab \<Rightarrow> early_state \<Rightarrow> early_state" where
  "init_kernel_early E s = init_task1_early E (init_idle_early E (init_sched_early E (init_mm_early E s)))"

definition kernel_entry_early :: "early_state \<Rightarrow> early_state" where
  "kernel_entry_early s = s\<lparr>e_esp := e_msr_175 s - 64\<rparr>"

section \<open>Addresses\<close>

definition tasks_of_early :: "early_symtab \<Rightarrow> ptr set" where
  "tasks_of_early E = task_early E ` {..<NR_TASKS}"

definition heads_early :: "early_symtab \<Rightarrow> ptr set" where
  "heads_early E = {es_freequeue E, es_readyqueue E, es_blocked E}"

lemma heads_early_memI [simp]:
  "es_freequeue E \<in> heads_early E" "es_readyqueue E \<in> heads_early E" "es_blocked E \<in> heads_early E"
  by (simp_all add: heads_early_def)

lemma early_okD:
  assumes "early_ok E"
  shows "kernel_obj (es_task E) (10 * 4096)"
    "q \<in> heads_early E \<Longrightarrow> kernel_obj q 8"
    "q \<in> heads_early E \<Longrightarrow> disjoint_objs (es_task E) (10 * 4096) q 8"
    "es_freequeue E \<noteq> es_readyqueue E" "es_freequeue E \<noteq> es_blocked E" "es_readyqueue E \<noteq> es_blocked E"
proof -
  have k: "kernel_obj (es_task E) (10 * 4096)" "kernel_obj (es_freequeue E) 8" "kernel_obj (es_readyqueue E) 8"
    "kernel_obj (es_blocked E) 8"
    "disjoint_objs (es_task E) (10 * 4096) (es_freequeue E) 8" "disjoint_objs (es_task E) (10 * 4096) (es_readyqueue E) 8"
    "disjoint_objs (es_task E) (10 * 4096) (es_blocked E) 8" "disjoint_objs (es_freequeue E) 8 (es_readyqueue E) 8"
    "disjoint_objs (es_freequeue E) 8 (es_blocked E) 8" "disjoint_objs (es_readyqueue E) 8 (es_blocked E) 8"
    using assms by (simp_all add: early_ok_def early_objs_def NR_TASKS_def PAGE_SIZE_def)
  show "kernel_obj (es_task E) (10 * 4096)" by (rule k)
  show "kernel_obj q 8" "disjoint_objs (es_task E) (10 * 4096) q 8" if "q \<in> heads_early E"
    using that k(2-7) unfolding heads_early_def by blast+
  have "p \<noteq> q" if "disjoint_objs p 8 q 8" for p q using that by (auto simp: disjoint_objs_def)
  then show "es_freequeue E \<noteq> es_readyqueue E" "es_freequeue E \<noteq> es_blocked E" "es_readyqueue E \<noteq> es_blocked E"
    using k(8-10) by blast+
qed

lemma early_heads_neq [simp]:
  assumes "early_ok E"
  shows "es_freequeue E \<noteq> es_readyqueue E" "es_freequeue E \<noteq> es_blocked E" "es_readyqueue E \<noteq> es_blocked E"
    "es_readyqueue E \<noteq> es_freequeue E" "es_blocked E \<noteq> es_freequeue E" "es_blocked E \<noteq> es_readyqueue E"
  using early_okD(4-6) [OF assms] by (simp_all add: eq_commute)

text \<open>The fields of a task are inside its slot of the array.\<close>

lemma unat_task_field:
  assumes "early_ok E" "i < NR_TASKS" "k < 4096"
  shows "unat (task_early E i + of_nat k) = unat (es_task E) + i * 4096 + k"
proof -
  have "i * 4096 + k \<le> 10 * 4096" using assms(2,3) by (simp add: NR_TASKS_def)
  from unat_sym_offset [OF early_okD(1) [OF assms(1)] this] show ?thesis
    by (simp add: task_early_def PAGE_SIZE_def add.assoc)
qed

lemmas unat_task_fields = unat_task_field [where k = 0, simplified] unat_task_field [where k = 8, simplified, folded tnode_early_def]
  unat_task_field [where k = 32, simplified, folded kids_early_def]

lemma task_field_not_head:
  assumes "early_ok E" "t \<in> tasks_of_early E" "q \<in> heads_early E" "k < 4096"
  shows "t + of_nat k \<noteq> q"
proof
  assume eq: "t + of_nat k = q"
  obtain i where i: "i < NR_TASKS" "t = task_early E i" using assms(2) by (auto simp: tasks_of_early_def)
  have "unat q = unat (es_task E) + i * 4096 + k" using unat_task_field [OF assms(1) i(1) assms(4)] i(2) eq by simp
  then show False using early_okD(3) [OF assms(1,3)] i(1) assms(4) by (auto simp: disjoint_objs_def NR_TASKS_def)
qed

lemmas task_nodes_not_head = task_field_not_head [where k = 8, simplified, folded tnode_early_def]
  task_field_not_head [where k = 32, simplified, folded kids_early_def]

lemma task_field_neq:
  assumes E: "early_ok E" and t: "t \<in> tasks_of_early E" "u \<in> tasks_of_early E" and k: "j < 4096" "k < 4096" "j \<noteq> k"
  shows "t + of_nat j \<noteq> u + of_nat k"
proof
  assume eq: "t + of_nat j = u + of_nat k"
  obtain i i' where i: "i < NR_TASKS" "t = task_early E i" "i' < NR_TASKS" "u = task_early E i'"
    using t by (auto simp: tasks_of_early_def)
  have "i * 4096 + j = i' * 4096 + k"
    using unat_task_field [OF E i(1) k(1)] unat_task_field [OF E i(3) k(2)] arg_cong [OF eq, of unat] unfolding i(2,4) by linarith
  then have "(i * 4096 + j) mod 4096 = (i' * 4096 + k) mod 4096" by simp
  then show False using k by simp
qed

lemma kids_not_tnode:
  "early_ok E \<Longrightarrow> t \<in> tasks_of_early E \<Longrightarrow> u \<in> tasks_of_early E \<Longrightarrow> kids_early t \<noteq> tnode_early u"
  using task_field_neq [of E t u 32 8] by (simp add: kids_early_def tnode_early_def)

lemma early_node_nz:
  assumes "early_ok E"
  shows "q \<in> heads_early E \<Longrightarrow> q \<noteq> 0" "t \<in> tasks_of_early E \<Longrightarrow> tnode_early t \<noteq> 0"
    "t \<in> tasks_of_early E \<Longrightarrow> kids_early t \<noteq> 0"
proof -
  show "q \<noteq> 0" if "q \<in> heads_early E" using early_okD(2) [OF assms that] by (auto simp: kernel_obj_def)
  show "tnode_early t \<noteq> 0" "kids_early t \<noteq> 0" if "t \<in> tasks_of_early E"
    using that unat_task_fields(2,3) [OF assms] early_okD(1) [OF assms] by (force simp: tasks_of_early_def kernel_obj_def)+
qed

lemma node_to_task_early [simp]: "list_head_to_task_struct_early (tnode_early t) = t"
  by (simp add: list_head_to_task_struct_early_def tnode_early_def)

interpretation eq: queue_family early_ok heads_early tasks_of_early tnode_early
  by unfold_locales (rule task_nodes_not_head, simp_all add: tnode_early_def inj_def)

definition queues_early :: "early_symtab \<Rightarrow> links \<Rightarrow> (ptr \<Rightarrow> ptr list) \<Rightarrow> bool" where
  "queues_early E h Q \<longleftrightarrow> family (heads_early E) (tasks_of_early E) tnode_early h Q"

text \<open>The links of a node in a queue are heads or nodes, never null.\<close>

lemma queues_early_links_nz:
  assumes E: "early_ok E" and q: "queues_early E h Q" "q \<in> heads_early E" "t \<in> set (Q q)"
  shows "lh_next (h (tnode_early t)) \<noteq> 0" "lh_prev (h (tnode_early t)) \<noteq> 0"
proof -
  note f = familyD [OF q(1) [unfolded queues_early_def] q(2)]
  have nz: "p \<noteq> 0" if "p \<in> set (q # map tnode_early (Q q))" for p
    using that f(2) early_node_nz [OF E] q(2) by auto
  have "lh_next (h (tnode_early t)) \<in> set (q # map tnode_early (Q q))"
    "lh_prev (h (tnode_early t)) \<in> set (q # map tnode_early (Q q))"
    using q(3) by (intro dlist_links [OF f(1)], simp)+
  then show "lh_next (h (tnode_early t)) \<noteq> 0" "lh_prev (h (tnode_early t)) \<noteq> 0" using nz by blast+
qed

section \<open>The invariant of the scheduler\<close>

text \<open>A task can be switched to when its saved stack pointer is on its own kernel stack.\<close>

definition resumable_early :: "early_state \<Rightarrow> ptr \<Rightarrow> bool" where
  "resumable_early s t \<longleftrightarrow> (e_kernel_esp (e_tasks s t) - 4) AND 0xfffff000 = t"

text \<open>
  \<open>placed_early\<close>: the queues are intact, the idle task is in none and keeps the state \<open>ST_READY\<close> it was created with,
  the state of a task agrees with its queue, and every task that is not free or running can be resumed.
\<close>

definition placed_early :: "early_symtab \<Rightarrow> early_state \<Rightarrow> (ptr \<Rightarrow> ptr list) \<Rightarrow> bool" where
  "placed_early E s Q \<longleftrightarrow> queues_early E (e_links s) Q \<and>
     e_idle_task s \<in> tasks_of_early E \<and> e_idle_task s \<notin> enqueued (heads_early E) Q \<and>
     e_status (e_tasks s (e_idle_task s)) = ST_READY \<and>
     (\<forall>t \<in> set (Q (es_readyqueue E)). e_status (e_tasks s t) = ST_READY) \<and>
     (\<forall>t \<in> set (Q (es_blocked E)). e_status (e_tasks s t) = ST_BLOCKED) \<and>
     (\<forall>t \<in> tasks_of_early E. t \<notin> set (Q (es_freequeue E)) \<and> t \<noteq> current_early s \<longrightarrow> resumable_early s t)"

text \<open>
  \<open>early_rel\<close>: between handlers every task is in one queue, runs, or is the idle task. The idle task never enters the
  ready queue, so it runs only when that queue is empty.
\<close>

definition early_rel :: "early_symtab \<Rightarrow> early_state \<Rightarrow> sched_abs \<Rightarrow> bool" where
  "early_rel E s A \<longleftrightarrow> placed_early E s (a_queue A) \<and>
     a_cur A = current_early s \<and> current_early s \<in> tasks_of_early E \<and>
     current_early s \<notin> enqueued (heads_early E) (a_queue A) \<and>
     tasks_of_early E \<subseteq> enqueued (heads_early E) (a_queue A) \<union> {current_early s, e_idle_task s} \<and>
     (if current_early s = e_idle_task s then a_queue A (es_readyqueue E) = []
      else e_status (e_tasks s (current_early s)) = ST_RUN) \<and>
     e_tss_esp0 s = current_early s + 4096 \<and> e_msr_175 s = current_early s + 4096 \<and>
     cr3 (e_mm s) = e_dir_pages_baseAddr (e_tasks s (current_early s))"

definition a_next_early :: "early_symtab \<Rightarrow> ptr \<Rightarrow> (ptr \<Rightarrow> ptr list) \<Rightarrow> sched_abs" where
  "a_next_early E idle Q =
     (case Q (es_readyqueue E) of
        [] \<Rightarrow> \<lparr>a_queue = Q, a_cur = idle\<rparr>
      | t # ts \<Rightarrow> \<lparr>a_queue = Q(es_readyqueue E := ts), a_cur = t\<rparr>)"

definition a_scheduler_early :: "early_symtab \<Rightarrow> ptr \<Rightarrow> int \<Rightarrow> sched_abs \<Rightarrow> sched_abs" where
  "a_scheduler_early E idle quantum A =
     (if wrap32 (quantum - 1) = 0 \<and> a_queue A (es_readyqueue E) \<noteq> []
      then a_next_early E idle ((a_queue A)(es_readyqueue E := a_queue A (es_readyqueue E) @ [a_cur A]))
      else A)"

lemma early_relD:
  assumes "early_rel E s A"
  shows "placed_early E s (a_queue A)" "queues_early E (e_links s) (a_queue A)" "a_cur A = current_early s"
    "current_early s \<in> tasks_of_early E" "current_early s \<notin> enqueued (heads_early E) (a_queue A)"
    "tasks_of_early E \<subseteq> enqueued (heads_early E) (a_queue A) \<union> {current_early s, e_idle_task s}"
    "current_early s = e_idle_task s \<Longrightarrow> a_queue A (es_readyqueue E) = []"
    "current_early s \<noteq> e_idle_task s \<Longrightarrow> e_status (e_tasks s (current_early s)) = ST_RUN"
    "e_tss_esp0 s = current_early s + 4096" "e_msr_175 s = current_early s + 4096"
    "cr3 (e_mm s) = e_dir_pages_baseAddr (e_tasks s (current_early s))"
  using assms by (auto simp: early_rel_def placed_early_def split: if_splits)

lemmas queues_early_empty = family_empty [where H = "heads_early E" and M = "tasks_of_early E" and node = tnode_early for E, folded queues_early_def]
lemmas queues_early_first = family_first [where H = "heads_early E" and M = "tasks_of_early E" and node = tnode_early for E, folded queues_early_def]
lemmas queues_earlyD = familyD [where H = "heads_early E" and M = "tasks_of_early E" and node = tnode_early for E, folded queues_early_def]
lemmas queues_early_enq = eq.family_enq [folded queues_early_def]
lemmas queues_early_push = eq.family_push [folded queues_early_def]
lemmas queues_early_del = eq.family_del [folded queues_early_def]
lemmas queues_early_cong = family_cong [where H = "heads_early E" and M = "tasks_of_early E" and node = tnode_early for E, folded queues_early_def]
lemmas enqueued_early_del = enqueued_del [where H = "heads_early E" and M = "tasks_of_early E" and node = tnode_early for E, folded queues_early_def]

lemma current_early_cong: "e_esp s' = e_esp s \<Longrightarrow> current_early s' = current_early s"
  by (simp add: current_early_def)

lemma current_early_upd [simp]:
  "current_early (s\<lparr>e_links := h\<rparr>) = current_early s" "current_early (s\<lparr>e_tasks := T\<rparr>) = current_early s"
  "current_early (s\<lparr>qticks := n\<rparr>) = current_early s" "current_early (s\<lparr>e_mm := m\<rparr>) = current_early s"
  "current_early (s\<lparr>e_kstack := k\<rparr>) = current_early s" "current_early (s\<lparr>e_ram := r\<rparr>) = current_early s"
  "current_early (s\<lparr>e_con := c\<rparr>) = current_early s" "current_early (s\<lparr>sumPID := n\<rparr>) = current_early s"
  by (simp_all add: current_early_def)

section \<open>Dispatching\<close>

text \<open>The task \<open>sched_next_rr\<close> takes from the ready queue.\<close>

lemma take_ready_early:
  assumes E: "early_ok E" and p: "placed_early E s Q" and Q: "Q (es_readyqueue E) = t # ts"
  shows "update_process_state_rr_early (list_head_to_task_struct_early (list_first (es_readyqueue E) (e_links s))) None s =
    Some (s\<lparr>e_links := list_del (tnode_early t) (e_links s), e_tasks := (e_tasks s)(t := (e_tasks s t)\<lparr>e_status := ST_RUN\<rparr>)\<rparr>)"
proof -
  have q: "queues_early E (e_links s) Q" using p by (simp add: placed_early_def)
  have st: "e_status (e_tasks s t) = ST_READY" using p Q by (simp add: placed_early_def)
  have nz: "lh_next (e_links s (tnode_early t)) \<noteq> 0" "lh_prev (e_links s (tnode_early t)) \<noteq> 0"
    using queues_early_links_nz [OF E q, of "es_readyqueue E" t] Q by simp_all
  have f: "list_first (es_readyqueue E) (e_links s) = tnode_early t" by (rule queues_early_first [OF q _ Q]) simp
  show ?thesis using nz unfolding f node_to_task_early
    by (simp add: update_process_state_rr_early_def Let_def st upd_early_defs)
qed

lemma inner_task_switch_early_simps [simp]:
  "e_tasks (inner_task_switch_early t s) =
     (e_tasks s)(current_early s := (e_tasks s (current_early s))\<lparr>e_kernel_esp := e_esp s - 8\<rparr>)"
  "e_esp (inner_task_switch_early t s) = e_kernel_esp (e_tasks s t) + 8"
  "e_tss_esp0 (inner_task_switch_early t s) = t + 4096" "e_msr_175 (inner_task_switch_early t s) = t + 4096"
  "cr3 (e_mm (inner_task_switch_early t s)) = e_dir_pages_baseAddr (e_tasks s t)"
  "e_links (inner_task_switch_early t s) = e_links s" "e_idle_task (inner_task_switch_early t s) = e_idle_task s"
  "qticks (inner_task_switch_early t s) = qticks s"
  by (simp_all add: inner_task_switch_early_def cambio_contexto_def upd_early_defs Let_def get_DIR_early_def set_cr3_def
      stack_slot_def KERNEL_STACK_SIZE_def current_early_def)

lemma T_early_fields:
  assumes "\<And>u. T u = (if P u then (T0 u)\<lparr>e_status := ST_RUN\<rparr> else T0 u)"
  shows "e_kernel_esp (T u) = e_kernel_esp (T0 u)" "e_quantum (T u) = e_quantum (T0 u)"
    "e_dir_pages_baseAddr (T u) = e_dir_pages_baseAddr (T0 u)" "e_status (T u) = (if P u then ST_RUN else e_status (T0 u))"
  by (simp_all add: assms)

lemma pick_early:
  assumes E: "early_ok E" and p: "placed_early E s Q"
  defines "A \<equiv> a_next_early E (e_idle_task s) Q"
  obtains h T where "sched_next_rr_early E s =
      Some (inner_task_switch_early (a_cur A) (s\<lparr>e_links := h, e_tasks := T, qticks := e_quantum (T (a_cur A))\<rparr>))"
    "queues_early E h (a_queue A)"
    "\<forall>u. T u = (if u = a_cur A \<and> u \<noteq> e_idle_task s then (e_tasks s u)\<lparr>e_status := ST_RUN\<rparr> else e_tasks s u)"
    "enqueued (heads_early E) (a_queue A) = enqueued (heads_early E) Q - {a_cur A}"
    "a_cur A \<in> tasks_of_early E" "a_cur A \<notin> set (Q (es_freequeue E))"
proof -
  have q: "queues_early E (e_links s) Q" using p by (simp add: placed_early_def)
  note empt = queues_early_empty [OF q, of "es_readyqueue E"]
  show thesis
  proof (cases "Q (es_readyqueue E)")
    case Nil
    show thesis
      by (rule that [of "e_tasks s" "e_links s"])
        (use Nil empt q p in \<open>auto simp: A_def a_next_early_def placed_early_def enqueued_def sched_next_rr_early_def Let_def\<close>)
  next
    case (Cons t ts)
    have "e_idle_task s \<notin> set (Q (es_readyqueue E))" using p by (simp add: placed_early_def enqueued_def)
    then have t: "t \<in> tasks_of_early E" "t \<noteq> e_idle_task s" "t \<notin> set (Q (es_freequeue E))"
      using queues_earlyD(2) [OF q, of "es_readyqueue E"] queues_earlyD(3) [OF q, of "es_readyqueue E" "es_freequeue E"] Cons E by auto
    have "queues_early E (list_del (tnode_early t) (e_links s)) (Q(es_readyqueue E := ts))"
      using queues_early_del [OF E q, of "es_readyqueue E" "[]" t ts] Cons by simp
    moreover have "enqueued (heads_early E) (Q(es_readyqueue E := ts)) = enqueued (heads_early E) Q - {t}"
      using enqueued_early_del [OF q, of "es_readyqueue E" "[]" t ts] Cons by simp
    ultimately show thesis
      by (intro that [of "(e_tasks s)(t := (e_tasks s t)\<lparr>e_status := ST_RUN\<rparr>)" "list_del (tnode_early t) (e_links s)"])
        (use t Cons empt queues_early_first [OF q _ Cons] take_ready_early [OF E p Cons]
          in \<open>auto simp: A_def a_next_early_def Let_def sched_next_rr_early_def\<close>)
  qed
qed

lemma sched_next_early_rel:
  assumes E: "early_ok E" and p: "placed_early E s Q" and c: "current_early s \<in> tasks_of_early E"
    and all: "tasks_of_early E \<subseteq> insert (e_idle_task s) (enqueued (heads_early E) Q)"
    and nt: "a_cur (a_next_early E (e_idle_task s) Q) \<noteq> current_early s"
  shows "\<exists>s'. sched_next_rr_early E s = Some s' \<and> early_rel E s' (a_next_early E (e_idle_task s) Q) \<and>
    qticks s' = e_quantum (e_tasks s (current_early s')) \<and> e_idle_task s' = e_idle_task s"
proof -
  let ?A = "a_next_early E (e_idle_task s) Q"
  let ?t = "a_cur ?A"
  obtain h T where eq: "sched_next_rr_early E s =
      Some (inner_task_switch_early ?t (s\<lparr>e_links := h, e_tasks := T, qticks := e_quantum (T ?t)\<rparr>))"
    and h: "queues_early E h (a_queue ?A)"
    and T: "\<forall>u. T u = (if u = ?t \<and> u \<noteq> e_idle_task s then (e_tasks s u)\<lparr>e_status := ST_RUN\<rparr> else e_tasks s u)"
    and enq: "enqueued (heads_early E) (a_queue ?A) = enqueued (heads_early E) Q - {?t}"
    and tt: "?t \<in> tasks_of_early E" and nf: "?t \<notin> set (Q (es_freequeue E))"
    by (rule pick_early [OF E p])
  let ?s1 = "s\<lparr>e_links := h, e_tasks := T, qticks := e_quantum (T ?t)\<rparr>"
  let ?s' = "inner_task_switch_early ?t ?s1"
  note T' = T_early_fields [of T _ "e_tasks s", OF T [rule_format]]
  have res: "resumable_early s ?t" using p tt nf nt by (simp add: placed_early_def)
  have "e_esp ?s' = e_kernel_esp (e_tasks s ?t) + 8" by (simp add: T')
  then have cur: "current_early ?s' = ?t" using res by (simp add: current_early_def resumable_early_def)
  have esp': "e_kernel_esp (e_tasks ?s' u) = (if u = current_early s then e_esp s - 8 else e_kernel_esp (e_tasks s u))" for u
    by (simp add: T')
  have "e_status (e_tasks ?s' u) = e_status (T u)" for u by simp
  then have st': "e_status (e_tasks ?s' u) = (if u = ?t \<and> u \<noteq> e_idle_task s then ST_RUN else e_status (e_tasks s u))" for u
    using T'(4) [of u] by presburger
  have resc: "resumable_early ?s' u" if "u \<in> tasks_of_early E" "u \<notin> set (a_queue ?A (es_freequeue E))" "u \<noteq> ?t" for u
  proof (cases "u = current_early s")
    case True
    then show ?thesis using esp' [of u] by (simp add: resumable_early_def current_early_def)
  next
    case False
    have "a_queue ?A (es_freequeue E) = Q (es_freequeue E)" using E by (simp add: a_next_early_def split: list.split)
    then show ?thesis using False that p esp' [of u] by (simp add: placed_early_def resumable_early_def)
  qed
  have qr: "set (a_queue ?A (es_readyqueue E)) \<subseteq> set (Q (es_readyqueue E))" "a_queue ?A (es_blocked E) = Q (es_blocked E)"
    using E by (auto simp: a_next_early_def split: list.split)
  have ntq: "?t \<notin> set (a_queue ?A r)" if "r \<in> heads_early E" for r using enq that by (auto simp: enqueued_def)
  have "e_links ?s' = h" "e_idle_task ?s' = e_idle_task s" by simp_all
  then have "placed_early E ?s' (a_queue ?A)"
    using h p qr ntq [of "es_readyqueue E"] ntq [of "es_blocked E"] enq st' resc cur unfolding placed_early_def
    by (auto simp del: inner_task_switch_early_simps(1))
  moreover have "?t = e_idle_task s \<Longrightarrow> a_queue ?A (es_readyqueue E) = []"
    using p not_enqueuedD [of "e_idle_task s" "heads_early E" Q "es_readyqueue E"]
    by (auto simp: a_next_early_def placed_early_def split: list.splits)
  moreover have "e_dir_pages_baseAddr (e_tasks ?s' u) = e_dir_pages_baseAddr (e_tasks s u)" for u by (simp add: T')
  moreover have "e_tss_esp0 ?s' = ?t + 4096" "e_msr_175 ?s' = ?t + 4096" "cr3 (e_mm ?s') = e_dir_pages_baseAddr (e_tasks s ?t)"
    by (simp_all add: T')
  ultimately have "early_rel E ?s' ?A"
    using cur tt enq all st' \<open>e_idle_task ?s' = e_idle_task s\<close> unfolding early_rel_def by auto
  moreover have "qticks ?s' = e_quantum (e_tasks s ?t)" by (simp add: T')
  ultimately show ?thesis using eq cur \<open>e_idle_task ?s' = e_idle_task s\<close> by auto
qed

section \<open>Leaving the processor\<close>

text \<open>The running task goes to the end of a queue: ready when it is preempted, blocked when it waits, free when it exits.\<close>

lemma leave_early:
  assumes E: "early_ok E" and rel: "early_rel E s A" and ni: "current_early s \<noteq> e_idle_task s" and q: "q \<in> heads_early E"
    and s': "e_links s' = list_add_tail (tnode_early (current_early s)) q (e_links s)" "e_esp s' = e_esp s"
      "e_idle_task s' = e_idle_task s"
      "\<And>u. e_kernel_esp (e_tasks s' u) = e_kernel_esp (e_tasks s u)"
      "\<And>u. u \<noteq> current_early s \<Longrightarrow> e_status (e_tasks s' u) = e_status (e_tasks s u)"
      "q = es_readyqueue E \<Longrightarrow> e_status (e_tasks s' (current_early s)) = ST_READY"
      "q = es_blocked E \<Longrightarrow> e_status (e_tasks s' (current_early s)) = ST_BLOCKED"
  defines "Q \<equiv> (a_queue A)(q := a_queue A q @ [current_early s])"
  shows "placed_early E s' Q" "tasks_of_early E \<subseteq> insert (e_idle_task s') (enqueued (heads_early E) Q)"
    "current_early s' = current_early s"
proof -
  note r = early_relD [OF rel]
  show cur: "current_early s' = current_early s" by (rule current_early_cong [OF s'(2)])
  have enq: "enqueued (heads_early E) Q = insert (current_early s) (enqueued (heads_early E) (a_queue A))"
    unfolding Q_def by (rule enqueued_add [OF q]) auto
  show "tasks_of_early E \<subseteq> insert (e_idle_task s') (enqueued (heads_early E) Q)" using r(6) enq s'(3) by auto
  have "queues_early E (e_links s') Q" unfolding s'(1) Q_def by (rule queues_early_enq [OF E r(2,4,5) q])
  moreover have nq: "current_early s \<notin> set (a_queue A x)" if "x \<in> heads_early E" for x by (rule not_enqueuedD [OF r(5) that])
  have "e_status (e_tasks s' u) = ST_READY" if "u \<in> set (Q (es_readyqueue E))" for u
    using that r(1) nq [of "es_readyqueue E"] s'(5,6) by (cases "u = current_early s") (auto simp: Q_def placed_early_def split: if_splits)
  moreover have "e_status (e_tasks s' u) = ST_BLOCKED" if "u \<in> set (Q (es_blocked E))" for u
    using that r(1) nq [of "es_blocked E"] s'(5,7) by (cases "u = current_early s") (auto simp: Q_def placed_early_def split: if_splits)
  moreover have "resumable_early s' u" if "u \<in> tasks_of_early E" "u \<notin> set (Q (es_freequeue E))" "u \<noteq> current_early s'" for u
    using that r(1) cur s'(4) by (auto simp: Q_def placed_early_def resumable_early_def split: if_splits)
  moreover have "e_status (e_tasks s' (e_idle_task s)) = ST_READY" using s'(5) [of "e_idle_task s"] ni r(1) by (auto simp: placed_early_def)
  ultimately show "placed_early E s' Q" using r(1) enq ni s'(3) unfolding placed_early_def by auto
qed

lemma a_next_early_cur:
  assumes "current_early s \<notin> set (Q (es_readyqueue E))" "current_early s \<noteq> e_idle_task s"
  shows "a_cur (a_next_early E (e_idle_task s) Q) \<noteq> current_early s"
  using assms by (auto simp: a_next_early_def split: list.split)

lemma early_rel_qticks [simp]: "early_rel E (s\<lparr>qticks := n\<rparr>) A = early_rel E s A"
  by (simp add: early_rel_def placed_early_def resumable_early_def)

lemma scheduler_early_rel:
  assumes E: "early_ok E" and rel: "early_rel E s A"
  defines "A' \<equiv> a_scheduler_early E (e_idle_task s) (qticks s) A"
  shows "\<exists>s'. scheduler_early E s = Some s' \<and> early_rel E s' A' \<and>
     qticks s' = (if a_cur A' = current_early s then wrap32 (qticks s - 1) else e_quantum (e_tasks s (a_cur A')))"
proof -
  note r = early_relD [OF rel]
  have nb: "e_status (e_tasks s (current_early s)) \<noteq> ST_BLOCKED"
    using r(1,8) by (cases "current_early s = e_idle_task s") (auto simp: placed_early_def)
  note empt = queues_early_empty [OF r(2), of "es_readyqueue E"]
  let ?s0 = "s\<lparr>qticks := wrap32 (qticks s - 1)\<rparr>"
  let ?R = "a_queue A (es_readyqueue E)"
  show ?thesis
  proof (cases "wrap32 (qticks s - 1) = 0 \<and> ?R \<noteq> []")
    case False
    then have "scheduler_early E s = Some ?s0"
      using nb empt by (auto simp: scheduler_early_def update_sched_data_rr_early_def needs_sched_rr_early_def Let_def)
    moreover have "A' = A" using False by (auto simp: A'_def a_scheduler_early_def)
    ultimately show ?thesis using rel r(3) by simp
  next
    case True
    then have ni: "current_early s \<noteq> e_idle_task s" using r(7) by auto
    let ?c = "current_early s"
    let ?s1 = "?s0\<lparr>e_links := list_add_tail (tnode_early ?c) (es_readyqueue E) (e_links s),
        e_tasks := (e_tasks s)(?c := (e_tasks s ?c)\<lparr>e_status := ST_READY\<rparr>)\<rparr>"
    let ?Q = "(a_queue A)(es_readyqueue E := ?R @ [?c])"
    have step: "scheduler_early E s = sched_next_rr_early E ?s1"
      using True empt r(8) [OF ni] by (simp add: scheduler_early_def update_sched_data_rr_early_def needs_sched_rr_early_def
          update_process_state_rr_early_def Let_def upd_early_defs)
    have s7: "es_readyqueue E = es_blocked E \<Longrightarrow> P" for P using early_heads_neq(3) [OF E] by blast
    have l: "placed_early E ?s1 ?Q" "tasks_of_early E \<subseteq> insert (e_idle_task ?s1) (enqueued (heads_early E) ?Q)"
      "current_early ?s1 = ?c"
      by (rule leave_early [OF E rel ni _ _ _ _ _ _ _ s7]; simp)+
    obtain t ts where ts: "?R = t # ts" using True by (cases ?R) auto
    have t: "t \<noteq> ?c" using not_enqueuedD [OF r(5), of "es_readyqueue E"] ts by auto
    have A': "A' = a_next_early E (e_idle_task ?s1) ?Q" "a_cur A' = t"
      using True ts r(3) by (simp_all add: A'_def a_scheduler_early_def a_next_early_def)
    have "\<exists>s'. sched_next_rr_early E ?s1 = Some s' \<and> early_rel E s' A' \<and>
        qticks s' = e_quantum (e_tasks ?s1 (current_early s')) \<and> e_idle_task s' = e_idle_task ?s1"
      unfolding A'(1) by (rule sched_next_early_rel [OF E l(1) _ l(2)]) (use A' t r(4) in simp_all)
    then show ?thesis using step t A'(2) early_relD(3) [of E _ A'] by fastforce
  qed
qed

section \<open>Boot\<close>

lemma task_early_inject:
  assumes "early_ok E" "i < NR_TASKS" "j < NR_TASKS"
  shows "task_early E i = task_early E j \<longleftrightarrow> i = j"
proof
  assume "task_early E i = task_early E j"
  then have "unat (es_task E) + i * 4096 = unat (es_task E) + j * 4096"
    using unat_task_fields(1) [OF assms(1,2)] unat_task_fields(1) [OF assms(1,3)] by (simp only:)
  then show "i = j" by simp
qed simp

lemma task_early_aligned: "early_ok E \<Longrightarrow> t \<in> tasks_of_early E \<Longrightarrow> unat t mod 4096 = 0"
  using unat_task_fields(1) [of E] by (auto simp: tasks_of_early_def early_ok_def PAGE_SIZE_def mod_simps)

lemma init_sched_early_queues:
  assumes E: "early_ok E"
  shows "queues_early E (e_links (init_sched_early E s)) ((\<lambda>_. [])(es_freequeue E := rev (map (task_early E) [0..<NR_TASKS])))"
proof -
  let ?h0 = "INIT_LIST_HEAD (es_blocked E) (INIT_LIST_HEAD (es_readyqueue E) (INIT_LIST_HEAD (es_freequeue E) (e_links s)))"
  have "dlist ?h0 (es_blocked E) []" by (rule lq.repr_init)
  moreover have "dlist ?h0 (es_readyqueue E) []" by (rule lq.init_frame [OF lq.repr_init]) (use early_heads_neq [OF E] in simp)
  moreover have "dlist ?h0 (es_freequeue E) []"
    by (rule lq.init_frame [OF lq.init_frame [OF lq.repr_init]]) (use early_heads_neq [OF E] in simp_all)
  ultimately have "dlist ?h0 q []" if "q \<in> heads_early E" for q using that unfolding heads_early_def by blast
  then have q0: "queues_early E ?h0 (\<lambda>_. [])" by (simp add: queues_early_def family_def)
  let ?fq = "es_freequeue E"
  let ?Q = "\<lambda>n q. if q = ?fq then rev (map (task_early E) [0..<n]) else []"
  have push: "queues_early E (fold (\<lambda>i. list_add (tnode_early (task_early E i)) ?fq) [0..<n] ?h0) (?Q n)" if "n \<le> NR_TASKS" for n
    using that
  proof (induction n)
    case 0
    have "?Q 0 = (\<lambda>_. [])" by (rule ext) simp
    then show ?case using q0 by simp
  next
    case (Suc n)
    have Q: "?Q (Suc n) = (?Q n)(?fq := task_early E n # ?Q n ?fq)" by (rule ext) simp
    have "task_early E n \<notin> enqueued (heads_early E) (?Q n)"
      using Suc.prems by (auto simp: enqueued_def task_early_inject [OF E])
    from queues_early_push [OF E Suc.IH _ this, of ?fq] show ?case
      unfolding Q using Suc.prems by (simp add: tasks_of_early_def)
  qed
  have "e_links (fold (\<lambda>i. upd_links_early (f i)) xs s0) = fold f xs (e_links s0)" for f :: "nat \<Rightarrow> links \<Rightarrow> links" and xs s0
    by (induction xs arbitrary: s0) (simp_all add: upd_links_early_def)
  moreover have "?Q NR_TASKS = (\<lambda>_. [])(?fq := rev (map (task_early E) [0..<NR_TASKS]))" by (rule ext) simp
  ultimately show ?thesis using push [OF order_refl] by (simp add: init_sched_early_def Let_def upd_links_early_def)
qed

text \<open>Taking the first free task and emptying its list of children, as \<open>init_idle\<close>, \<open>init_task1\<close> and \<open>sys_fork\<close> do.\<close>

lemma take_free_early:
  assumes E: "early_ok E" and q: "queues_early E h Q" and Q: "Q (es_freequeue E) = t # ts"
  shows "list_first (es_freequeue E) h = tnode_early t" "t \<in> tasks_of_early E"
    "queues_early E (list_del (tnode_early t) h) (Q(es_freequeue E := ts))"
    "u \<in> tasks_of_early E \<Longrightarrow> queues_early E h' Q' \<Longrightarrow> queues_early E (INIT_LIST_HEAD (kids_early u) h') Q'"
proof -
  show "list_first (es_freequeue E) h = tnode_early t" by (rule queues_early_first [OF q _ Q]) simp
  show "t \<in> tasks_of_early E" using queues_earlyD(2) [OF q, of "es_freequeue E"] Q by simp
  show "queues_early E (list_del (tnode_early t) h) (Q(es_freequeue E := ts))"
    using queues_early_del [OF E q, of "es_freequeue E" "[]" t ts] Q by simp
  show "queues_early E (INIT_LIST_HEAD (kids_early u) h') Q'" if u: "u \<in> tasks_of_early E" "queues_early E h' Q'"
  proof (rule queues_early_cong [OF u(2)])
    fix q p assume p: "q \<in> heads_early E" "p \<in> set (q # map tnode_early (Q' q))"
    have "kids_early u \<notin> tnode_early ` set (Q' q)" using kids_not_tnode [OF E u(1)] queues_earlyD(2) [OF u(2) p(1)] by blast
    then have "p \<noteq> kids_early u" using task_nodes_not_head(2) [OF E u(1) p(1)] p(2) by auto
    then show "INIT_LIST_HEAD (kids_early u) h' p = h' p" by (rule INIT_LIST_HEAD_other)
  qed
qed

definition boot_abs_early :: "early_symtab \<Rightarrow> sched_abs" where
  "boot_abs_early E = \<lparr>a_queue = (\<lambda>_. [])(es_freequeue E := rev (map (task_early E) [0..<8])), a_cur = task_early E 8\<rparr>"

lemma boot_free_early: "rev (map (task_early E) [0..<NR_TASKS]) = task_early E 9 # task_early E 8 # rev (map (task_early E) [0..<8])"
proof -
  have "[0..<NR_TASKS] = [0..<8] @ [8, 9]" unfolding NR_TASKS_def by code_simp
  then show ?thesis by simp
qed

lemma alloc_DIR_early:
  assumes "early_ok E" "i < NR_TASKS"
  shows "allocate_DIR_early E (task_early E i) s =
    s\<lparr>e_tasks := (e_tasks s)(task_early E i := (e_tasks s (task_early E i))\<lparr>e_dir_pages_baseAddr := dir_pages_early E i\<rparr>)\<rparr>"
proof -
  have "unat ((of_nat (i * 4096) :: ptr) div 4096) = i"
    using assms(2) by (simp add: unat_div unat_of_nat NR_TASKS_def del: of_nat_mult)
  then show ?thesis by (simp add: allocate_DIR_early_def task_early_def PAGE_SIZE_def upd_early_defs Let_def del: of_nat_mult)
qed

lemma boot_early_fields:
  fixes s :: early_state
  assumes E: "early_ok E"
  defines "s' \<equiv> kernel_entry_early (init_kernel_early E s)" and "m \<equiv> e_mm (init_mm_early E s)"
  shows "queues_early E (e_links s') (a_queue (boot_abs_early E))" "dlist (e_links s') (kids_early (task_early E 8)) []"
    "task_early E 9 \<in> tasks_of_early E" "task_early E 8 \<in> tasks_of_early E" "task_early E 9 \<noteq> task_early E 8"
    "e_idle_task s' = task_early E 9" "e_msr_175 s' = task_early E 8 + 4096" "e_tss_esp0 s' = task_early E 8 + 4096"
    "e_status (e_tasks s' (task_early E 9)) = ST_READY" "e_status (e_tasks s' (task_early E 8)) = ST_RUN"
    "e_esp s' = task_early E 8 + 4032" "e_kernel_esp (e_tasks s' (task_early E 9)) = task_early E 9 + 4088"
    "e_dir_pages_baseAddr (e_tasks s' (task_early E 8)) = dir_pages_early E 8"
    "e_mm s' = set_cr3 (dir_pages_early E 8) (set_user_pages_early (push_bit 12 (pbase_addr (ptes m (dir_pages_early E 8)))) m)"
    "e_pending_unblocks (e_tasks s' (task_early E 8)) = 0"
proof -
  let ?F = "rev (map (task_early E) [0..<8])" and ?fq = "es_freequeue E"
  let ?s0 = "init_mm_early E s" let ?h0 = "e_links (init_sched_early E ?s0)"
  let ?h1 = "INIT_LIST_HEAD (kids_early (task_early E 9)) (list_del (tnode_early (task_early E 9)) ?h0)"
  let ?h2 = "INIT_LIST_HEAD (kids_early (task_early E 8)) (list_del (tnode_early (task_early E 8)) ?h1)"
  have q0: "queues_early E ?h0 ((\<lambda>_. [])(?fq := task_early E 9 # task_early E 8 # ?F))"
    using init_sched_early_queues [OF E, of ?s0] unfolding boot_free_early .
  note t9 = take_free_early [OF E q0, of "task_early E 9" "task_early E 8 # ?F", simplified]
  have q1: "queues_early E ?h1 ((\<lambda>_. [])(?fq := task_early E 8 # ?F))" by (rule t9(4) [OF t9(2,3)])
  note t8 = take_free_early [OF E q1, of "task_early E 8" ?F, simplified]
  have q2: "queues_early E ?h2 ((\<lambda>_. [])(?fq := ?F))" by (rule t8(4) [OF t8(2,3)])
  show "task_early E 9 \<in> tasks_of_early E" "task_early E 8 \<in> tasks_of_early E" by (rule t9(2), rule t8(2))
  show ne: "task_early E 9 \<noteq> task_early E 8" using task_early_inject [OF E, of 9 8] by (simp add: NR_TASKS_def)
  have n: "8 < NR_TASKS" "9 < NR_TASKS" by (simp_all add: NR_TASKS_def)
  have m0: "e_mm (init_sched_early E ?s0) = m"
  proof -
    have "e_mm (fold (\<lambda>i. upd_links_early (f i)) xs x) = e_mm x" for f :: "nat \<Rightarrow> links \<Rightarrow> links" and xs x
      by (induction xs arbitrary: x) (simp_all add: upd_links_early_def)
    then show ?thesis by (simp add: init_sched_early_def Let_def m_def upd_links_early_def)
  qed
  note defs = s'_def kernel_entry_early_def init_kernel_early_def init_task1_early_def init_idle_early_def Let_def upd_early_defs
    alloc_DIR_early [OF E n(1)] alloc_DIR_early [OF E n(2)] get_PT_early_def stack_slot_def KERNEL_STACK_SIZE_def t9(1) t8(1) ne ne [symmetric] m0
  have h: "e_links s' = ?h2" by (simp add: defs)
  show "queues_early E (e_links s') (a_queue (boot_abs_early E))" unfolding h using q2 by (simp add: boot_abs_early_def)
  show "dlist (e_links s') (kids_early (task_early E 8)) []" unfolding h by (rule lq.repr_init)
  show "e_idle_task s' = task_early E 9" "e_msr_175 s' = task_early E 8 + 4096" "e_tss_esp0 s' = task_early E 8 + 4096"
    "e_status (e_tasks s' (task_early E 9)) = ST_READY" "e_status (e_tasks s' (task_early E 8)) = ST_RUN"
    "e_esp s' = task_early E 8 + 4032" "e_kernel_esp (e_tasks s' (task_early E 9)) = task_early E 9 + 4088"
    "e_dir_pages_baseAddr (e_tasks s' (task_early E 8)) = dir_pages_early E 8"
    "e_mm s' = set_cr3 (dir_pages_early E 8) (set_user_pages_early (push_bit 12 (pbase_addr (ptes m (dir_pages_early E 8)))) m)"
    "e_pending_unblocks (e_tasks s' (task_early E 8)) = 0"
    by (simp_all add: defs)
qed

lemma boot_early_rel:
  assumes E: "early_ok E"
  shows "early_rel E (kernel_entry_early (init_kernel_early E s)) (boot_abs_early E)"
proof -
  let ?F = "rev (map (task_early E) [0..<8])" and ?s = "kernel_entry_early (init_kernel_early E s)"
  note f = boot_early_fields [OF E] and al = page_mask_offset [OF task_early_aligned [OF E]]
  have cur: "current_early ?s = task_early E 8" using al [OF f(4), of 4020] by (simp add: current_early_def f(11) [of s] add.commute)
  have res: "resumable_early ?s (task_early E 9)" using al [OF f(3), of 4084] by (simp add: resumable_early_def f(12) [of s] add.commute)
  have mem: "tasks_of_early E = set (task_early E 9 # task_early E 8 # ?F)"
    unfolding boot_free_early [symmetric] by (auto simp: tasks_of_early_def)
  have enq: "enqueued (heads_early E) (a_queue (boot_abs_early E)) = set ?F"
    using E by (auto simp: enqueued_def boot_abs_early_def heads_early_def)
  have "distinct (rev (map (task_early E) [0..<NR_TASKS]))"
    using task_early_inject [OF E] by (auto simp: distinct_map inj_on_def)
  then have nin: "task_early E 9 \<notin> set ?F" "task_early E 8 \<notin> set ?F" unfolding boot_free_early by auto
  have "placed_early E ?s (a_queue (boot_abs_early E))"
    using f(1) [of s] f(3) f(6) [of s] f(9) [of s] res nin enq E cur unfolding placed_early_def mem by (auto simp: boot_abs_early_def)
  then show ?thesis
    using f(4,5) f(6-8) [of s] f(10) [of s] f(13,14) [of s] cur enq nin unfolding early_rel_def mem by (auto simp: boot_abs_early_def set_cr3_def)
qed

lemma example_early_ok: "early_ok example_early"
  by (simp add: early_ok_def example_early_def early_objs_def kernel_obj_def disjoint_objs_def layout_consts NR_TASKS_def)

definition zero_early :: early_state where
  "zero_early = \<lparr>e_links = \<lambda>_. \<lparr>lh_next = 0, lh_prev = 0\<rparr>,
     e_tasks = \<lambda>_. \<lparr>e_PID = 0, e_dir_pages_baseAddr = 0, e_kernel_esp = 0, e_quantum = 0, e_status = ST_RUN, e_pending_unblocks = 0, e_dad = 0\<rparr>,
     e_kstack = \<lambda>_. 0, e_ram = \<lambda>_. 0, e_mm = \<lparr>phys_mem = replicate TOTAL_PAGES 0, ptes = \<lambda>_. 0, cr3 = 0, cr0 = 0\<rparr>,
     e_con = io_init (\<lambda>_. 0), e_idle_task = 0, e_task_1 = 0, qticks = 0, sumPID = 2, e_zeos_ticks = 0, e_esp = 0,
     e_tss_esp0 = 0, e_msr_175 = 0\<rparr>"

definition booted_early :: early_state where
  "booted_early = kernel_entry_early (init_kernel_early example_early zero_early)"

lemma booted_early_rel: "early_rel example_early booted_early (boot_abs_early example_early)"
  unfolding booted_early_def by (rule boot_early_rel [OF example_early_ok])

section \<open>Properties\<close>

text \<open>C36: The scheduler of the earlier kernel. After boot task 8 runs, task 9 is the idle task and the others are free in
  descending order. From then on every clock tick refines round robin: \<open>scheduler\<close> never faults, takes one tick from the quantum, and only when
  none is left and some task is ready moves the running task to the end of the ready queue and runs the first ready one;
  every task stays in exactly one place, and the idle task, once it runs, is never preempted.\<close>

theorem scheduler_early_refines:
  fixes s :: early_state and A :: sched_abs
  assumes "early_ok E"
  defines "A' \<equiv> a_scheduler_early E (e_idle_task s) (qticks s) A"
  shows "early_rel E (kernel_entry_early (init_kernel_early E s0)) (boot_abs_early E) \<and>
    (early_rel E s A \<longrightarrow>
      (\<exists>s'. scheduler_early E s = Some s' \<and> early_rel E s' A' \<and>
         qticks s' = (if a_cur A' = current_early s then wrap32 (qticks s - 1) else e_quantum (e_tasks s (a_cur A'))) \<and>
         (current_early s = e_idle_task s \<longrightarrow> current_early s' = e_idle_task s)))"
proof (intro conjI impI)
  show "early_rel E (kernel_entry_early (init_kernel_early E s0)) (boot_abs_early E)" by (rule boot_early_rel [OF assms(1)])
  assume rel: "early_rel E s A"
  from scheduler_early_rel [OF assms(1) rel] obtain s' where s': "scheduler_early E s = Some s'" "early_rel E s' A'"
    "qticks s' = (if a_cur A' = current_early s then wrap32 (qticks s - 1) else e_quantum (e_tasks s (a_cur A')))"
    unfolding A'_def by blast
  have "current_early s' = e_idle_task s" if "current_early s = e_idle_task s"
    using early_relD(7) [OF rel that] early_relD(3) [OF rel] early_relD(3) [OF s'(2)] that by (simp add: A'_def a_scheduler_early_def)
  with s' show "\<exists>s'. scheduler_early E s = Some s' \<and> early_rel E s' A' \<and>
         qticks s' = (if a_cur A' = current_early s then wrap32 (qticks s - 1) else e_quantum (e_tasks s (a_cur A'))) \<and>
         (current_early s = e_idle_task s \<longrightarrow> current_early s' = e_idle_task s)" by blast
qed

theorem scheduler_early_refines_witness:
  "\<exists>s'. scheduler_early example_early booted_early = Some s' \<and> early_rel example_early s'
     (a_scheduler_early example_early (e_idle_task booted_early) (qticks booted_early) (boot_abs_early example_early))"
  using scheduler_early_refines [OF example_early_ok, where s = booted_early and A = "boot_abs_early example_early"] booted_early_rel by blast

end
