(* ===== verification/Zeos_Early_Sys.thy ===== *)
theory Zeos_Early_Sys
  imports Zeos_Early Zeos_Keyboard Zeos_Sem
begin

text \<open>
  The system calls (\<open>sys.c\<close>), the console and the interrupt routines of the earlier kernel. A call returns \<open>None\<close> for a page
  fault in the kernel and for a loop that does not end.
\<close>

section \<open>The console\<close>

text \<open>\<open>printc\<close> with its fixed attribute; the colours of the console record are not used.\<close>

definition printc_early :: "Byte \<Rightarrow> console \<Rightarrow> console" where
  "printc_early c s =
     (let s = s\<lparr>port_e9 := port_e9 s @ [c]\<rparr> in
      if c = 10 then newline s
      else
        let s = s\<lparr>screen := (screen s)(unat (cur_y s) * NUM_COLUMNS + unat (cur_x s) := ucast c OR 0x0200)\<rparr>;
            s = s\<lparr>cur_x := cur_x s + 1\<rparr>
        in if unat (cur_x s) \<ge> NUM_COLUMNS then newline s else s)"

definition printc_xy_early :: "Byte \<Rightarrow> Byte \<Rightarrow> Byte \<Rightarrow> console \<Rightarrow> console" where
  "printc_xy_early mx my c s =
     (let cx = cur_x s; cy = cur_y s;
          s = printc_early c (s\<lparr>cur_x := mx, cur_y := my\<rparr>)
      in s\<lparr>cur_x := cx, cur_y := cy\<rparr>)"

primrec printk_early :: "Byte list \<Rightarrow> console \<Rightarrow> console" where
  "printk_early [] s = s"
| "printk_early (c # cs) s = (if c = 0 then s else printk_early cs (printc_early c s))"

definition sys_write_console_early :: "(int \<Rightarrow> Byte) \<Rightarrow> int \<Rightarrow> console \<Rightarrow> int \<times> console" where
  "sys_write_console_early buf sz s = (sz, fold (\<lambda>i. printc_early (buf i)) [0..sz - 1] s)"

section \<open>Interrupts\<close>

text \<open>\<open>kbd_routine\<close>, with the byte that \<open>inb\<close> reads; the shift of the signed \<open>tecla\<close> is zero when a key goes down.\<close>

definition kbd_routine :: "(nat \<Rightarrow> Byte) \<Rightarrow> Byte \<Rightarrow> early_state \<Rightarrow> early_state" where
  "kbd_routine beyond tecla s =
     (let key_code = unat (tecla AND 0x7f);
          b = sint tecla div 2 ^ 7
      in if b = 0 then
           if char_map_at beyond key_code = 0 then s\<lparr>e_con := printc_xy_early 0 0 67 (e_con s)\<rparr>
           else s\<lparr>e_con := printc_xy_early 0 0 (char_map_at beyond key_code) (e_con s)\<rparr>
         else s)"

text \<open>What \<open>pf_routine\<close> prints. Its last call, \<open>printk('\n')\<close>, takes 10 for the address of a string: page 0 is not
  present and the routine faults again.\<close>

definition pf_routine :: "DWord \<Rightarrow> early_state \<Rightarrow> early_state" where
  "pf_routine eip s =
     (let c = printk_early ([10] @ str ''Error por page fault en: '') (e_con s);
          c = printk_early (str ''0x'') c;
          c = fold (\<lambda>i. printc_early (str ''0123456789ABCDEF'' ! unat (drop_bit i eip AND 0xf))) [28, 24, 20, 16, 12, 8, 4, 0] c
      in s\<lparr>e_con := c\<rparr>)"

text \<open>\<open>clock_routine\<close>; \<open>zeos_show_clock\<close> is library code.\<close>

definition clock_routine_early :: "early_symtab \<Rightarrow> (console \<Rightarrow> console) \<Rightarrow> early_state \<Rightarrow> early_state option" where
  "clock_routine_early E show_clock s =
     (let s = s\<lparr>e_con := show_clock (e_con s)\<rparr>;
          s = s\<lparr>e_zeos_ticks := e_zeos_ticks s + 1\<rparr>
      in scheduler_early E s)"

section \<open>Simple calls\<close>

definition check_fd_early :: "int \<Rightarrow> int \<Rightarrow> int" where
  "check_fd_early fd permissions = (if fd \<noteq> 1 then -9 else if permissions \<noteq> 1 then -13 else 0)"

definition sys_ni_syscall_early :: "early_state \<Rightarrow> int \<times> early_state" where
  "sys_ni_syscall_early s = (-38, s)"

definition sys_getpid_early :: "early_state \<Rightarrow> int \<times> early_state" where
  "sys_getpid_early s = (e_PID (e_tasks s (current_early s)), s)"

definition sys_gettime_early :: "early_state \<Rightarrow> int \<times> early_state" where
  "sys_gettime_early s = (int_of_dword (e_zeos_ticks s), s)"

definition access_ok_early :: "int \<Rightarrow> ptr \<Rightarrow> DWord \<Rightarrow> bool" where
  "access_ok_early type addr sz =
     (let addr_ini = drop_bit 12 addr;
          addr_fin = drop_bit 12 (addr + sz)
      in if addr_fin < addr_ini then False
         else if type = VERIFY_WRITE \<and> addr_ini \<ge> of_nat USER_FIRST_PAGE \<and>
           addr_fin \<le> of_nat (USER_FIRST_PAGE + NUM_PAG_DATA) then True
         else addr_ini \<ge> of_nat USER_FIRST_PAGE \<and> addr_fin \<le> of_nat (USER_FIRST_PAGE + NUM_PAG_CODE + NUM_PAG_DATA))"

section \<open>Writing\<close>

definition view_early :: "early_state \<Rightarrow> ptr \<Rightarrow> Byte" where
  "view_early s a = paged_rd (e_mm s) (e_ram s) a"

definition vm_copy_early :: "ptr \<Rightarrow> ptr \<Rightarrow> nat \<Rightarrow> early_state \<Rightarrow> early_state option" where
  "vm_copy_early start dest n s =
     (if mapped (e_mm s) start n \<and> mapped (e_mm s) dest n
      then Some (s\<lparr>e_ram := copy_data (paged_rd (e_mm s)) (paged_wr (e_mm s)) start dest (int n) (e_ram s)\<rparr>)
      else None)"

definition vm_copy_from_user_early :: "ptr \<Rightarrow> ptr \<Rightarrow> nat \<Rightarrow> early_state \<Rightarrow> early_state option" where
  "vm_copy_from_user_early start dest n s =
     (if mapped (e_mm s) start n \<and> mapped (e_mm s) dest n
      then Some (s\<lparr>e_ram := snd (copy_from_user (paged_rd (e_mm s)) (paged_wr (e_mm s)) start dest (int n) (e_ram s))\<rparr>)
      else None)"

definition BUFFER_SIZE :: nat where "BUFFER_SIZE = 256"

text \<open>The loop of \<open>sys_write\<close>: the source address is advanced twice, by \<open>buffer\<close> and by \<open>size - bytes\<close>.\<close>

function write_loop_early :: "early_symtab \<Rightarrow> int \<Rightarrow> ptr \<Rightarrow> int \<Rightarrow> early_state \<Rightarrow> (ptr \<times> int \<times> early_state) option" where
  "write_loop_early E sz buf bytes s =
     (if bytes > int BUFFER_SIZE then
        Option.bind (vm_copy_from_user_early (buf + word_of_int (sz - bytes)) (es_buffer_k E) BUFFER_SIZE s) (\<lambda>s.
          case sys_write_console_early (\<lambda>i. view_early s (es_buffer_k E + word_of_int i)) (int BUFFER_SIZE) (e_con s) of
            (written_bytes, c) \<Rightarrow>
              write_loop_early E sz (buf + of_nat BUFFER_SIZE) (bytes - written_bytes) (s\<lparr>e_con := c\<rparr>))
      else Some (buf, bytes, s))"
  by pat_completeness auto
termination
  by (relation "measure (\<lambda>(E, sz, b, n, s). nat n)") (auto simp: sys_write_console_early_def BUFFER_SIZE_def)

declare write_loop_early.simps [simp del]

definition sys_write_early :: "early_symtab \<Rightarrow> int \<Rightarrow> ptr \<Rightarrow> int \<Rightarrow> early_state \<Rightarrow> (int \<times> early_state) option" where
  "sys_write_early E fd buf sz s =
     (let fd_error = check_fd_early fd 1 in
      if fd_error \<noteq> 0 then Some (fd_error, s)
      else if buf = 0 then Some (- EFAULT, s)
      else if sz < 0 then Some (- EINVAL, s)
      else if \<not> access_ok_early VERIFY_WRITE buf (word_of_int sz) then Some (- EFAULT, s)
      else Option.bind (write_loop_early E sz buf sz s) (\<lambda>(buf, bytes, s).
        Option.bind (vm_copy_from_user_early (buf + word_of_int (sz - bytes)) (es_buffer_k E) (nat bytes) s) (\<lambda>s.
          case sys_write_console_early (\<lambda>i. view_early s (es_buffer_k E + word_of_int i)) bytes (e_con s) of
            (written_bytes, c) \<Rightarrow> Some (sz - (bytes - written_bytes), s\<lparr>e_con := c\<rparr>))))"

section \<open>Fork\<close>

text \<open>\<open>copy_data(current(), new_kid, KERNEL_STACK_SIZE*4)\<close>: the structure with its two list nodes and the stack.\<close>

definition copy_task_early :: "ptr \<Rightarrow> ptr \<Rightarrow> early_state \<Rightarrow> early_state" where
  "copy_task_early t child s =
     s\<lparr>e_tasks := (e_tasks s)(child := e_tasks s t),
       e_links := (e_links s)(tnode_early child := e_links s (tnode_early t), kids_early child := e_links s (kids_early t)),
       e_kstack := (\<lambda>a. if unat child \<le> unat a \<and> unat a < unat child + PAGE_SIZE
                        then e_kstack s (a - child + t) else e_kstack s a)\<rparr>"

text \<open>The frames of the child. The test \<open>new_ph_pag < 0\<close> compares the address of the array, so a failed allocation
  goes unnoticed and \<open>-1\<close> is stored like a frame.\<close>

primrec fork_frames_early :: "nat \<Rightarrow> mm_state \<Rightarrow> DWord list \<times> mm_state" where
  "fork_frames_early 0 m = ([], m)"
| "fork_frames_early (Suc n) m =
     (case alloc_frame m of (f, m) \<Rightarrow>
      case fork_frames_early n m of (fs, m) \<Rightarrow> (dword_of_int f # fs, m))"

definition fork_share_early :: "ptr \<Rightarrow> ptr \<Rightarrow> DWord list \<Rightarrow> mm_state \<Rightarrow> mm_state" where
  "fork_share_early new_kidPT dadPT new_ph_pag m =
     (let m = fold (\<lambda>pag m. set_ss_pag new_kidPT (of_nat (pag + PAG_LOG_INIT_CODE_early))
                (get_frame dadPT (of_nat (pag + PAG_LOG_INIT_CODE_early)) m) m) [0..<NUM_PAG_CODE] m;
          m = fold (\<lambda>pag m. set_ss_pag new_kidPT (of_nat pag) (get_frame dadPT (of_nat pag) m) m) [0..<NUM_PAG_KERNEL] m
      in fold (\<lambda>pag. set_ss_pag new_kidPT (of_nat (PAG_LOG_INIT_DATA_early + pag)) (new_ph_pag ! pag)) [0..<NUM_PAG_DATA] m)"

primrec fork_copy_early :: "ptr \<Rightarrow> DWord list \<Rightarrow> nat list \<Rightarrow> early_state \<Rightarrow> early_state option" where
  "fork_copy_early dadPT new_ph_pag [] s = Some s"
| "fork_copy_early dadPT new_ph_pag (pag # pags) s =
     (let diff = NUM_PAG_CODE + NUM_PAG_DATA + NUM_PAG_KERNEL;
          s = upd_mm_early (set_ss_pag dadPT (of_nat (pag + diff)) (new_ph_pag ! pag)) s
      in Option.bind (vm_copy_early (of_nat ((NUM_PAG_KERNEL + pag) * 2 ^ 12)) (of_nat ((pag + diff) * 2 ^ 12)) PAGE_SIZE s) (\<lambda>s.
           fork_copy_early dadPT new_ph_pag pags (upd_mm_early (del_ss_pag dadPT (of_nat (pag + diff))) s)))"

definition fork_finish_early :: "early_symtab \<Rightarrow> ptr \<Rightarrow> early_state \<Rightarrow> int \<times> early_state" where
  "fork_finish_early E new_kid s =
     (let s = upd_mm_early (set_cr3 (get_DIR_early (current_early s) s)) s;
          s = upd_task_early new_kid (\<lambda>T. T\<lparr>e_PID := sumPID s\<rparr>) s;
          s = upd_task_early new_kid (\<lambda>T. T\<lparr>e_dad := current_early s\<rparr>) s;
          PID = sumPID s;
          s = s\<lparr>sumPID := wrap32 (sumPID s + 1)\<rparr>;
          s = upd_task_early new_kid (\<lambda>T. T\<lparr>e_status := ST_READY\<rparr>) s;
          s = upd_task_early new_kid (\<lambda>T. T\<lparr>e_quantum := 1000\<rparr>) s;
          s = upd_task_early new_kid (\<lambda>T. T\<lparr>e_pending_unblocks := 0\<rparr>) s;
          s = upd_links_early (INIT_LIST_HEAD (kids_early new_kid)) s;
          s = upd_links_early (list_add_tail (tnode_early new_kid) (kids_early (current_early s))) s;
          s = put_kstack_early (stack_slot new_kid (KERNEL_STACK_SIZE - 19)) 0 s;
          s = put_kstack_early (stack_slot new_kid (KERNEL_STACK_SIZE - 18)) (es_ret_from_fork E) s;
          s = upd_task_early new_kid (\<lambda>T. T\<lparr>e_kernel_esp := stack_slot new_kid (KERNEL_STACK_SIZE - 19)\<rparr>) s;
          s = upd_links_early (list_add_tail (tnode_early new_kid) (es_readyqueue E)) s
      in (PID, s))"

definition sys_fork_early :: "early_symtab \<Rightarrow> early_state \<Rightarrow> (int \<times> early_state) option" where
  "sys_fork_early E s =
     (if list_empty (es_freequeue E) (e_links s) then Some (- ENOMEM, s)
      else
        let get_h = list_first (es_freequeue E) (e_links s);
            s = upd_links_early (list_del get_h) s;
            new_kid = list_head_to_task_struct_early get_h;
            s = copy_task_early (current_early s) new_kid s;
            s = allocate_DIR_early E new_kid s
        in case fork_frames_early NUM_PAG_DATA (e_mm s) of (new_ph_pag, m) \<Rightarrow>
          let s = s\<lparr>e_mm := m\<rparr>;
              new_kidPT = get_PT_early new_kid s;
              dadPT = get_PT_early (current_early s) s;
              s = upd_mm_early (fork_share_early new_kidPT dadPT new_ph_pag) s
          in map_option (fork_finish_early E new_kid) (fork_copy_early dadPT new_ph_pag [0..<NUM_PAG_DATA] s))"

section \<open>Exit, block and unblock\<close>

text \<open>The loop over the children in \<open>sys_exit\<close>, which deletes the entry it stands on and then follows its \<open>next\<close>.\<close>

partial_function (option) exit_kids :: "ptr \<Rightarrow> ptr \<Rightarrow> early_state \<Rightarrow> early_state option" where
  "exit_kids e head s =
     (if e = head then Some s
      else if e = 0 then None
      else
        let s = upd_links_early (list_add_tail e (kids_early (e_idle_task s))) s;
            eST = list_head_to_task_struct_early e;
            s = upd_task_early eST (\<lambda>T. T\<lparr>e_dad := e_idle_task s\<rparr>) s;
            s = upd_links_early (list_del e) s
        in exit_kids (lh_next (e_links s e)) head s)"

definition release_data_early :: "ptr \<Rightarrow> mm_state \<Rightarrow> mm_state" where
  "release_data_early curPT m =
     fold (\<lambda>pag m.
         let frame = get_frame curPT (of_nat (pag + PAG_LOG_INIT_DATA_early)) m;
             m = free_frame frame m
         in del_ss_pag curPT (of_nat (pag + PAG_LOG_INIT_DATA_early)) m) [0..<NUM_PAG_DATA] m"

definition sys_exit_early :: "early_symtab \<Rightarrow> early_state \<Rightarrow> early_state option" where
  "sys_exit_early E s =
     (let cs = current_early s;
          curPT = get_PT_early cs s;
          e = list_first (kids_early cs) (e_links s)
      in Option.bind (if e \<noteq> 0 then exit_kids e (kids_early cs) s else Some s) (\<lambda>s.
           let s = upd_mm_early (release_data_early curPT) s;
               s = upd_links_early (list_add_tail (tnode_early (current_early s)) (es_freequeue E)) s
           in sched_next_rr_early E s))"

definition sys_block_early :: "early_symtab \<Rightarrow> early_state \<Rightarrow> early_state option" where
  "sys_block_early E s =
     (let pu = e_pending_unblocks (e_tasks s (current_early s)) in
      if pu = 0 then
        let s = upd_task_early (current_early s) (\<lambda>T. T\<lparr>e_status := ST_BLOCKED\<rparr>) s;
            s = upd_links_early (list_add_tail (tnode_early (current_early s)) (es_blocked E)) s
        in scheduler_early E s
      else Some (upd_task_early (current_early s) (\<lambda>T. T\<lparr>e_pending_unblocks := wrap32 (e_pending_unblocks T - 1)\<rparr>) s))"

text \<open>The loop of \<open>sys_unblock\<close>; the entry it stops at decides.\<close>

partial_function (option) unblock_walk :: "early_symtab \<Rightarrow> int \<Rightarrow> ptr \<Rightarrow> ptr \<Rightarrow> early_state \<Rightarrow> (int \<times> early_state) option" where
  "unblock_walk E pid e head s =
     (if e = head then Some (-1, s)
      else if e = 0 then None
      else
        let eST = list_head_to_task_struct_early e in
        if e_PID (e_tasks s eST) = pid then
          if e_status (e_tasks s eST) = ST_BLOCKED then
            let s = upd_task_early eST (\<lambda>T. T\<lparr>e_status := ST_READY\<rparr>) s;
                s = upd_links_early (list_del (tnode_early eST)) s;
                s = upd_links_early (list_add_tail e (es_readyqueue E)) s
            in Some (0, s)
          else Some (0, upd_task_early (current_early s) (\<lambda>T. T\<lparr>e_pending_unblocks := wrap32 (e_pending_unblocks T + 1)\<rparr>) s)
        else unblock_walk E pid (lh_next (e_links s e)) head s)"

definition sys_unblock_early :: "early_symtab \<Rightarrow> int \<Rightarrow> early_state \<Rightarrow> (int \<times> early_state) option" where
  "sys_unblock_early E pid s =
     unblock_walk E pid (lh_next (e_links s (kids_early (current_early s)))) (kids_early (current_early s)) s"

section \<open>The system call table\<close>

text \<open>\<open>SAVE_ALL\<close> of this kernel pushes \<open>edx\<close> last, so that \<open>edx\<close> is a call's first argument, \<open>ecx\<close> its second and
  \<open>ebx\<close> its third, as the stubs of \<open>wrappers.S\<close> load them.\<close>

definition sys_call_table_early :: "early_symtab \<Rightarrow> int \<Rightarrow> DWord \<Rightarrow> DWord \<Rightarrow> DWord \<Rightarrow> early_state \<Rightarrow> (int \<times> early_state) option" where
  "sys_call_table_early E nr ebx ecx edx s =
     (if nr = 1 then map_option (\<lambda>s. (0, s)) (sys_exit_early E s)
      else if nr = 2 then sys_fork_early E s
      else if nr = 4 then sys_write_early E (int_of_dword edx) ecx (int_of_dword ebx) s
      else if nr = 10 then Some (sys_gettime_early s)
      else if nr = 12 then map_option (\<lambda>s. (0, s)) (sys_block_early E s)
      else if nr = 13 then sys_unblock_early E (int_of_dword edx) s
      else if nr = 20 then Some (sys_getpid_early s)
      else if nr = 21 then None
      else Some (sys_ni_syscall_early s))"

text \<open>\<open>entry.S\<close> of this kernel has its own \<open>ENOSYS\<close>, 88, and calls a number one past the table.\<close>

definition syscall_handler_sysenter :: "early_symtab \<Rightarrow> int \<Rightarrow> DWord \<Rightarrow> DWord \<Rightarrow> DWord \<Rightarrow> early_state \<Rightarrow> (int \<times> early_state) option" where
  "syscall_handler_sysenter E nr ebx ecx edx s =
     (let s = kernel_entry_early s
      in if nr < 0 then Some (-88, s)
         else if nr > 21 then Some (-88, s)
         else sys_call_table_early E nr ebx ecx edx s)"

section \<open>Blocking\<close>

lemma sys_block_early_blocks:
  assumes E: "early_ok E" and rel: "early_rel E s A" and ni: "current_early s \<noteq> e_idle_task s"
    and pu: "e_pending_unblocks (e_tasks s (current_early s)) = 0"
  shows "\<exists>s'. sys_block_early E s = Some s' \<and> early_rel E s' (a_next_early E (e_idle_task s)
      ((a_queue A)(es_blocked E := a_queue A (es_blocked E) @ [current_early s])))"
proof -
  note r = early_relD [OF rel]
  let ?c = "current_early s" and ?Q = "(a_queue A)(es_blocked E := a_queue A (es_blocked E) @ [current_early s])"
  let ?s1 = "s\<lparr>e_tasks := (e_tasks s)(?c := (e_tasks s ?c)\<lparr>e_status := ST_BLOCKED\<rparr>),
      e_links := list_add_tail (tnode_early ?c) (es_blocked E) (e_links s), qticks := wrap32 (qticks s - 1)\<rparr>"
  have step: "sys_block_early E s = sched_next_rr_early E ?s1"
    using pu by (simp add: sys_block_early_def scheduler_early_def update_sched_data_rr_early_def needs_sched_rr_early_def
        update_process_state_rr_early_def Let_def upd_early_defs)
  have s6: "es_blocked E = es_readyqueue E \<Longrightarrow> P" for P using early_heads_neq(6) [OF E] by blast
  have l: "placed_early E ?s1 ?Q" "tasks_of_early E \<subseteq> insert (e_idle_task ?s1) (enqueued (heads_early E) ?Q)"
    "current_early ?s1 = ?c"
    by (rule leave_early [OF E rel ni _ _ _ _ _ _ s6]; simp)+
  have "?c \<notin> set (?Q (es_readyqueue E))" using not_enqueuedD [OF r(5), of "es_readyqueue E"] E by simp
  from a_next_early_cur [of s ?Q E, OF this ni] have nt: "a_cur (a_next_early E (e_idle_task ?s1) ?Q) \<noteq> current_early ?s1" by simp
  have "\<exists>s'. sched_next_rr_early E ?s1 = Some s' \<and> early_rel E s' (a_next_early E (e_idle_task ?s1) ?Q) \<and>
      qticks s' = e_quantum (e_tasks ?s1 (current_early s')) \<and> e_idle_task s' = e_idle_task ?s1"
    by (rule sched_next_early_rel [OF E l(1) _ l(2) nt]) (use r(4) in simp)
  then show ?thesis using step by fastforce
qed

text \<open>Waking a blocked task: it moves from the blocked queue to the ready queue.\<close>

lemma wake_early:
  assumes E: "early_ok E" and rel: "early_rel E s A" and ni: "current_early s \<noteq> e_idle_task s"
    and b: "a_queue A (es_blocked E) = us @ c # vs"
    and s': "e_links s' = list_add_tail (tnode_early c) (es_readyqueue E) (list_del (tnode_early c) (e_links s))"
      "e_tasks s' = (e_tasks s)(c := (e_tasks s c)\<lparr>e_status := ST_READY\<rparr>)" "e_esp s' = e_esp s"
      "e_idle_task s' = e_idle_task s" "e_tss_esp0 s' = e_tss_esp0 s" "e_msr_175 s' = e_msr_175 s" "e_mm s' = e_mm s"
  shows "early_rel E s' \<lparr>a_queue = (a_queue A)(es_blocked E := us @ vs, es_readyqueue E := a_queue A (es_readyqueue E) @ [c]),
    a_cur = a_cur A\<rparr>"
proof -
  note r = early_relD [OF rel]
  let ?Q = "a_queue A" and ?b = "es_blocked E" and ?r = "es_readyqueue E"
  let ?Q1 = "?Q(?b := us @ vs)" let ?Q2 = "?Q1(?r := ?Q1 ?r @ [c])"
  have c: "c \<in> set (?Q ?b)" "c \<in> tasks_of_early E" using b queues_earlyD(2) [OF r(2), of ?b] by auto
  have ne: "c \<noteq> current_early s" "c \<noteq> e_idle_task s" using c r(5) r(1) by (auto simp: placed_early_def enqueued_def)
  have enq1: "enqueued (heads_early E) ?Q1 = enqueued (heads_early E) ?Q - {c}"
    by (rule enqueued_early_del [OF r(2) _ b]) simp
  have q1: "queues_early E (list_del (tnode_early c) (e_links s)) ?Q1" by (rule queues_early_del [OF E r(2) _ b]) simp
  have q2: "queues_early E (e_links s') ?Q2" unfolding s'(1) by (rule queues_early_enq [OF E q1 c(2)]) (use enq1 in auto)
  have enq2: "enqueued (heads_early E) ?Q2 = insert c (enqueued (heads_early E) ?Q1)" by (rule enqueued_add) auto
  have enq: "enqueued (heads_early E) ?Q2 = enqueued (heads_early E) ?Q"
    using enq1 enq2 c(1) by (auto simp: enqueued_def)
  have cur: "current_early s' = current_early s" by (rule current_early_cong [OF s'(3)])
  have d: "c \<notin> set (us @ vs)" "c \<notin> set (?Q ?r)"
    using enq1 not_enqueuedD [of c "heads_early E" ?Q1 ?b] not_enqueuedD [of c "heads_early E" ?Q1 ?r] E by auto
  have Q2: "?Q2 ?r = ?Q ?r @ [c]" "?Q2 ?b = us @ vs" "?Q2 (es_freequeue E) = ?Q (es_freequeue E)" using E by simp_all
  have "placed_early E s' ?Q2"
    using r(1) q2 enq ne d b cur unfolding placed_early_def Q2 by (auto simp: s' resumable_early_def)
  then have "early_rel E s' \<lparr>a_queue = ?Q2, a_cur = a_cur A\<rparr>"
    using r ni ne enq cur unfolding early_rel_def by (auto simp: s')
  then show ?thesis using E by simp
qed

text \<open>\<open>sys_unblock\<close> when the first entry of the list of children is the process it looks for.\<close>

lemma sys_unblock_early_first:
  assumes E: "early_ok E" and rel: "early_rel E s A" and c: "c \<in> tasks_of_early E"
    and k: "lh_next (e_links s (kids_early (current_early s))) = tnode_early c" "e_PID (e_tasks s c) = pid"
  shows "sys_unblock_early E pid s =
    (if e_status (e_tasks s c) = ST_BLOCKED then
       Some (0, s\<lparr>e_tasks := (e_tasks s)(c := (e_tasks s c)\<lparr>e_status := ST_READY\<rparr>),
         e_links := list_add_tail (tnode_early c) (es_readyqueue E) (list_del (tnode_early c) (e_links s))\<rparr>)
     else Some (0, s\<lparr>e_tasks := (e_tasks s)(current_early s := (e_tasks s (current_early s))
         \<lparr>e_pending_unblocks := wrap32 (e_pending_unblocks (e_tasks s (current_early s)) + 1)\<rparr>)\<rparr>))"
proof -
  have "tnode_early c \<noteq> kids_early (current_early s)" "tnode_early c \<noteq> 0"
    using kids_not_tnode [OF E early_relD(4) [OF rel] c] early_node_nz(2) [OF E c] by simp_all
  then show ?thesis unfolding sys_unblock_early_def k(1)
    by (subst unblock_walk.simps) (simp add: k(2) upd_early_defs Let_def)
qed

text \<open>The walk over the children goes on as long as it meets other nodes of a closed set without the head.\<close>

lemma unblock_walk_visits:
  assumes "unblock_walk E pid e head s = Some x"
  shows "e \<in> C \<longrightarrow> (\<forall>p \<in> C. lh_next (e_links s p) \<in> C) \<longrightarrow> (\<exists>p \<in> C. p = head \<or> e_PID (e_tasks s (p - 8)) = pid)"
proof (rule unblock_walk.raw_induct [where P = "\<lambda>E pid e head s x. e \<in> C \<longrightarrow> (\<forall>p \<in> C. lh_next (e_links s p) \<in> C) \<longrightarrow>
      (\<exists>p \<in> C. p = head \<or> e_PID (e_tasks s (p - 8)) = pid)", OF _ assms], goal_cases)
  case (1 f E pid e head s x)
  show ?case
  proof (cases "e = head \<or> e_PID (e_tasks s (e - 8)) = pid")
    case False
    then have "f E pid (lh_next (e_links s e)) head s = Some x"
      using 1(2) by (simp add: Let_def list_head_to_task_struct_early_def split: if_splits)
    from 1(1) [OF this] show ?thesis by auto
  qed auto
qed

section \<open>The list of children\<close>

text \<open>
  \<open>sys_fork\<close> links the one node of the child first into the list of children of its parent and then into the ready
  queue. The second insertion takes the node over: the list of children leads into the ready queue and never back.
\<close>

lemma kids_into_ready:
  assumes E: "early_ok E" and c: "c \<in> tasks_of_early E" and k: "dlist h (kids_early c) []"
    and q: "queues_early E h Q" and t: "t \<in> tasks_of_early E" "t \<notin> enqueued (heads_early E) Q"
  defines "h' \<equiv> list_add_tail (tnode_early t) (es_readyqueue E) (list_add_tail (tnode_early t) (kids_early c) h)"
  shows "queues_early E h' (Q(es_readyqueue E := Q (es_readyqueue E) @ [t]))"
    "lh_next (h' (kids_early c)) = tnode_early t"
proof -
  let ?h1 = "list_add_tail (tnode_early t) (kids_early c) h" and ?k = "kids_early c"
  have kt: "?k \<noteq> tnode_early u" if "u \<in> tasks_of_early E" for u by (rule kids_not_tnode [OF E c that])
  have h1: "?h1 p = h p" if "p \<noteq> ?k" "p \<noteq> tnode_early t" for p
    by (rule list_add_tail_other [OF k]) (use that in simp)
  have q1: "queues_early E ?h1 Q"
  proof (rule queues_early_cong [OF q])
    fix r p assume p: "r \<in> heads_early E" "p \<in> set (r # map tnode_early (Q r))"
    have "tnode_early t \<notin> set (r # map tnode_early (Q r))" by (rule eq.family_node_fresh [OF E t p(1)])
    moreover have "?k \<notin> set (r # map tnode_early (Q r))"
      using task_nodes_not_head(2) [OF E c p(1)] kt queues_earlyD(2) [OF q p(1)] by auto
    ultimately show "?h1 p = h p" using p(2) by (intro h1) blast+
  qed
  from queues_early_enq [OF E q1 t] show "queues_early E h' (Q(es_readyqueue E := Q (es_readyqueue E) @ [t]))" by (simp add: h'_def)
  have "lh_next (?h1 ?k) = tnode_early t"
    using lq.repr_enq [OF k, of "tnode_early t"] kt [OF t(1)] by (auto simp: dlist_def)
  moreover have "h' ?k = ?h1 ?k" unfolding h'_def
    by (rule list_add_tail_other [OF queues_earlyD(1) [OF q1 heads_early_memI(2)]])
      (use task_nodes_not_head(2) [OF E c heads_early_memI(2)] kt t(1) queues_earlyD(2) [OF q1 heads_early_memI(2)] in auto)
  ultimately show "lh_next (h' ?k) = tnode_early t" by simp
qed

lemma ready_cycle:
  assumes E: "early_ok E" and c: "c \<in> tasks_of_early E" and q: "queues_early E h Q" and t: "t \<in> set (Q (es_readyqueue E))"
    and k: "lh_next (h (kids_early c)) = tnode_early t"
  defines "C \<equiv> set (es_readyqueue E # map tnode_early (Q (es_readyqueue E)))"
  shows "tnode_early t \<in> C" "\<forall>p \<in> C. lh_next (h p) \<in> C" "kids_early c \<notin> C" "list_for_each (kids_early c) h = None"
proof -
  note d = queues_earlyD(1) [OF q, of "es_readyqueue E", simplified]
  show 1: "tnode_early t \<in> C" using t by (simp add: C_def)
  show 2: "\<forall>p \<in> C. lh_next (h p) \<in> C"
  proof
    fix p assume "p \<in> C"
    then consider "p = es_readyqueue E" | "p \<in> set (map tnode_early (Q (es_readyqueue E)))" by (auto simp: C_def)
    then show "lh_next (h p) \<in> C"
    proof cases
      case 1
      have "seg h (es_readyqueue E) (map tnode_early (Q (es_readyqueue E))) (es_readyqueue E)" using d by (simp add: dlist_def)
      from seg_first [OF this] show ?thesis using 1 by (cases "Q (es_readyqueue E)") (simp_all add: C_def)
    next
      case 2
      then show ?thesis unfolding C_def by (rule dlist_links(1) [OF d])
    qed
  qed
  show 3: "kids_early c \<notin> C"
    using task_nodes_not_head(2) [OF E c heads_early_memI(2)] kids_not_tnode [OF E c] queues_earlyD(2) [OF q heads_early_memI(2)]
    by (auto simp: C_def)
  show "list_for_each (kids_early c) h = None"
    unfolding list_for_each_def k by (rule list_walk_diverges [OF 1 _ 3]) (use 2 in blast)
qed

text \<open>The walk of \<open>sys_exit\<close> takes the first child off the list and then follows its null link.\<close>

lemma sys_exit_early_faults:
  assumes E: "early_ok E" and c: "current_early s \<in> tasks_of_early E" and t: "t \<in> tasks_of_early E"
    and k: "lh_next (e_links s (kids_early (current_early s))) = tnode_early t"
  shows "sys_exit_early E s = None"
proof -
  have ne: "tnode_early t \<noteq> kids_early (current_early s)" "tnode_early t \<noteq> 0" "kids_early (current_early s) \<noteq> 0"
    using kids_not_tnode [OF E c t] early_node_nz(2) [OF E t] early_node_nz(3) [OF E c] by simp_all
  have z: "exit_kids 0 (kids_early (current_early s)) s' = None" for s'
    using ne(3) by (subst exit_kids.simps) simp
  have "exit_kids (tnode_early t) (kids_early (current_early s)) s = None"
    using ne z by (subst exit_kids.simps) (simp add: Let_def upd_early_defs list_del_entry)
  then show ?thesis using ne(2) by (simp add: sys_exit_early_def Let_def list_first_def k)
qed

section \<open>The bytes a write prints\<close>

text \<open>Byte \<open>i\<close> of the output of \<open>sys_write\<close> is read at this offset of the user buffer: every chunk of 256 bytes is
  followed by 256 bytes that are skipped.\<close>

definition written_offset :: "nat \<Rightarrow> nat" where
  "written_offset i = i + BUFFER_SIZE * (i div BUFFER_SIZE)"

definition last_chunk :: "nat \<Rightarrow> nat" where
  "last_chunk n = (n - 1) div BUFFER_SIZE"

text \<open>The part of the user buffer that is read and the kernel buffer are mapped and share no byte.\<close>

definition write_ready_early :: "mm_state \<Rightarrow> ptr \<Rightarrow> ptr \<Rightarrow> nat \<Rightarrow> bool" where
  "write_ready_early m kb buf n \<longleftrightarrow> mapped m buf n \<and> mapped m kb BUFFER_SIZE \<and>
     (\<forall>i<BUFFER_SIZE. \<forall>j<BUFFER_SIZE. to_phys m (kb + of_nat i) = to_phys m (kb + of_nat j) \<longrightarrow> i = j) \<and>
     (\<forall>k<n. \<forall>i<BUFFER_SIZE. to_phys m (kb + of_nat i) \<noteq> to_phys m (buf + of_nat k))"

lemma write_chunk_early:
  assumes w: "write_ready_early (e_mm s) kb buf N" and k: "o' + n \<le> N" "n \<le> BUFFER_SIZE"
  obtains r where "vm_copy_from_user_early (buf + of_nat o') kb n s = Some (s\<lparr>e_ram := r\<rparr>)"
    "\<forall>i<n. view_early (s\<lparr>e_ram := r\<rparr>) (kb + of_nat i) = view_early s (buf + of_nat (o' + i))"
    "\<forall>j<N. view_early (s\<lparr>e_ram := r\<rparr>) (buf + of_nat j) = view_early s (buf + of_nat j)"
proof -
  let ?r = "copy_data (paged_rd (e_mm s)) (paged_wr (e_mm s)) (buf + of_nat o') kb (int n) (e_ram s)"
  have sh: "buf + of_nat o' + of_nat i = buf + of_nat (o' + i)" for i by (simp add: add.assoc)
  have lt: "o' + i < N" "i < BUFFER_SIZE" if "i < n" for i using that k by linarith+
  have inj: "i = j" if "i < n" "j < n" "to_phys (e_mm s) (kb + of_nat i) = to_phys (e_mm s) (kb + of_nat j)" for i j
    using w lt(2) [OF that(1)] lt(2) [OF that(2)] that(3) unfolding write_ready_early_def by blast
  have dis: "to_phys (e_mm s) (kb + of_nat i) \<noteq> to_phys (e_mm s) (buf + of_nat (o' + j))" if "i < n" "j < n" for i j
    using w lt(2) [OF that(1)] lt(1) [OF that(2)] unfolding write_ready_early_def by blast
  have ap: "paged.apart (e_mm s) (buf + of_nat o') kb n"
    unfolding paged.apart_def sh using inj dis by blast
  note c = paged.copy_data_copied [OF ap, of "e_ram s"]
  have "mapped (e_mm s) (buf + of_nat o') n" "mapped (e_mm s) kb n"
    using w lt unfolding write_ready_early_def mapped_def sh by blast+
  then have "vm_copy_from_user_early (buf + of_nat o') kb n s = Some (s\<lparr>e_ram := ?r\<rparr>)"
    by (simp add: vm_copy_from_user_early_def copy_from_user_def copy_data_def split: prod.splits)
  moreover have "\<forall>i<n. view_early (s\<lparr>e_ram := ?r\<rparr>) (kb + of_nat i) = view_early s (buf + of_nat (o' + i))"
    using c unfolding paged.copied_def sh by (simp add: view_early_def)
  moreover have "view_early (s\<lparr>e_ram := ?r\<rparr>) (buf + of_nat j) = view_early s (buf + of_nat j)" if "j < N" for j
  proof -
    have "\<forall>i<n. to_phys (e_mm s) (buf + of_nat j) \<noteq> to_phys (e_mm s) (kb + of_nat i)"
      using w lt(2) that unfolding write_ready_early_def by metis
    then show ?thesis using c by (simp add: view_early_def paged.copied_def)
  qed
  ultimately show thesis using that by blast
qed

lemma sys_write_console_early_map:
  "sys_write_console_early buf (int n) c = (int n, fold printc_early (map (\<lambda>i. buf (int i)) [0..<n]) c)"
proof -
  have "[0..int n - 1] = map int [0..<n]"
  proof (induction n)
    case (Suc n)
    have "[0..int n] = [0..int n - 1] @ [int n]" by (rule upto_rec2) simp
    with Suc show ?case by simp
  qed simp
  then show ?thesis by (simp add: sys_write_console_early_def fold_map comp_def)
qed

text \<open>What a whole chunk or the rest, \<open>n\<close> bytes from chunk \<open>j\<close> on, prints.\<close>

lemma print_chunk_early:
  assumes v: "\<forall>i<n. view_early s1 (kb + of_nat i) = view_early s (buf + of_nat (2 * BUFFER_SIZE * j + i))" and n: "n \<le> BUFFER_SIZE"
  shows "sys_write_console_early (\<lambda>i. view_early s1 (kb + word_of_int i)) (int n) c =
    (int n, fold printc_early (map (\<lambda>i. view_early s (buf + of_nat (written_offset i))) [BUFFER_SIZE * j..<BUFFER_SIZE * j + n]) c)"
proof -
  have o': "written_offset (BUFFER_SIZE * j + i) = 2 * BUFFER_SIZE * j + i" if "i < n" for i
    using that n by (simp add: written_offset_def BUFFER_SIZE_def div_mult_self4)
  have "[BUFFER_SIZE * j..<BUFFER_SIZE * j + n] = map (\<lambda>i. BUFFER_SIZE * j + i) [0..<n]"
    using map_add_upt [of "BUFFER_SIZE * j" n] unfolding add.commute [of _ "BUFFER_SIZE * j"] by simp
  then have "map (\<lambda>i. view_early s (buf + of_nat (written_offset i))) [BUFFER_SIZE * j..<BUFFER_SIZE * j + n] =
      map (\<lambda>i. view_early s1 (kb + of_nat i)) [0..<n]"
    using v o' by (simp add: comp_def del: of_nat_add of_nat_mult)
  then show ?thesis unfolding sys_write_console_early_map by simp
qed

lemma upt_split: "i \<le> j \<Longrightarrow> j \<le> k \<Longrightarrow> [i..<k] = [i..<j] @ [j..<k]"
  using upt_add_eq_append [of i j "k - j"] by simp

lemma last_chunk_bounds:
  "n - BUFFER_SIZE * last_chunk n \<le> BUFFER_SIZE" "j < last_chunk n \<Longrightarrow> BUFFER_SIZE < n - BUFFER_SIZE * j"
  "BUFFER_SIZE * last_chunk n \<le> n"
proof -
  have "BUFFER_SIZE * last_chunk n \<le> n - 1" "n - 1 < BUFFER_SIZE * last_chunk n + BUFFER_SIZE"
    unfolding last_chunk_def by (simp_all add: BUFFER_SIZE_def)
  then show "n - BUFFER_SIZE * last_chunk n \<le> BUFFER_SIZE" "BUFFER_SIZE * last_chunk n \<le> n" by linarith+
  assume j: "j < last_chunk n"
  then have "BUFFER_SIZE * (j + 1) \<le> BUFFER_SIZE * last_chunk n" by (intro mult_le_mono2) simp
  moreover have "0 < last_chunk n" using j by simp
  then have "0 < n" by (cases n) (simp_all add: last_chunk_def)
  ultimately show "BUFFER_SIZE < n - BUFFER_SIZE * j" using \<open>BUFFER_SIZE * last_chunk n \<le> n - 1\<close> by (simp add: algebra_simps)
qed

lemma written_offset_less: "i < n \<Longrightarrow> written_offset i < n + BUFFER_SIZE * last_chunk n"
proof -
  assume i: "i < n"
  then have "i div BUFFER_SIZE \<le> last_chunk n" unfolding last_chunk_def by (intro div_le_mono) simp
  then have "BUFFER_SIZE * (i div BUFFER_SIZE) \<le> BUFFER_SIZE * last_chunk n" by (rule mult_le_mono2)
  then show ?thesis using i unfolding written_offset_def by linarith
qed

lemma write_loop_early_spec:
  fixes n :: nat and buf :: ptr
  defines "N \<equiv> n + BUFFER_SIZE * last_chunk n" and "k \<equiv> last_chunk n"
  shows "write_ready_early (e_mm s) (es_buffer_k E) buf N \<Longrightarrow> j + d = k \<Longrightarrow>
    \<exists>r. write_loop_early E (int n) (buf + of_nat (BUFFER_SIZE * j)) (int (n - BUFFER_SIZE * j)) s =
      Some (buf + of_nat (BUFFER_SIZE * k), int (n - BUFFER_SIZE * k),
        s\<lparr>e_con := fold printc_early (map (\<lambda>i. view_early s (buf + of_nat (written_offset i))) [BUFFER_SIZE * j..<BUFFER_SIZE * k]) (e_con s),
          e_ram := r\<rparr>) \<and> (\<forall>i<N. view_early (s\<lparr>e_ram := r\<rparr>) (buf + of_nat i) = view_early s (buf + of_nat i))"
proof (induction d arbitrary: j s)
  case 0
  then show ?case using last_chunk_bounds(1) [of n]
    by (intro exI [of _ "e_ram s"]) (simp add: k_def write_loop_early.simps)
next
  case (Suc d)
  let ?B = BUFFER_SIZE and ?kb = "es_buffer_k E"
  let ?f = "\<lambda>s i. view_early s (buf + of_nat (written_offset i))"
  have j: "j < k" "Suc j + d = k" using Suc.prems(2) by simp_all
  have bnd: "?B < n - ?B * j" "?B * k \<le> n" "2 * ?B * j + ?B \<le> N"
  proof -
    show 1: "?B < n - ?B * j" "?B * k \<le> n" using j(1) last_chunk_bounds(2) [of j n] last_chunk_bounds(3) [of n] by (simp_all add: k_def)
    have "?B * j \<le> ?B * k" using j(1) by simp
    then show "2 * ?B * j + ?B \<le> N" using 1 unfolding N_def k_def by linarith
  qed
  obtain r where r: "vm_copy_from_user_early (buf + of_nat (2 * ?B * j)) ?kb ?B s = Some (s\<lparr>e_ram := r\<rparr>)"
    "\<forall>i<?B. view_early (s\<lparr>e_ram := r\<rparr>) (?kb + of_nat i) = view_early s (buf + of_nat (2 * ?B * j + i))"
    "\<forall>i<N. view_early (s\<lparr>e_ram := r\<rparr>) (buf + of_nat i) = view_early s (buf + of_nat i)"
    by (rule write_chunk_early [OF Suc.prems(1) bnd(3)]) simp
  let ?s1 = "s\<lparr>e_ram := r, e_con := fold printc_early (map (?f s) [?B * j..<?B * j + ?B]) (e_con s)\<rparr>"
  have src: "buf + of_nat (?B * j) + word_of_int (int n - int (n - ?B * j)) = buf + of_nat (2 * ?B * j)"
    using bnd(1) by (simp add: of_nat_diff)
  have nxt: "buf + of_nat (?B * j) + of_nat ?B = buf + of_nat (?B * Suc j)" "int (n - ?B * j) - int ?B = int (n - ?B * Suc j)"
    using bnd(1) by (simp_all add: of_nat_diff)
  have step: "write_loop_early E (int n) (buf + of_nat (?B * j)) (int (n - ?B * j)) s =
      write_loop_early E (int n) (buf + of_nat (?B * Suc j)) (int (n - ?B * Suc j)) ?s1"
    using bnd(1) unfolding write_loop_early.simps [of E "int n" "buf + of_nat (?B * j)" "int (n - ?B * j)" s] src r(1)
    by (simp add: print_chunk_early [OF r(2) order_refl] nxt del: of_nat_mult of_nat_diff mult_Suc_right)
  have "write_ready_early (e_mm ?s1) ?kb buf N" using Suc.prems(1) by simp
  from Suc.IH [OF this j(2)] obtain r' where r': "write_loop_early E (int n) (buf + of_nat (?B * Suc j)) (int (n - ?B * Suc j)) ?s1 =
      Some (buf + of_nat (?B * k), int (n - ?B * k),
        ?s1\<lparr>e_con := fold printc_early (map (?f ?s1) [?B * Suc j..<?B * k]) (e_con ?s1), e_ram := r'\<rparr>)"
    "\<forall>i<N. view_early (?s1\<lparr>e_ram := r'\<rparr>) (buf + of_nat i) = view_early ?s1 (buf + of_nat i)" by blast
  have v1: "view_early ?s1 (buf + of_nat i) = view_early s (buf + of_nat i)" if "i < N" for i
    using r(3) that by (simp add: view_early_def)
  have "?f ?s1 i = ?f s i" if "i < ?B * k" for i
    using v1 written_offset_less [of i n] that bnd(2) by (simp add: N_def)
  then have m: "map (?f ?s1) [?B * Suc j..<?B * k] = map (?f s) [?B * Suc j..<?B * k]" by (intro map_cong) auto
  have sp: "[?B * j..<?B * k] = [?B * j..<?B * j + ?B] @ [?B * Suc j..<?B * k]"
  proof -
    have "?B * Suc j \<le> ?B * k" using j(1) by (intro mult_le_mono2) simp
    then show ?thesis using upt_split [of "?B * j" "?B * Suc j" "?B * k"] by (simp add: add.commute)
  qed
  have con: "fold printc_early (map (?f ?s1) [?B * Suc j..<?B * k]) (e_con ?s1) = fold printc_early (map (?f s) [?B * j..<?B * k]) (e_con s)"
    unfolding m sp map_append fold_append comp_def by simp
  show ?case unfolding step r'(1) con using v1 r'(2) by (intro exI [of _ r']) (simp add: view_early_def)
qed

lemma sys_write_early_prints:
  assumes w: "write_ready_early (e_mm s) (es_buffer_k E) buf (n + BUFFER_SIZE * last_chunk n)"
    and b: "buf \<noteq> 0" "access_ok_early VERIFY_WRITE buf (of_nat n)"
  shows "\<exists>r. sys_write_early E 1 buf (int n) s =
    Some (int n, s\<lparr>e_con := fold printc_early (map (\<lambda>i. view_early s (buf + of_nat (written_offset i))) [0..<n]) (e_con s), e_ram := r\<rparr>)"
proof -
  let ?B = BUFFER_SIZE and ?k = "last_chunk n" and ?kb = "es_buffer_k E" and ?N = "n + BUFFER_SIZE * last_chunk n"
  let ?f = "\<lambda>s i. view_early s (buf + of_nat (written_offset i))"
  obtain r where r: "write_loop_early E (int n) buf (int n) s = Some (buf + of_nat (?B * ?k), int (n - ?B * ?k),
      s\<lparr>e_con := fold printc_early (map (?f s) [0..<?B * ?k]) (e_con s), e_ram := r\<rparr>)"
    "\<forall>i<?N. view_early (s\<lparr>e_ram := r\<rparr>) (buf + of_nat i) = view_early s (buf + of_nat i)"
    using write_loop_early_spec [OF w, of 0 ?k] by auto
  let ?s1 = "s\<lparr>e_con := fold printc_early (map (?f s) [0..<?B * ?k]) (e_con s), e_ram := r\<rparr>" and ?m = "n - ?B * ?k"
  note lb = last_chunk_bounds(1,3) [of n]
  have src: "buf + of_nat (?B * ?k) + (of_nat n - of_nat ?m) = buf + of_nat (2 * ?B * ?k)"
    using lb by (simp add: of_nat_diff)
  have w1: "write_ready_early (e_mm ?s1) ?kb buf ?N" using w by simp
  obtain r' where r': "vm_copy_from_user_early (buf + of_nat (2 * ?B * ?k)) ?kb ?m ?s1 = Some (?s1\<lparr>e_ram := r'\<rparr>)"
    "\<forall>i<?m. view_early (?s1\<lparr>e_ram := r'\<rparr>) (?kb + of_nat i) = view_early ?s1 (buf + of_nat (2 * ?B * ?k + i))"
    by (rule write_chunk_early [OF w1, of "2 * ?B * ?k" ?m]) (use lb in simp_all)
  have "?f ?s1 i = ?f s i" if "i < n" for i
    using r(2) written_offset_less [OF that] by (simp add: view_early_def)
  then have m: "map (?f ?s1) [?B * ?k..<n] = map (?f s) [?B * ?k..<n]" by (intro map_cong) auto
  have sp: "[0..<n] = [0..<?B * ?k] @ [?B * ?k..<n]" using upt_split [of 0 "?B * ?k" n] lb(2) by simp
  have km: "?B * ?k + ?m = n" using lb(2) by simp
  have con: "fold printc_early (map (?f ?s1) [?B * ?k..<?B * ?k + ?m]) (e_con ?s1) = fold printc_early (map (?f s) [0..<n]) (e_con s)"
    unfolding km m sp map_append fold_append comp_def by simp
  note pr = print_chunk_early [OF r'(2) lb(1), of "e_con ?s1", unfolded con]
  have "sys_write_early E 1 buf (int n) s = Some (int n, ?s1\<lparr>e_ram := r', e_con := fold printc_early (map (?f s) [0..<n]) (e_con s)\<rparr>)"
    using b pr by (simp add: sys_write_early_def check_fd_early_def Let_def r(1) src r'(1) del: of_nat_mult of_nat_diff)
  then show ?thesis by (intro exI [of _ r']) simp
qed

section \<open>A flat address space\<close>

text \<open>Page tables that map the first 4 MB to themselves: the directory at address 0, its table at 4096.\<close>

definition flat_mm :: mm_state where
  "flat_mm = \<lparr>phys_mem = replicate TOTAL_PAGES 0,
     ptes = (\<lambda>a. if a = 0 then push_bit 12 1 OR 1 else push_bit 12 (drop_bit 2 (a - 4096)) OR 1), cr3 = 0, cr0 = 0\<rparr>"

lemma pte_flat: "pte_present (push_bit 12 p OR 1)" "pbase_addr (push_bit 12 p OR 1) = take_bit 20 p"
  by (simp add: pte_present_def bit_simps, rule bit_word_eqI) (auto simp: pbase_addr_def bit_simps)

lemma page_walk_flat:
  assumes "unat a < TOTAL_PAGES * 4096"
  shows "page_walk flat_mm a = Some a"
proof -
  let ?p = "unat a div 4096"
  have p: "?p < 1024" using assms by (simp add: TOTAL_PAGES_def)
  have "unat (pt_slot 4096 (of_nat ?p)) = 4096 + 4 * ?p"
    using p by (simp add: pt_slot_def unat_word_ariths unat_of_nat)
  then have nz: "pt_slot 4096 (of_nat ?p) \<noteq> 0" by auto
  have "unat (drop_bit 2 (4 * of_nat ?p :: ptr)) = ?p"
    using p by (simp add: drop_bit_eq_div unat_div unat_word_ariths unat_of_nat)
  then have d: "drop_bit 2 (4 * of_nat ?p :: ptr) = drop_bit 12 a"
    by (simp add: word_unat_eq_iff drop_bit_eq_div unat_div)
  have pde: "pte_present 4097" "push_bit 12 (pbase_addr 4097) = 4096" by (simp_all add: pte_present_def pbase_addr_def)
  have "page_walk flat_mm a = Some (push_bit 12 (take_bit 20 (drop_bit 12 a)) OR take_bit 12 a)"
    using page_walk_pt [of flat_mm 4096 a] assms nz d pde by (simp add: flat_mm_def pte_flat pt_slot_def Let_def)
  also have "push_bit 12 (take_bit 20 (drop_bit 12 a)) OR take_bit 12 a = a"
    by (rule bit_word_eqI) (auto simp: bit_simps)
  finally show ?thesis .
qed

section \<open>Properties\<close>

text \<open>C38: \<open>sys_write\<close> of the earlier kernel. With good arguments it returns the size and prints as many characters, but
  not those of the buffer: the source address is advanced twice for each chunk of 256, so byte \<open>i\<close> of the output is byte
  \<open>i + 256 * (i div 256)\<close> of the buffer, the second block of 256 of each pair is left out, and for more than one chunk
  it reads up to \<open>256 * ((n - 1) div 256)\<close> bytes after the block that \<open>access_ok\<close> has checked. Only up to 256 bytes does
  it print the buffer. A bad descriptor, a null buffer, a negative size and a bad block are refused, in this order.\<close>

theorem sys_write_early_skips:
  "(write_ready_early (e_mm s) (es_buffer_k E) buf (n + BUFFER_SIZE * last_chunk n) \<and> buf \<noteq> 0 \<and> access_ok_early VERIFY_WRITE buf (of_nat n) \<longrightarrow>
      (\<exists>r. sys_write_early E 1 buf (int n) s =
        Some (int n, s\<lparr>e_con := fold printc_early (map (\<lambda>i. view_early s (buf + of_nat (written_offset i))) [0..<n]) (e_con s), e_ram := r\<rparr>))) \<and>
   (n \<le> BUFFER_SIZE \<longrightarrow> map (\<lambda>i. view_early s (buf + of_nat (written_offset i))) [0..<n] = map (\<lambda>i. view_early s (buf + of_nat i)) [0..<n]) \<and>
   (BUFFER_SIZE < n \<longrightarrow> n \<le> written_offset (n - 1)) \<and>
   (fd \<noteq> 1 \<longrightarrow> sys_write_early E fd buf nb s = Some (-9, s)) \<and>
   sys_write_early E 1 0 nb s = Some (- EFAULT, s) \<and>
   (buf \<noteq> 0 \<and> nb < 0 \<longrightarrow> sys_write_early E 1 buf nb s = Some (- EINVAL, s)) \<and>
   (buf \<noteq> 0 \<and> 0 \<le> nb \<and> \<not> access_ok_early VERIFY_WRITE buf (word_of_int nb) \<longrightarrow> sys_write_early E 1 buf nb s = Some (- EFAULT, s))"
proof -
  have "BUFFER_SIZE < n \<Longrightarrow> n \<le> written_offset (n - 1)"
  proof -
    assume "BUFFER_SIZE < n"
    then have "1 \<le> (n - 1) div BUFFER_SIZE" by (simp add: BUFFER_SIZE_def div_greater_zero_iff Suc_le_eq)
    then have "BUFFER_SIZE * 1 \<le> BUFFER_SIZE * ((n - 1) div BUFFER_SIZE)" by (rule mult_le_mono2)
    then show ?thesis unfolding written_offset_def by (simp add: BUFFER_SIZE_def)
  qed
  moreover have "written_offset i = i" if "i < n" "n \<le> BUFFER_SIZE" for i using that by (simp add: written_offset_def)
  ultimately show ?thesis using sys_write_early_prints [of s E buf n] by (auto simp: sys_write_early_def check_fd_early_def)
qed

theorem sys_write_early_skips_witness:
  "\<exists>r. sys_write_early example_early 1 0x108000 600 (zero_early\<lparr>e_mm := flat_mm\<rparr>) = Some (600, (zero_early\<lparr>e_mm := flat_mm\<rparr>)
     \<lparr>e_con := fold printc_early (map (\<lambda>i. view_early (zero_early\<lparr>e_mm := flat_mm\<rparr>) (0x108000 + of_nat (written_offset i))) [0..<600]) (e_con zero_early),
       e_ram := r\<rparr>)"
proof -
  have a: "unat (0x108000 + of_nat i :: ptr) = 0x108000 + i" "unat (0x18100 + of_nat i :: ptr) = 0x18100 + i" if "i < 2000" for i
    using that by (simp_all add: unat_word_ariths unat_of_nat)
  have w: "page_walk flat_mm (0x108000 + of_nat i) = Some (0x108000 + of_nat i)" "page_walk flat_mm (0x18100 + of_nat i) = Some (0x18100 + of_nat i)"
    if "i < 2000" for i using that a by (simp_all add: page_walk_flat TOTAL_PAGES_def)
  have "write_ready_early flat_mm 0x18100 0x108000 1112"
    unfolding write_ready_early_def mapped_def to_phys_def
  proof (intro conjI allI impI)
    fix i j assume "i < BUFFER_SIZE" "j < BUFFER_SIZE"
      "(case page_walk flat_mm (0x18100 + of_nat i) of None \<Rightarrow> 0 | Some pa \<Rightarrow> pa) = (case page_walk flat_mm (0x18100 + of_nat j) of None \<Rightarrow> 0 | Some pa \<Rightarrow> pa)"
    then show "i = j" using w [of i] w [of j] a [of i] a [of j] by (simp add: BUFFER_SIZE_def word_unat_eq_iff)
  next
    fix i k assume "k < (1112::nat)" "i < BUFFER_SIZE"
    then show "(case page_walk flat_mm (0x18100 + of_nat i) of None \<Rightarrow> 0 | Some pa \<Rightarrow> pa) \<noteq> (case page_walk flat_mm (0x108000 + of_nat k) of None \<Rightarrow> 0 | Some pa \<Rightarrow> pa)"
      using w [of i] w [of k] a [of i] a [of k] by (simp add: BUFFER_SIZE_def word_unat_eq_iff)
  qed (use w in \<open>simp_all add: BUFFER_SIZE_def\<close>)
  moreover have "access_ok_early VERIFY_WRITE 0x108000 (of_nat 600)"
    by (simp add: access_ok_early_def Let_def layout_consts drop_bit_eq_div VERIFY_WRITE_def)
  ultimately show ?thesis
    using sys_write_early_skips [of "zero_early\<lparr>e_mm := flat_mm\<rparr>" example_early "0x108000" 600] by (simp add: example_early_def last_chunk_def BUFFER_SIZE_def)
qed

text \<open>C37: Blocking in the earlier kernel. \<open>sys_block\<close> of a process with no pending unblocks puts it at the end of the blocked
  queue and runs the first ready process, or the idle process; with pending unblocks it takes one of them and goes on.
  \<open>sys_unblock\<close> of the first child moves it from the blocked queue to the end of the ready queue when it is blocked; when it
  is not, the unblock is recorded in the caller's own counter, so that the next \<open>sys_block\<close> of the child still blocks.
  With no children it returns \<open>-1\<close>.\<close>

theorem sys_block_unblock_early:
  assumes E: "early_ok E" and rel: "early_rel E s A" and ni: "current_early s \<noteq> e_idle_task s"
  defines "cur \<equiv> current_early s"
  shows "(e_pending_unblocks (e_tasks s cur) = 0 \<longrightarrow> (\<exists>s'. sys_block_early E s = Some s' \<and>
      early_rel E s' (a_next_early E (e_idle_task s) ((a_queue A)(es_blocked E := a_queue A (es_blocked E) @ [cur]))))) \<and>
    (e_pending_unblocks (e_tasks s cur) \<noteq> 0 \<longrightarrow> sys_block_early E s =
      Some (s\<lparr>e_tasks := (e_tasks s)(cur := (e_tasks s cur)\<lparr>e_pending_unblocks := wrap32 (e_pending_unblocks (e_tasks s cur) - 1)\<rparr>)\<rparr>)) \<and>
    (c \<in> tasks_of_early E \<and> lh_next (e_links s (kids_early cur)) = tnode_early c \<and> e_PID (e_tasks s c) = pid \<longrightarrow>
      (a_queue A (es_blocked E) = us @ c # vs \<longrightarrow> (\<exists>s'. sys_unblock_early E pid s = Some (0, s') \<and> early_rel E s'
        \<lparr>a_queue = (a_queue A)(es_blocked E := us @ vs, es_readyqueue E := a_queue A (es_readyqueue E) @ [c]), a_cur = a_cur A\<rparr>)) \<and>
      (e_status (e_tasks s c) \<noteq> ST_BLOCKED \<longrightarrow> (\<exists>s'. sys_unblock_early E pid s = Some (0, s') \<and>
        e_pending_unblocks (e_tasks s' cur) = wrap32 (e_pending_unblocks (e_tasks s cur) + 1) \<and>
        (c \<noteq> cur \<longrightarrow> e_tasks s' c = e_tasks s c)))) \<and>
    (dlist (e_links s) (kids_early cur) [] \<longrightarrow> sys_unblock_early E pid s = Some (-1, s))"
proof (intro conjI impI)
  show "\<exists>s'. sys_block_early E s = Some s' \<and>
      early_rel E s' (a_next_early E (e_idle_task s) ((a_queue A)(es_blocked E := a_queue A (es_blocked E) @ [cur])))"
    if "e_pending_unblocks (e_tasks s cur) = 0"
    using sys_block_early_blocks [OF E rel ni] that by (simp add: cur_def)
  show "sys_block_early E s = Some (s\<lparr>e_tasks := (e_tasks s)(cur := (e_tasks s cur)
      \<lparr>e_pending_unblocks := wrap32 (e_pending_unblocks (e_tasks s cur) - 1)\<rparr>)\<rparr>)"
    if "e_pending_unblocks (e_tasks s cur) \<noteq> 0"
    using that by (simp add: sys_block_early_def cur_def upd_early_defs Let_def)
  show "sys_unblock_early E pid s = Some (-1, s)" if "dlist (e_links s) (kids_early cur) []"
    using that by (simp add: sys_unblock_early_def cur_def unblock_walk.simps dlist_def)
next
  assume "c \<in> tasks_of_early E \<and> lh_next (e_links s (kids_early cur)) = tnode_early c \<and> e_PID (e_tasks s c) = pid"
  then have c: "c \<in> tasks_of_early E" "lh_next (e_links s (kids_early (current_early s))) = tnode_early c" "e_PID (e_tasks s c) = pid"
    by (simp_all add: cur_def)
  note u = sys_unblock_early_first [OF E rel c]
  show "\<exists>s'. sys_unblock_early E pid s = Some (0, s') \<and> early_rel E s'
      \<lparr>a_queue = (a_queue A)(es_blocked E := us @ vs, es_readyqueue E := a_queue A (es_readyqueue E) @ [c]), a_cur = a_cur A\<rparr>"
    if b: "a_queue A (es_blocked E) = us @ c # vs"
  proof -
    have "e_status (e_tasks s c) = ST_BLOCKED" using early_relD(1) [OF rel] b by (simp add: placed_early_def)
    with wake_early [OF E rel ni b] show ?thesis unfolding u by simp
  qed
  show "\<exists>s'. sys_unblock_early E pid s = Some (0, s') \<and> e_pending_unblocks (e_tasks s' cur) = wrap32 (e_pending_unblocks (e_tasks s cur) + 1) \<and>
      (c \<noteq> cur \<longrightarrow> e_tasks s' c = e_tasks s c)" if "e_status (e_tasks s c) \<noteq> ST_BLOCKED"
    using that unfolding u cur_def by simp
qed

theorem sys_block_unblock_early_witness:
  "(\<exists>s'. sys_block_early example_early booted_early = Some s' \<and> early_rel example_early s' (a_next_early example_early (task_early example_early 9)
      ((a_queue (boot_abs_early example_early))(es_blocked example_early := [task_early example_early 8])))) \<and>
   sys_unblock_early example_early 5 booted_early = Some (-1, booted_early)"
proof -
  note f = boot_early_fields(2,6,15) [OF example_early_ok, of zero_early, folded booted_early_def] boot_early_fields(5) [OF example_early_ok]
  have c: "current_early booted_early = task_early example_early 8"
    using early_relD(3) [OF booted_early_rel] by (simp add: boot_abs_early_def)
  have "a_queue (boot_abs_early example_early) (es_blocked example_early) = []" by (simp add: boot_abs_early_def example_early_def)
  then show ?thesis
    using sys_block_unblock_early [OF example_early_ok booted_early_rel, where pid = 5] f unfolding c by simp
qed

end
