(* ===== verification/Zeos_Early_Fork.thy ===== *)
theory Zeos_Early_Fork
  imports Zeos_Early_Sys
begin

text \<open>
  \<open>sys_fork\<close> of the earlier kernel: what its steps do to the page tables, to the queues and to the list of
  children, from a state whose page directories are those \<open>init_dir_pages\<close> wrote.
\<close>

section \<open>Page tables\<close>

lemma early_okD_tables:
  assumes "early_ok E"
  shows "kernel_obj (es_dir_pages E) (10 * 4096)" "kernel_obj (es_pagusr_table E) (10 * 4096)"
    "disjoint_objs (es_dir_pages E) (10 * 4096) (es_pagusr_table E) (10 * 4096)" "unat (es_pagusr_table E) mod 4096 = 0"
  using assms by (simp_all add: early_ok_def early_objs_def NR_TASKS_def PAGE_SIZE_def)

lemma unat_dir_early:
  assumes "early_ok E" "i < NR_TASKS"
  shows "unat (dir_pages_early E i) = unat (es_dir_pages E) + i * 4096"
proof -
  have "i * 4096 \<le> 10 * 4096" using assms(2) by (simp add: NR_TASKS_def)
  from unat_sym_offset [OF early_okD_tables(1) [OF assms(1)] this] show ?thesis
    by (simp only: dir_pages_early_def PAGE_SIZE_def)
qed

lemma unat_slot_early:
  assumes "early_ok E" "i < NR_TASKS" "p < TOTAL_PAGES"
  shows "unat (pt_slot (pagusr_table_early E i) (of_nat p)) = unat (es_pagusr_table E) + (i * 4096 + 4 * p)"
proof -
  have "i * 4096 + 4 * p \<le> 10 * 4096" using assms(2,3) by (simp add: NR_TASKS_def TOTAL_PAGES_def)
  moreover have "pt_slot (pagusr_table_early E i) (of_nat p) = es_pagusr_table E + of_nat (i * 4096 + 4 * p)"
    by (simp add: pt_slot_def pagusr_table_early_def PAGE_SIZE_def)
  ultimately show ?thesis using unat_sym_offset [OF early_okD_tables(2) [OF assms(1)]] by (simp only:)
qed

lemma slot_early_inject:
  assumes "early_ok E" "i < NR_TASKS" "p < TOTAL_PAGES" "j < NR_TASKS" "q < TOTAL_PAGES"
  shows "pt_slot (pagusr_table_early E i) (of_nat p) = pt_slot (pagusr_table_early E j) (of_nat q) \<longleftrightarrow> i = j \<and> p = q"
proof
  assume "pt_slot (pagusr_table_early E i) (of_nat p) = pt_slot (pagusr_table_early E j) (of_nat q)"
  then have "unat (es_pagusr_table E) + (i * 4096 + 4 * p) = unat (es_pagusr_table E) + (j * 4096 + 4 * q)"
    using unat_slot_early [OF assms(1-3)] unat_slot_early [OF assms(1,4,5)] by (simp only:)
  then have e: "i * 1024 + p = j * 1024 + q" by simp
  then have "(i * 1024 + p) mod 1024 = (j * 1024 + q) mod 1024" by simp
  then have "p = q" using assms(3,5) by (simp add: TOTAL_PAGES_def)
  then show "i = j \<and> p = q" using e by simp
qed simp

lemma dir_early_not_slot:
  assumes "early_ok E" "i < NR_TASKS" "j < NR_TASKS" "p < TOTAL_PAGES"
  shows "dir_pages_early E i \<noteq> pt_slot (pagusr_table_early E j) (of_nat p)"
proof
  assume "dir_pages_early E i = pt_slot (pagusr_table_early E j) (of_nat p)"
  then have "unat (es_dir_pages E) + i * 4096 = unat (es_pagusr_table E) + (j * 4096 + 4 * p)"
    using unat_dir_early [OF assms(1,2)] unat_slot_early [OF assms(1,3,4)] by (simp only:)
  then show False
    using early_okD_tables(3) [OF assms(1)] assms(2-4) by (auto simp: disjoint_objs_def NR_TASKS_def TOTAL_PAGES_def)
qed

text \<open>The directory of every task points to its own page table.\<close>

definition tables_early :: "early_symtab \<Rightarrow> mm_state \<Rightarrow> bool" where
  "tables_early E m \<longleftrightarrow> (\<forall>i<NR_TASKS. pte_present (ptes m (dir_pages_early E i)) \<and>
     push_bit 12 (pbase_addr (ptes m (dir_pages_early E i))) = pagusr_table_early E i)"

section \<open>The steps of fork\<close>

lemma fork_frames_early_frame:
  "fork_frames_early n m = (fs, m') \<Longrightarrow> ptes m' = ptes m \<and> cr3 m' = cr3 m \<and> length fs = n"
proof (induction n arbitrary: m fs m')
  case (Suc n)
  obtain f m1 where a: "alloc_frame m = (f, m1)" by fastforce
  obtain gs m2 where g: "fork_frames_early n m1 = (gs, m2)" by fastforce
  show ?case using Suc.IH [OF g] Suc.prems alloc_frame_frame(1,2) [of m, unfolded a] by (auto simp: a g)
qed simp

lemma fold_set_ss_pag_frame:
  assumes "\<And>x. x \<in> set xs \<Longrightarrow> a \<noteq> pt_slot PT (of_nat (g x))"
  shows "ptes (fold (\<lambda>x m. set_ss_pag PT (of_nat (g x)) (f x m) m) xs m) a = ptes m a"
    "cr3 (fold (\<lambda>x m. set_ss_pag PT (of_nat (g x)) (f x m) m) xs m) = cr3 m"
  using assms by (induction xs arbitrary: m) (simp_all add: ptes_set_ss_pag)

lemma fork_share_early_frame:
  assumes "\<And>p. p < TOTAL_PAGES \<Longrightarrow> a \<noteq> pt_slot PT (of_nat p)"
  shows "ptes (fork_share_early PT dadPT fs m) a = ptes m a" "cr3 (fork_share_early PT dadPT fs m) = cr3 m"
proof -
  have "pag + PAG_LOG_INIT_CODE_early < TOTAL_PAGES" if "pag < NUM_PAG_CODE" for pag
    using that by (simp add: PAG_LOG_INIT_CODE_early_def PAG_LOG_INIT_DATA_early_def layout_consts)
  moreover have "pag < TOTAL_PAGES" if "pag < NUM_PAG_KERNEL" for pag using that by (simp add: layout_consts)
  moreover have "PAG_LOG_INIT_DATA_early + pag < TOTAL_PAGES" if "pag < NUM_PAG_DATA" for pag
    using that by (simp add: PAG_LOG_INIT_DATA_early_def layout_consts)
  ultimately have s: "\<And>pag. pag \<in> set [0..<NUM_PAG_CODE] \<Longrightarrow> a \<noteq> pt_slot PT (of_nat (pag + PAG_LOG_INIT_CODE_early))"
    "\<And>pag. pag \<in> set [0..<NUM_PAG_KERNEL] \<Longrightarrow> a \<noteq> pt_slot PT (of_nat pag)"
    "\<And>pag. pag \<in> set [0..<NUM_PAG_DATA] \<Longrightarrow> a \<noteq> pt_slot PT (of_nat (PAG_LOG_INIT_DATA_early + pag))"
    using assms by (auto simp del: of_nat_add)
  note f = fold_set_ss_pag_frame [of _ a PT]
  show "ptes (fork_share_early PT dadPT fs m) a = ptes m a"
    unfolding fork_share_early_def Let_def by (rule trans [OF f(1) trans [OF f(1) f(1)]]) (erule s)+
  show "cr3 (fork_share_early PT dadPT fs m) = cr3 m"
    unfolding fork_share_early_def Let_def by (rule trans [OF f(2) trans [OF f(2) f(2)]]) (erule s)+
qed

text \<open>The window through which the data pages are copied.\<close>

definition window_early :: "nat \<Rightarrow> nat" where
  "window_early pag = pag + (NUM_PAG_CODE + NUM_PAG_DATA + NUM_PAG_KERNEL)"

lemma fork_copy_early_ok:
  assumes "set ps \<subseteq> {..<NUM_PAG_DATA}" "pte_present (ptes (e_mm s) (cr3 (e_mm s)))"
    "push_bit 12 (pbase_addr (ptes (e_mm s) (cr3 (e_mm s)))) = PT"
    "\<forall>p<TOTAL_PAGES. pt_slot PT (of_nat p) \<noteq> cr3 (e_mm s)"
    "\<forall>p<NUM_PAG_DATA. pte_present (ptes (e_mm s) (pt_slot PT (of_nat (NUM_PAG_KERNEL + p))))"
  shows "\<exists>m r. fork_copy_early PT fs ps s = Some (s\<lparr>e_mm := m, e_ram := r\<rparr>)"
  using assms
proof (induction ps arbitrary: s)
  case Nil
  then show ?case by (intro exI [of _ "e_mm s"] exI [of _ "e_ram s"]) simp
next
  case (Cons pag ps)
  let ?w = "window_early pag"
  let ?m = "set_ss_pag PT (of_nat ?w) (fs ! pag) (e_mm s)"
  have pag: "pag < NUM_PAG_DATA" using Cons.prems(1) by simp
  then have w: "?w < TOTAL_PAGES" "NUM_PAG_KERNEL + pag < TOTAL_PAGES" by (simp_all add: window_early_def layout_consts)
  have ne: "pt_slot PT (of_nat (NUM_PAG_KERNEL + p)) \<noteq> pt_slot PT (of_nat ?w)" if "p < NUM_PAG_DATA" for p
    using pt_slot_nat_inject [of "NUM_PAG_KERNEL + p" ?w PT] that w by (simp add: window_early_def layout_consts del: of_nat_add)
  have c: "pt_slot PT (of_nat ?w) \<noteq> cr3 (e_mm s)" using Cons.prems(4) w(1) by blast
  have d: "pte_present (ptes ?m (cr3 ?m))" "push_bit 12 (pbase_addr (ptes ?m (cr3 ?m))) = PT"
    using Cons.prems(2,3) c by (simp_all add: ptes_set_ss_pag)
  have one: "p = q" if "unat (of_nat (q * 4096) :: ptr) div 4096 \<le> p" "p * 4096 < unat (of_nat (q * 4096) :: ptr) + 4096" "q < TOTAL_PAGES" for p q :: nat
    using that by (simp add: unat_of_nat TOTAL_PAGES_def del: of_nat_mult)
  have un: "unat (of_nat (q * 4096) :: ptr) + 4096 \<le> TOTAL_PAGES * 4096" if "q < TOTAL_PAGES" for q
    using that by (simp add: unat_of_nat TOTAL_PAGES_def del: of_nat_mult)
  have "pte_present (ptes ?m (pt_slot PT (of_nat (NUM_PAG_KERNEL + pag))))" "pte_present (ptes ?m (pt_slot PT (of_nat ?w)))"
    using ne [OF pag] Cons.prems(5) pag by (simp_all add: ptes_set_ss_pag del: of_nat_add)
  then have m1: "mapped ?m (of_nat ((NUM_PAG_KERNEL + pag) * 4096)) 4096" and m2: "mapped ?m (of_nat (?w * 4096)) 4096"
    using one w by (metis mapped_pt [OF d un])+
  let ?r = "copy_data (paged_rd ?m) (paged_wr ?m) (of_nat ((NUM_PAG_KERNEL + pag) * 4096)) (of_nat (?w * 4096)) (int 4096) (e_ram s)"
  let ?s1 = "s\<lparr>e_ram := ?r, e_mm := del_ss_pag PT (of_nat ?w) ?m\<rparr>"
  have step: "fork_copy_early PT fs (pag # ps) s = fork_copy_early PT fs ps ?s1"
    using m1 m2 by (simp add: Let_def upd_early_defs vm_copy_early_def window_early_def PAGE_SIZE_def del: of_nat_add of_nat_mult)
  have "\<exists>m r. fork_copy_early PT fs ps ?s1 = Some (?s1\<lparr>e_mm := m, e_ram := r\<rparr>)"
    by (rule Cons.IH) (use Cons.prems c ne in \<open>simp_all add: ptes_set_ss_pag del: of_nat_add\<close>)
  then show ?case unfolding step by simp
qed

section \<open>The whole call\<close>

text \<open>The state in which a process can fork: its task is number \<open>i\<close> with the directory of that number, the directories
  are intact, its data pages are present, and some task \<open>j\<close> is free.\<close>

definition fork_ready_early :: "early_symtab \<Rightarrow> early_state \<Rightarrow> sched_abs \<Rightarrow> nat \<Rightarrow> nat \<Rightarrow> ptr list \<Rightarrow> bool" where
  "fork_ready_early E s A i j F \<longleftrightarrow> early_rel E s A \<and> current_early s \<noteq> e_idle_task s \<and> i < NR_TASKS \<and> j < NR_TASKS \<and>
     current_early s = task_early E i \<and> e_dir_pages_baseAddr (e_tasks s (current_early s)) = dir_pages_early E i \<and>
     a_queue A (es_freequeue E) = task_early E j # F \<and> tables_early E (e_mm s) \<and>
     (\<forall>p<NUM_PAG_DATA. pte_present (ptes (e_mm s) (pt_slot (pagusr_table_early E i) (of_nat (NUM_PAG_KERNEL + p)))))"

text \<open>The links after the copy of the task.\<close>

definition fork_links_early :: "ptr \<Rightarrow> ptr \<Rightarrow> links \<Rightarrow> links" where
  "fork_links_early c t h =
     (let h = list_del (tnode_early t) h
      in INIT_LIST_HEAD (kids_early t) (h(tnode_early t := h (tnode_early c), kids_early t := h (kids_early c))))"

text \<open>The state after fork, up to the contents of memory and of the kernel stack of the child.\<close>

definition forked_early :: "early_symtab \<Rightarrow> nat \<Rightarrow> early_state \<Rightarrow> mm_state \<Rightarrow> (ptr \<Rightarrow> Byte) \<Rightarrow> (ptr \<Rightarrow> DWord) \<Rightarrow> early_state" where
  "forked_early E j s m r k =
     (let c = current_early s; t = task_early E j in s\<lparr>
      e_links := list_add_tail (tnode_early t) (es_readyqueue E) (list_add_tail (tnode_early t) (kids_early c) (fork_links_early c t (e_links s))),
      e_tasks := (e_tasks s)(t := (e_tasks s c)\<lparr>e_dir_pages_baseAddr := dir_pages_early E j, e_PID := sumPID s, e_dad := c,
        e_status := ST_READY, e_quantum := 1000, e_pending_unblocks := 0, e_kernel_esp := stack_slot t (KERNEL_STACK_SIZE - 19)\<rparr>),
      e_kstack := k, e_mm := m, e_ram := r, sumPID := wrap32 (sumPID s + 1)\<rparr>)"

lemma fork_ready_earlyD:
  assumes E: "early_ok E" and f: "fork_ready_early E s A i j F"
  shows "early_rel E s A" "task_early E i \<noteq> task_early E j" "i \<noteq> j" "task_early E j \<in> tasks_of_early E"
    "list_empty (es_freequeue E) (e_links s) = False" "list_first (es_freequeue E) (e_links s) = tnode_early (task_early E j)"
    "cr3 (e_mm s) = dir_pages_early E i"
proof -
  show rel: "early_rel E s A" using f by (simp add: fork_ready_early_def)
  note r = early_relD [OF rel]
  have Q: "a_queue A (es_freequeue E) = task_early E j # F" using f by (simp add: fork_ready_early_def)
  show "task_early E j \<in> tasks_of_early E" "list_first (es_freequeue E) (e_links s) = tnode_early (task_early E j)"
    by (rule take_free_early [OF E r(2) Q])+
  show "list_empty (es_freequeue E) (e_links s) = False" using queues_early_empty [OF r(2), of "es_freequeue E"] Q by simp
  show ne: "task_early E i \<noteq> task_early E j"
    using not_enqueuedD [OF r(5), of "es_freequeue E"] Q f by (auto simp: fork_ready_early_def)
  then show "i \<noteq> j" by auto
  show "cr3 (e_mm s) = dir_pages_early E i" using r(11) f unfolding fork_ready_early_def by metis
qed

lemma sys_fork_early_eq:
  assumes E: "early_ok E" and f: "fork_ready_early E s A i j F"
  defines "c \<equiv> current_early s" and "t \<equiv> task_early E j"
  shows "\<exists>m r k. sys_fork_early E s = Some (sumPID s, forked_early E j s m r k) \<and> cr3 m = dir_pages_early E i"
proof -
  note D = fork_ready_earlyD [OF E f]
  have i: "i < NR_TASKS" "j < NR_TASKS" "c = task_early E i" "e_dir_pages_baseAddr (e_tasks s c) = dir_pages_early E i"
    and tb: "tables_early E (e_mm s)" and ct: "c \<noteq> t"
    using f D(2) by (auto simp: fork_ready_early_def c_def t_def)
  obtain fs m' where fr: "fork_frames_early NUM_PAG_DATA (e_mm s) = (fs, m')" by fastforce
  note m' = fork_frames_early_frame [OF fr]
  let ?PT = "pagusr_table_early E i" and ?h1 = "list_del (tnode_early t) (e_links s)"
  let ?m = "fork_share_early (pagusr_table_early E j) ?PT fs m'"
  let ?s3 = "s\<lparr>e_links := ?h1(tnode_early t := ?h1 (tnode_early c), kids_early t := ?h1 (kids_early c)),
      e_kstack := (\<lambda>a. if unat t \<le> unat a \<and> unat a < unat t + PAGE_SIZE then e_kstack s (a - t + c) else e_kstack s a),
      e_tasks := (e_tasks s)(t := (e_tasks s c)\<lparr>e_dir_pages_baseAddr := dir_pages_early E j\<rparr>), e_mm := ?m\<rparr>"
  have step: "sys_fork_early E s = map_option (fork_finish_early E t) (fork_copy_early ?PT fs [0..<NUM_PAG_DATA] ?s3)"
    using D(5) tb i ct by (simp add: sys_fork_early_def D(6) Let_def upd_early_defs copy_task_early_def alloc_DIR_early [OF E i(2), folded t_def]
        fr get_PT_early_def m' tables_early_def cong: if_cong flip: c_def t_def)
  have fr': "ptes ?m a = ptes (e_mm s) a" if "\<And>p. p < TOTAL_PAGES \<Longrightarrow> a \<noteq> pt_slot (pagusr_table_early E j) (of_nat p)" for a
    using fork_share_early_frame(1) [OF that] m' by simp
  note nd = dir_early_not_slot [OF E i(1,2)]
  have c3: "cr3 ?m = dir_pages_early E i" using fork_share_early_frame(2) [OF nd] m' D(7) by simp
  have c4: "ptes ?m (dir_pages_early E i) = ptes (e_mm s) (dir_pages_early E i)" by (rule fr' [OF nd])
  have "ptes ?m (pt_slot ?PT (of_nat (NUM_PAG_KERNEL + p))) = ptes (e_mm s) (pt_slot ?PT (of_nat (NUM_PAG_KERNEL + p)))"
    if "p < NUM_PAG_DATA" for p
    by (rule fr') (use slot_early_inject [OF E i(1) _ i(2), of "NUM_PAG_KERNEL + p"] D(3) that in \<open>simp add: layout_consts del: of_nat_add\<close>)
  then have "\<exists>m r. fork_copy_early ?PT fs [0..<NUM_PAG_DATA] ?s3 = Some (?s3\<lparr>e_mm := m, e_ram := r\<rparr>)"
    using f tb i(1) dir_early_not_slot [OF E i(1,1), symmetric]
    by (intro fork_copy_early_ok) (auto simp: c3 c4 tables_early_def fork_ready_early_def simp del: of_nat_add)
  then obtain m r where mr: "fork_copy_early ?PT fs [0..<NUM_PAG_DATA] ?s3 = Some (?s3\<lparr>e_mm := m, e_ram := r\<rparr>)" by blast
  have "\<exists>k. fork_finish_early E t (?s3\<lparr>e_mm := m, e_ram := r\<rparr>) = (sumPID s, forked_early E j s (set_cr3 (dir_pages_early E i) m) r k)"
    using ct i(4) by (intro exI [of _ "(e_kstack ?s3)(stack_slot t (KERNEL_STACK_SIZE - 19) := 0,
        stack_slot t (KERNEL_STACK_SIZE - 18) := es_ret_from_fork E)"]) (simp add: fork_finish_early_def Let_def upd_early_defs get_DIR_early_def fork_links_early_def forked_early_def flip: c_def t_def)
  then obtain k where fin: "fork_finish_early E t (?s3\<lparr>e_mm := m, e_ram := r\<rparr>) = (sumPID s, forked_early E j s (set_cr3 (dir_pages_early E i) m) r k)" by blast
  show ?thesis unfolding step mr option.simps(9) fin
    by (intro exI [of _ "set_cr3 (dir_pages_early E i) m"] exI [of _ r] exI [of _ k] conjI refl) (simp add: set_cr3_def)
qed

section \<open>The queues after fork\<close>

lemma fork_links_early_queues:
  assumes E: "early_ok E" and q: "queues_early E h Q" and Q: "Q (es_freequeue E) = t # F"
    and c: "c \<in> tasks_of_early E" "c \<noteq> t" and k: "dlist h (kids_early c) []"
  defines "Q1 \<equiv> Q(es_freequeue E := F)"
  shows "queues_early E (fork_links_early c t h) Q1" "t \<notin> enqueued (heads_early E) Q1"
    "enqueued (heads_early E) Q1 = enqueued (heads_early E) Q - {t}" "dlist (fork_links_early c t h) (kids_early c) []"
proof -
  note tf = take_free_early [OF E q Q]
  let ?h1 = "list_del (tnode_early t) h"
  let ?h2 = "?h1(tnode_early t := ?h1 (tnode_early c), kids_early t := ?h1 (kids_early c))"
  show enq: "enqueued (heads_early E) Q1 = enqueued (heads_early E) Q - {t}"
    unfolding Q1_def using enqueued_early_del [OF q, of "es_freequeue E" "[]" t F] Q by simp
  then show nt: "t \<notin> enqueued (heads_early E) Q1" by simp
  have "queues_early E ?h2 Q1"
  proof (rule queues_early_cong [OF tf(3) [folded Q1_def]])
    fix r p assume p: "r \<in> heads_early E" "p \<in> set (r # map tnode_early (Q1 r))"
    have "tnode_early t \<notin> set (r # map tnode_early (Q1 r))" by (rule eq.family_node_fresh [OF E tf(2) nt p(1)])
    moreover have "kids_early t \<notin> set (r # map tnode_early (Q1 r))"
      using task_nodes_not_head(2) [OF E tf(2) p(1)] kids_not_tnode [OF E tf(2)] queues_earlyD(2) [OF tf(3) [folded Q1_def] p(1)] by auto
    ultimately have "p \<noteq> tnode_early t" "p \<noteq> kids_early t" using p(2) by metis+
    then show "?h2 p = ?h1 p" by simp
  qed
  from tf(4) [OF tf(2) this] show "queues_early E (fork_links_early c t h) Q1" by (simp add: fork_links_early_def Let_def)
  have "kids_early c \<notin> set (es_freequeue E # map tnode_early (Q (es_freequeue E)))"
    using task_nodes_not_head(2) [OF E c(1)] kids_not_tnode [OF E c(1)] queues_earlyD(2) [OF q, of "es_freequeue E"] by auto
  from list_del_other [OF queues_earlyD(1) [OF q heads_early_memI(1)] _ this, of "tnode_early t"]
  have "?h1 (kids_early c) = h (kids_early c)" using Q by simp
  moreover have "kids_early c \<noteq> kids_early t" "kids_early c \<noteq> tnode_early t"
    using c(2) kids_not_tnode [OF E c(1) tf(2)] by (simp_all add: kids_early_def)
  ultimately have "fork_links_early c t h (kids_early c) = h (kids_early c)"
    by (simp add: fork_links_early_def Let_def INIT_LIST_HEAD_other)
  then show "dlist (fork_links_early c t h) (kids_early c) []" using k dlist_cong [of "kids_early c" "[]" "fork_links_early c t h" h] by simp
qed

lemma fork_early_rel:
  assumes E: "early_ok E" and rel: "early_rel E s A" and ni: "current_early s \<noteq> e_idle_task s"
    and Q: "a_queue A (es_freequeue E) = t # F" and t: "t \<noteq> current_early s"
    and q: "queues_early E (e_links s') ((a_queue A)(es_freequeue E := F, es_readyqueue E := a_queue A (es_readyqueue E) @ [t]))"
      "enqueued (heads_early E) ((a_queue A)(es_freequeue E := F)) = enqueued (heads_early E) (a_queue A) - {t}"
    and s': "e_tasks s' = (e_tasks s)(t := T)" "e_status T = ST_READY" "e_kernel_esp T = stack_slot t (KERNEL_STACK_SIZE - 19)"
      "e_esp s' = e_esp s" "e_idle_task s' = e_idle_task s" "e_tss_esp0 s' = e_tss_esp0 s" "e_msr_175 s' = e_msr_175 s"
      "cr3 (e_mm s') = cr3 (e_mm s)"
  shows "early_rel E s' \<lparr>a_queue = (a_queue A)(es_freequeue E := F, es_readyqueue E := a_queue A (es_readyqueue E) @ [t]), a_cur = a_cur A\<rparr>"
proof -
  note r = early_relD [OF rel] and tf = take_free_early [OF E early_relD(2) [OF rel] Q]
  let ?Q = "(a_queue A)(es_freequeue E := F, es_readyqueue E := a_queue A (es_readyqueue E) @ [t])"
  let ?Q1 = "(a_queue A)(es_freequeue E := F)"
  have tq: "t \<in> enqueued (heads_early E) (a_queue A)" using Q by (auto simp: enqueued_def intro!: bexI [of _ "es_freequeue E"])
  have "enqueued (heads_early E) (?Q1(es_readyqueue E := ?Q1 (es_readyqueue E) @ [t])) = insert t (enqueued (heads_early E) ?Q1)"
    by (rule enqueued_add) auto
  then have enq: "enqueued (heads_early E) ?Q = enqueued (heads_early E) (a_queue A)" using q(2) tq E by auto
  have cur: "current_early s' = current_early s" by (rule current_early_cong [OF s'(4)])
  have ti: "t \<noteq> e_idle_task s" using r(1) tq by (auto simp: placed_early_def)
  have nb: "t \<notin> set (a_queue A (es_blocked E))" "t \<notin> set (a_queue A (es_readyqueue E))" "t \<notin> set F"
    using q(2) not_enqueuedD [of t "heads_early E" ?Q1 "es_blocked E"] not_enqueuedD [of t "heads_early E" ?Q1 "es_readyqueue E"]
      not_enqueuedD [of t "heads_early E" ?Q1 "es_freequeue E"] E by auto
  have res: "resumable_early s' t"
    using page_mask_offset [OF task_early_aligned [OF E tf(2)], of 4016]
    by (simp add: resumable_early_def s' stack_slot_def KERNEL_STACK_SIZE_def add.commute)
  have Q': "?Q (es_readyqueue E) = a_queue A (es_readyqueue E) @ [t]" "?Q (es_blocked E) = a_queue A (es_blocked E)" "?Q (es_freequeue E) = F"
    using E by simp_all
  have "placed_early E s' ?Q"
    using r(1) q(1) enq ti nb res t cur Q unfolding placed_early_def Q' by (auto simp: s' resumable_early_def)
  then show ?thesis using r ni t enq cur unfolding early_rel_def by (auto simp: s')
qed

section \<open>The first process can fork\<close>

lemma pagusr_early_aligned:
  assumes "early_ok E" "i < NR_TASKS"
  shows "push_bit 12 (take_bit 20 (drop_bit 12 (pagusr_table_early E i))) = pagusr_table_early E i"
proof -
  have "unat (pagusr_table_early E i) = unat (es_pagusr_table E) + i * 4096"
    using unat_slot_early [OF assms, of 0] by (simp add: pt_slot_def TOTAL_PAGES_def)
  then have "unat (pagusr_table_early E i) mod 4096 = 0" using early_okD_tables(4) [OF assms(1)] by simp
  then have "pagusr_table_early E i AND 0xfffff000 = pagusr_table_early E i"
    using page_mask_offset [of "pagusr_table_early E i" 0] by simp
  moreover have "push_bit 12 (take_bit 20 (drop_bit 12 a)) = a AND 0xfffff000" for a :: "32 word"
    unfolding page_mask_eq by (rule bit_word_eqI) (auto simp: bit_simps)
  ultimately show ?thesis by simp
qed

lemma dir_early_inject: "early_ok E \<Longrightarrow> i < NR_TASKS \<Longrightarrow> j < NR_TASKS \<Longrightarrow> dir_pages_early E i = dir_pages_early E j \<longleftrightarrow> i = j"
  using unat_dir_early [of E i] unat_dir_early [of E j] by (metis add_left_cancel mult_cancel2 numeral_neq_zero)

lemma init_dir_pages_early_tables:
  assumes "early_ok E"
  shows "tables_early E (init_dir_pages_early E m)"
proof -
  have "ptes (init_dir_pages_early E m) (pt_slot (dir_pages_early E i) 0) =
      set_present (set_rw (set_user (set_pbase_addr (drop_bit 12 (pagusr_table_early E i)) 0)))" if "i < NR_TASKS" for i
    unfolding init_dir_pages_early_def Let_def pte_upd_twice ptes_fold_pte_upd
    by (subst fold_if_at [where Q = True and k = i]) (use that dir_early_inject [OF assms] in \<open>auto simp: pt_slot_def\<close>)
  then show ?thesis using pagusr_early_aligned [OF assms] by (simp add: tables_early_def pt_slot_def)
qed

lemma tables_early_cong:
  assumes "tables_early E m" "\<And>i. i < NR_TASKS \<Longrightarrow> ptes m' (dir_pages_early E i) = ptes m (dir_pages_early E i)"
  shows "tables_early E m'"
  using assms by (simp add: tables_early_def)

lemma set_user_pages_early_eq:
  "set_user_pages_early PT m =
     fold (map_new_frame PT PAG_LOG_INIT_DATA_early
         (\<lambda>f. set_present (set_rw (set_user (set_pbase_addr (dword_of_int f) 0))))) [0..<NUM_PAG_DATA]
       (fold (map_new_frame PT PAG_LOG_INIT_CODE_early
         (\<lambda>f. set_present (set_user (set_pbase_addr (dword_of_int f) 0)))) [0..<NUM_PAG_CODE] m)"
  by (simp add: set_user_pages_early_def map_new_frame_def [abs_def] Let_def)

lemma map_new_frame_present:
  assumes "\<And>f. pte_present (G f)" "pte_present (ptes m a) \<or> a \<in> (\<lambda>p. pt_slot PT (of_nat (base + p))) ` set ps"
  shows "pte_present (ptes (fold (map_new_frame PT base G) ps m) a)"
  using assms(2)
proof (induction ps arbitrary: m)
  case (Cons p ps)
  obtain f m1 where a: "alloc_frame m = (f, m1)" by fastforce
  have "ptes (map_new_frame PT base G p m) a = (if a = pt_slot PT (of_nat (base + p)) then G f else ptes m a)"
    using alloc_frame_frame(1) [of m, unfolded a] by (simp add: map_new_frame_def a)
  then show ?case using Cons assms(1) by (auto simp del: of_nat_add)
qed simp

lemma boot_fork_ready:
  fixes s :: early_state
  assumes E: "early_ok E"
  defines "s' \<equiv> kernel_entry_early (init_kernel_early E s)"
  shows "fork_ready_early E s' (boot_abs_early E) 8 7 (rev (map (task_early E) [0..<7]))"
    "current_early s' = task_early E 8"
proof -
  note f = boot_early_fields(1,2) [OF E, of s, folded s'_def] boot_early_fields(5) [OF E] boot_early_fields(6,13,14) [OF E, of s, folded s'_def]
  let ?m = "e_mm (init_mm_early E s)" and ?PT = "pagusr_table_early E 8"
  have rel: "early_rel E s' (boot_abs_early E)" unfolding s'_def by (rule boot_early_rel [OF E])
  have n: "8 < NR_TASKS" "7 < NR_TASKS" by (simp_all add: NR_TASKS_def)
  show cur: "current_early s' = task_early E 8" using early_relD(3) [OF rel] by (simp add: boot_abs_early_def)
  have "ptes ?m = ptes (init_dir_pages_early E (init_frames (init_table_pages_early E (e_mm s))))"
    by (simp add: init_mm_early_def Let_def upd_early_defs allocate_DIR_early_def get_DIR_early_def set_cr3_def set_pe_flag_def)
  then have tb: "tables_early E ?m" by (intro tables_early_cong [OF init_dir_pages_early_tables [OF E]]) simp
  then have mm: "e_mm s' = set_cr3 (dir_pages_early E 8) (set_user_pages_early ?PT ?m)" using f(6) n by (simp add: tables_early_def)
  have C: "PAG_LOG_INIT_CODE_early + p < TOTAL_PAGES" if "p < NUM_PAG_CODE" for p
    using that by (simp add: PAG_LOG_INIT_CODE_early_def PAG_LOG_INIT_DATA_early_def layout_consts)
  have D: "PAG_LOG_INIT_DATA_early + p < TOTAL_PAGES" if "p < NUM_PAG_DATA" for p
    using that by (simp add: PAG_LOG_INIT_DATA_early_def layout_consts)
  have "ptes (e_mm s') (dir_pages_early E i) = ptes ?m (dir_pages_early E i)" if "i < NR_TASKS" for i
  proof -
    note nd = dir_early_not_slot [OF E that n(1)]
    have "dir_pages_early E i \<notin> (\<lambda>p. pt_slot ?PT (of_nat (PAG_LOG_INIT_DATA_early + p))) ` set [0..<NUM_PAG_DATA]"
      "dir_pages_early E i \<notin> (\<lambda>p. pt_slot ?PT (of_nat (PAG_LOG_INIT_CODE_early + p))) ` set [0..<NUM_PAG_CODE]"
      using nd [OF D] nd [OF C] by (metis (no_types, lifting) atLeastLessThan_iff imageE set_upt)+
    then show ?thesis unfolding mm ptes_set_cr3 set_user_pages_early_eq by (simp only: ptes_map_new_frame not_False_eq_True)
  qed
  from tables_early_cong [OF tb this] have "tables_early E (e_mm s')" .
  moreover have "pte_present (ptes (e_mm s') (pt_slot ?PT (of_nat (NUM_PAG_KERNEL + p))))" if "p < NUM_PAG_DATA" for p
    unfolding mm ptes_set_cr3 set_user_pages_early_eq
    by (rule map_new_frame_present) (use that in \<open>auto simp: PAG_LOG_INIT_DATA_early_def layout_consts\<close>)
  moreover have "[0..<8] = [0..<7] @ [7 :: nat]" by code_simp
  ultimately show "fork_ready_early E s' (boot_abs_early E) 8 7 (rev (map (task_early E) [0..<7]))"
    using rel cur f(3-5) n by (simp add: fork_ready_early_def boot_abs_early_def)
qed

section \<open>Properties\<close>

text \<open>C39: In the earlier kernel the first fork of a process succeeds and makes the child ready, with all queues of the
  scheduler intact, but the list of children of the parent is destroyed: the child is linked into the ready queue through the same
  node, so a traversal of the list of children never ends. From then on \<open>sys_unblock\<close> of a process that is neither the child
  nor ready does not return, \<open>sys_unblock\<close> of the child that is not blocked counts the unblock in the parent and not
  in the child, and \<open>sys_exit\<close> of the parent follows a null pointer.\<close>

theorem sys_fork_early_breaks_children:
  assumes E: "early_ok E" and f: "fork_ready_early E s A i j F" and k: "dlist (e_links s) (kids_early (current_early s)) []"
  defines "c \<equiv> current_early s" and "t \<equiv> task_early E j"
  defines "A' \<equiv> \<lparr>a_queue = (a_queue A)(es_freequeue E := F, es_readyqueue E := a_queue A (es_readyqueue E) @ [t]), a_cur = c\<rparr>"
  shows "\<exists>s'. sys_fork_early E s = Some (sumPID s, s') \<and> early_rel E s' A' \<and> e_PID (e_tasks s' t) = sumPID s \<and> current_early s' = c \<and>
    list_for_each (kids_early c) (e_links s') = None \<and>
    (\<forall>pid. (\<forall>p \<in> set (es_readyqueue E # map tnode_early (a_queue A' (es_readyqueue E))). e_PID (e_tasks s' (p - 8)) \<noteq> pid) \<longrightarrow>
       sys_unblock_early E pid s' = None) \<and>
    sys_unblock_early E (sumPID s) s' = Some (0, s'\<lparr>e_tasks := (e_tasks s')(c := (e_tasks s' c)
       \<lparr>e_pending_unblocks := wrap32 (e_pending_unblocks (e_tasks s' c) + 1)\<rparr>)\<rparr>) \<and>
    sys_exit_early E s' = None"
proof -
  note D = fork_ready_earlyD [OF E f] and r = early_relD [OF fork_ready_earlyD(1) [OF E f]]
  have ni: "current_early s \<noteq> e_idle_task s" and Q: "a_queue A (es_freequeue E) = t # F" and tc: "c \<noteq> t" and tt: "t \<in> tasks_of_early E"
    and cc: "c \<in> tasks_of_early E"
    using f D(2,4) r(4) by (auto simp: fork_ready_early_def c_def t_def)
  let ?h = "fork_links_early c t (e_links s)" let ?h' = "list_add_tail (tnode_early t) (es_readyqueue E) (list_add_tail (tnode_early t) (kids_early c) ?h)"
  note fl = fork_links_early_queues [OF E r(2) Q cc tc k [folded c_def]]
  note kr = kids_into_ready [OF E cc fl(4,1) tt fl(2)]
  obtain m rm ks where eq: "sys_fork_early E s = Some (sumPID s, forked_early E j s m rm ks)" and m: "cr3 m = dir_pages_early E i"
    using sys_fork_early_eq [OF E f] by blast
  let ?s' = "forked_early E j s m rm ks"
  have l': "e_links ?s' = ?h'" "e_esp ?s' = e_esp s" "e_PID (e_tasks ?s' t) = sumPID s" "e_status (e_tasks ?s' t) = ST_READY"
    by (simp_all add: forked_early_def Let_def flip: c_def t_def)
  have q': "queues_early E (e_links ?s') (a_queue A')" using kr(1) E by (simp add: A'_def l')
  have rel': "early_rel E ?s' A'"
    using fork_early_rel [OF E D(1) ni Q tc [symmetric, unfolded c_def], of ?s'] q' fl(3) m D(7) r(3)
    by (simp add: A'_def forked_early_def Let_def flip: c_def t_def)
  have cur': "current_early ?s' = c" unfolding c_def by (rule current_early_cong [OF l'(2)])
  have first: "lh_next (e_links ?s' (kids_early c)) = tnode_early t" using kr(2) by (simp add: l')
  have tr: "t \<in> set (a_queue A' (es_readyqueue E))" by (simp add: A'_def)
  note cy = ready_cycle [OF E cc q' tr first]
  have "sys_unblock_early E pid ?s' = None"
    if "\<forall>p \<in> set (es_readyqueue E # map tnode_early (a_queue A' (es_readyqueue E))). e_PID (e_tasks ?s' (p - 8)) \<noteq> pid" for pid
    using unblock_walk_visits [of E pid "tnode_early t" "kids_early c" ?s'] cy(1-3) that
    unfolding sys_unblock_early_def cur' first by (metis not_Some_eq)
  moreover have "sys_exit_early E ?s' = None"
    by (rule sys_exit_early_faults [OF E _ tt]) (use cc cur' first in simp_all)
  moreover have "sys_unblock_early E (sumPID s) ?s' = Some (0, ?s'\<lparr>e_tasks := (e_tasks ?s')(c := (e_tasks ?s' c)
       \<lparr>e_pending_unblocks := wrap32 (e_pending_unblocks (e_tasks ?s' c) + 1)\<rparr>)\<rparr>)"
    using sys_unblock_early_first [OF E rel' tt, of "sumPID s"] first cur' l'(3,4) by simp
  ultimately show ?thesis using eq rel' cur' cy(4) l'(3) by (intro exI [of _ ?s']) simp
qed

theorem sys_fork_early_breaks_children_witness:
  "\<exists>s'. sys_fork_early example_early booted_early = Some (sumPID booted_early, s') \<and>
     list_for_each (kids_early (current_early booted_early)) (e_links s') = None \<and> sys_exit_early example_early s' = None"
proof -
  note b = boot_fork_ready [OF example_early_ok, of zero_early, folded booted_early_def]
  have "dlist (e_links booted_early) (kids_early (current_early booted_early)) []"
    unfolding b(2) unfolding booted_early_def by (rule boot_early_fields(2) [OF example_early_ok])
  from sys_fork_early_breaks_children [OF example_early_ok b(1) this] show ?thesis by blast
qed

end
