(* ===== verification/Zeos_Early_Machine.thy ===== *)
theory Zeos_Early_Machine
  imports Zeos_Machine Zeos_Early
begin

text \<open>
  The interrupt table and the registers of \<open>sysenter\<close> as \<open>setIdt\<close> of the earlier kernel sets them (\<open>interrupt.c\<close>, \<open>msr_func.S\<close>), on the
  machine of \<open>Zeos_Machine\<close>, and the messages of \<open>perror\<close> in its user library (\<open>libc.c\<close>).
\<close>

record early_entry_syms =
  es_idt :: ptr
  es_kbd_handler :: ptr
  es_pf_handler :: ptr
  es_clock_handler :: ptr
  es_syscall_handler :: ptr

text \<open>\<open>writeMSR\<close> takes the low half of the value and clears the high half.\<close>

definition writeMSR :: "DWord \<Rightarrow> DWord \<Rightarrow> machine \<Rightarrow> machine" where
  "writeMSR msr value M = M\<lparr>msrs := (msrs M)(msr := (0, value))\<rparr>"

definition INITIAL_ESP_early :: "early_symtab \<Rightarrow> ptr" where
  "INITIAL_ESP_early S = task_early S 1 + of_nat (4 * KERNEL_STACK_SIZE)"

definition setIdt_early :: "(machine \<Rightarrow> machine) \<Rightarrow> early_symtab \<Rightarrow> early_entry_syms \<Rightarrow> machine \<Rightarrow> machine" where
  "setIdt_early set_handlers S E M =
     (let M = M\<lparr>idtR := (idtR M)\<lparr>reg_base := es_idt E\<rparr>\<rparr>;
          M = M\<lparr>idtR := (idtR M)\<lparr>reg_limit := of_nat (IDT_ENTRIES * 8 - 1)\<rparr>\<rparr>;
          M = set_handlers M;
          M = setInterruptHandler 33 (es_kbd_handler E) 0 M;
          M = setInterruptHandler 14 (es_pf_handler E) 0 M;
          M = setInterruptHandler 32 (es_clock_handler E) 0 M;
          M = writeMSR 0x174 (ucast KERNEL_CS) M;
          M = writeMSR 0x175 (INITIAL_ESP_early S) M;
          M = writeMSR 0x176 (es_syscall_handler E) M
      in set_idt_reg (idtR M) M)"

text \<open>The gates of the keyboard, the page fault and the clock lead to their handlers in kernel mode, and \<open>sysenter\<close> to
  the system calls on the kernel stack of task 1.\<close>

lemma setIdt_early_gates:
  fixes M :: machine and S :: early_symtab and E :: early_entry_syms
  assumes "\<And>M. \<exists>i. set_handlers M = M\<lparr>idt := i\<rparr>"
  defines "M' \<equiv> setIdt_early set_handlers S E M"
  shows "gate_offset (idt M' 33) = es_kbd_handler E" "gate_offset (idt M' 14) = es_pf_handler E" "gate_offset (idt M' 32) = es_clock_handler E"
    "v \<in> {14, 32, 33} \<Longrightarrow> segmentSelector (idt M' v) = KERNEL_CS \<and> gate_present (idt M' v) \<and> gate_dpl (idt M' v) = 0"
    "msrs M' 0x175 = (0, INITIAL_ESP_early S)" "msrs M' 0x176 = (0, es_syscall_handler E)" "reg_base (cpu_idtr M') = es_idt E"
proof -
  let ?M = "M\<lparr>idtR := (idtR M)\<lparr>reg_base := es_idt E, reg_limit := of_nat (IDT_ENTRIES * 8 - 1)\<rparr>\<rparr>"
  obtain i where "set_handlers ?M = ?M\<lparr>idt := i\<rparr>" using assms(1) [of ?M] by blast
  then show "gate_offset (idt M' 33) = es_kbd_handler E" "gate_offset (idt M' 14) = es_pf_handler E" "gate_offset (idt M' 32) = es_clock_handler E"
    "v \<in> {14, 32, 33} \<Longrightarrow> segmentSelector (idt M' v) = KERNEL_CS \<and> gate_present (idt M' v) \<and> gate_dpl (idt M' v) = 0"
    "msrs M' 0x175 = (0, INITIAL_ESP_early S)" "msrs M' 0x176 = (0, es_syscall_handler E)" "reg_base (cpu_idtr M') = es_idt E"
    by (auto simp: M'_def setIdt_early_def Let_def setInterruptHandler_def writeMSR_def set_idt_reg_def gate_offset_def gate_offset_parts
        gate_present_def gate_dpl_def dword_of_int_def)
qed

section \<open>Messages\<close>

text \<open>The calls \<open>write(1, string, n)\<close> of \<open>perror\<close>. For another error the number is stored through a pointer that was never set.\<close>

definition perror_early :: "int \<Rightarrow> (string \<times> nat) option" where
  "perror_early errno =
     (if errno = EFAULT then Some (''@ mala'' @ [CHR 0x0A], 10)
      else if errno = EINVAL then Some (''Argumento invalido'' @ [CHR 0x0A], 19)
      else if errno = ENOSYS then Some (''Syscall no implementada'' @ [CHR 0x0A], 24)
      else if errno = EACCES then Some (''Falta de privilegios'' @ [CHR 0x0A], 21)
      else if errno = EBADF then Some (''Fichero erroneo'' @ [CHR 0x0A], 16)
      else if errno = ENOMEM then Some (''No hay procesos libres'' @ [CHR 0x0A], 23)
      else if errno = EAGAIN then Some (''No quedan frames libres'' @ [CHR 0x0A], 24)
      else None)"

text \<open>Every message is written in full and no more, but for the bad address: it has 7 characters and 10 are written.\<close>

lemma perror_early_lengths:
  assumes "perror_early errno = Some (msg, n)"
  shows "if errno = EFAULT then length msg + 3 = n else length msg = n"
  using assms by (auto simp: perror_early_def errno_defs split: if_splits)

end
