(* ===== verification/Zeos_Client.thy ===== *)
theory Zeos_Client
  imports Zeos_Kernel
begin

text \<open>
  The threads of the semaphore test of \<open>user.c\<close> on the kernel: \<open>thread_function\<close>, which brackets an update of the
  shared variable \<open>contador\<close> with \<open>semWait\<close> and \<open>semSignal\<close>, run by any number of threads that the clock preempts
  between any two of its operations, beside processes that make any other calls. The theory shows what the semaphore
  gives these threads: the bound on how many are in the section at a time, and that no update is lost.
\<close>

section \<open>The program of a thread\<close>

text \<open>\<open>thread_function\<close> with the semaphore it gets in \<open>arg\<close>, one entry per statement: the system calls with the
  values its wrappers put in \<open>eax\<close>, \<open>ebx\<close> and \<open>edx\<close> (0 for a register the call does not read), and the statements on \<open>contador\<close> and \<open>valor_actual\<close>.\<close>

datatype thread_op = Call int DWord DWord | Read_contador | Increment | Write_contador | Delay

definition thread_function :: "DWord \<Rightarrow> thread_op list" where
  "thread_function arg =
     [Call 4 1 12, Call 29 arg 0, Call 4 1 15, Read_contador, Increment, Write_contador, Delay,
      Call 30 arg 0, Call 4 1 15, Call 27 0 0]"

text \<open>\<open>threadCreate\<close> starts a thread in \<open>wrappersito_func\<close>, which calls the function; it has nothing to run when that
  returns, so a thread has to end with \<open>threadExit\<close>, as this one does.\<close>

definition wrappersito_func :: "('a \<Rightarrow> 'b) \<Rightarrow> 'a \<Rightarrow> 'b" where
  "wrappersito_func func param = func param"

text \<open>The kernel; how far each thread has come; its variable \<open>valor_actual\<close>; the shared \<open>contador\<close>; and, to state the
  properties, how many times it was written and whether somebody outside \<open>thread_function\<close> has interfered with the
  semaphore.\<close>

record users =
  kern :: kstate
  pc :: "ptr \<Rightarrow> nat option"
  valor_actual :: "ptr \<Rightarrow> int"
  contador :: int
  writes :: nat
  disturbed :: bool

definition goto_op :: "ptr \<Rightarrow> nat option \<Rightarrow> users \<Rightarrow> users" where
  "goto_op t n u = u\<lparr>pc := (pc u)(t := n)\<rparr>"

text \<open>The running thread \<open>t\<close> does its next operation. \<open>ecx\<close> is the address of the text it writes. \<open>threadExit\<close> does
  not come back.\<close>

definition thread_step :: "symtab \<Rightarrow> DWord \<Rightarrow> ptr \<Rightarrow> DWord \<Rightarrow> ptr \<Rightarrow> nat \<Rightarrow> users \<Rightarrow> users option" where
  "thread_step L arg localbuffer ecx t n u =
     (case wrappersito_func thread_function arg ! n of
        Call nr ebx edx \<Rightarrow>
          map_option (\<lambda>(r, s). goto_op t (if nr = 27 then None else Some (Suc n)) (u\<lparr>kern := s\<rparr>))
            (system_call_handler L localbuffer nr ebx ecx edx (kern u))
      | Read_contador \<Rightarrow> Some (goto_op t (Some (Suc n)) (u\<lparr>valor_actual := (valor_actual u)(t := contador u)\<rparr>))
      | Increment \<Rightarrow> Some (goto_op t (Some (Suc n)) (u\<lparr>valor_actual := (valor_actual u)(t := wrap32 (valor_actual u t + 1))\<rparr>))
      | Write_contador \<Rightarrow> Some (goto_op t (Some (Suc n)) (u\<lparr>contador := valor_actual u t, writes := Suc (writes u)\<rparr>))
      | Delay \<Rightarrow> Some (goto_op t (Some (Suc n)) u))"

lemmas thread_step_defs = thread_step_def wrappersito_func_def

text \<open>The calls of a task outside \<open>thread_function\<close> that interfere with semaphore \<open>k\<close>: \<open>fork\<close>, which resets every
  semaphore, and \<open>semWait\<close>, \<open>semSignal\<close> and \<open>semDestroy\<close> on \<open>k\<close>, when the task owns it and so is not refused. The
  \<open>main\<close> of the test makes one of them: it destroys the semaphore while threads wait.\<close>

definition disturbs :: "symtab \<Rightarrow> nat \<Rightarrow> int \<Rightarrow> DWord \<Rightarrow> kstate \<Rightarrow> bool" where
  "disturbs L k nr ebx s \<longleftrightarrow> nr = 2 \<or> nr \<in> {29, 30, 31} \<and> int_of_dword ebx = int k \<and> owns_sem L s k"

text \<open>
  A step of the machine: an interrupt; the next operation of the running thread; a running task enters
  \<open>thread_function\<close>, of the process that owns semaphore \<open>k\<close> as long as that is undisturbed; or a task outside it makes
  any call (of those that keep the kernel sound), and it is recorded when the call interferes with semaphore \<open>k\<close>.
\<close>

inductive user_step :: "symtab \<Rightarrow> nat \<Rightarrow> users \<Rightarrow> users \<Rightarrow> bool" for L k where
  clock: "(e - 12) AND 0xfffff000 = current (kern u) \<Longrightarrow>
    user_step L k u (u\<lparr>kern := clock_handler L show_clock ((kern u)\<lparr>esp := e\<rparr>)\<rparr>)"
| keyboard: "user_step L k u (u\<lparr>kern := keyboard_handler beyond c (kern u)\<rparr>)"
| thread: "current (kern u) \<noteq> idle_task (kern u) \<Longrightarrow> pc u (current (kern u)) = Some n \<Longrightarrow>
    thread_step L (of_nat k) localbuffer ecx (current (kern u)) n u = Some u' \<Longrightarrow> user_step L k u u'"
| enter: "owns_sem L (kern u) k \<or> disturbed u \<and> current (kern u) \<noteq> idle_task (kern u) \<Longrightarrow> pc u (current (kern u)) = None \<Longrightarrow>
    user_step L k u (goto_op (current (kern u)) (Some 0) u)"
| other: "current (kern u) \<noteq> idle_task (kern u) \<Longrightarrow> pc u (current (kern u)) = None \<Longrightarrow>
    allowed L nr ebx (kernel_entry (kern u)) \<Longrightarrow>
    system_call_handler L localbuffer nr ebx ecx edx (kern u) = Some (r, s') \<Longrightarrow>
    user_step L k u (u\<lparr>kern := s', disturbed := disturbed u \<or> disturbs L k nr ebx (kern u)\<rparr>)"

section \<open>The invariant\<close>

text \<open>The threads between \<open>semWait\<close> and \<open>semSignal\<close>, those that wait included, and those that are in the section.\<close>

definition holders :: "users \<Rightarrow> ptr set" where
  "holders u = {t. \<exists>n. pc u t = Some n \<and> 2 \<le> n \<and> n \<le> 7}"

definition in_section :: "users \<Rightarrow> ptr \<Rightarrow> bool" where
  "in_section u t \<longleftrightarrow> (case pc u t of None \<Rightarrow> False | Some n \<Rightarrow> 2 \<le> n \<and> n \<le> 7 \<and> state (tasks (kern u) t) \<noteq> ST_BLOCKED)"

text \<open>
  The threads are tasks in use, of the process of the semaphore, and each is at an operation; the counter and the
  holders add up to the initial value; and the threads in the queue are at the return of \<open>semWait\<close>.
\<close>

definition client_inv :: "symtab \<Rightarrow> nat \<Rightarrow> int \<Rightarrow> sched_abs \<Rightarrow> users \<Rightarrow> bool" where
  "client_inv L k v A u \<longleftrightarrow> kernel_inv L (kern u) A \<and> counts_ok (kern u) \<and> semid (sems (kern u) (sem_of L k)) = int k \<and>
     (\<forall>t\<in>dom (pc u). t \<in> tasks_of L \<and> t \<notin> set (a_queue A (freequeue L)) \<and> the (pc u t) < 10 \<and>
        PID (tasks (kern u) t) = sem_PID (sems (kern u) (sem_of L k))) \<and>
     count (sems (kern u) (sem_of L k)) = v - int (card (holders u)) \<and>
     (\<forall>t \<in> set (a_queue A (sem_queue L k)). pc u t = Some 2)"

lemma int_of_dword_sem: "k < NUM_SEM \<Longrightarrow> int_of_dword (of_nat k) = int k"
  using int_of_dword_of_int [of "int k"] by (simp add: NUM_SEM_def int32_def dword_of_int_def)

lemma client_invI:
  assumes "kernel_inv L s A'" "counts_ok s" "semid (sems s (sem_of L k)) = int k" "count (sems s (sem_of L k)) = v - int (card (holders u))"
    and "\<And>t. t \<in> dom (pc u) \<Longrightarrow> t \<in> tasks_of L \<and> t \<notin> set (a_queue A' (freequeue L)) \<and> the (pc u t) < 10 \<and> PID (tasks s t) = sem_PID (sems s (sem_of L k))"
    and "\<And>t. t \<in> set (a_queue A' (sem_queue L k)) \<Longrightarrow> pc u t = Some 2" "kern u = s"
  shows "client_inv L k v A' u"
  using assms unfolding client_inv_def by blast

lemma client_invD:
  assumes "client_inv L k v A u"
  shows "kernel_inv L (kern u) A" "counts_ok (kern u)" "semid (sems (kern u) (sem_of L k)) = int k"
    "count (sems (kern u) (sem_of L k)) = v - int (card (holders u))"
    "t \<in> dom (pc u) \<Longrightarrow> t \<in> tasks_of L \<and> t \<notin> set (a_queue A (freequeue L)) \<and> the (pc u t) < 10 \<and> PID (tasks (kern u) t) = sem_PID (sems (kern u) (sem_of L k))"
    "t \<in> set (a_queue A (sem_queue L k)) \<Longrightarrow> pc u t = Some 2"
  using assms unfolding client_inv_def by blast+

lemma client_inv_cong: "client_inv L k v A u \<Longrightarrow> kern u' = kern u \<Longrightarrow> pc u' = pc u \<Longrightarrow> client_inv L k v A u'"
  by (simp add: client_inv_def holders_def)

text \<open>What a step leaves to the other tasks is enough to keep the invariant.\<close>

lemma client_inv_frame:
  assumes i: "client_inv L k v A u" and f: "frame_to L K X A (kern u) A' s'" and k: "k \<in> K" and X: "X \<inter> dom (pc u) = {}"
  shows "client_inv L k v A' (u\<lparr>kern := s'\<rparr>)"
proof (rule client_invI [where s = s'])
  note d = client_invD [OF i] and f = f [unfolded frame_to_def]
  show "kernel_inv L s' A'" "counts_ok s'" using f by simp_all
  show "semid (sems s' (sem_of L k)) = int k" "count (sems s' (sem_of L k)) = v - int (card (holders (u\<lparr>kern := s'\<rparr>)))"
    using f k d(3,4) by (simp_all add: holders_def)
  show "pc (u\<lparr>kern := s'\<rparr>) t = Some 2" if "t \<in> set (a_queue A' (sem_queue L k))" for t using that f k d(6) by simp
  fix t assume t: "t \<in> dom (pc (u\<lparr>kern := s'\<rparr>))"
  then have n: "t \<notin> set (a_queue A (freequeue L)) \<union> X" using d(5) X by auto
  with f have "t \<notin> set (a_queue A' (freequeue L))" "PID (tasks s' t) = PID (tasks (kern u) t)" by auto
  with d(5) [of t] t f k show "t \<in> tasks_of L \<and> t \<notin> set (a_queue A' (freequeue L)) \<and> the (pc (u\<lparr>kern := s'\<rparr>) t) < 10 \<and>
      PID (tasks s' t) = sem_PID (sems s' (sem_of L k))" by simp
qed simp

lemma client_frame:
  assumes "client_inv L k v A u" "frame L K X (kern u) s'" "k \<in> K" "X \<inter> dom (pc u) = {}"
  shows "\<exists>A'. client_inv L k v A' (u\<lparr>kern := s'\<rparr>)"
proof -
  from assms(2) client_invD(1,2) [OF assms(1)] obtain A' where "frame_to L K X A (kern u) A' s'" by (rule frameE)
  from client_inv_frame [OF assms(1) this assms(3,4)] show ?thesis ..
qed

lemma running_not_waiting:
  assumes "kernel_inv L s A" "k < NUM_SEM"
  shows "current s \<notin> set (a_queue A (sem_queue L k))"
  using assms not_queuedD [OF sched_relD(5), of L s A "sem_queue L k"] by (simp add: kernel_inv_def)

text \<open>An operation of the running thread on the same side of \<open>semWait\<close> and \<open>semSignal\<close>, or the end of the thread.\<close>

lemma client_goto:
  assumes i: "client_inv L k v A u" and k: "k < NUM_SEM" and t: "t = current (kern u)" "pc u t = Some n"
    and m: "m < 10" "(2 \<le> n \<and> n \<le> 7) = (2 \<le> m \<and> m \<le> 7)"
  shows "client_inv L k v A (goto_op t (Some m) u)"
proof -
  note d = client_invD [OF i]
  have h: "holders (goto_op t (Some m) u) = holders u" using t(2) m(2) by (auto simp: holders_def goto_op_def)
  show ?thesis
    by (rule client_invI [OF d(1-3)]) (use d m(1) t h running_not_waiting [OF d(1) k] in \<open>auto simp: goto_op_def\<close>)
qed

lemma client_leave:
  assumes i: "client_inv L k v A u" and t: "pc u t = Some n" "n = 9" and k: "k < NUM_SEM" "t = current (kern u)"
  shows "client_inv L k v A (goto_op t None u)"
proof -
  note d = client_invD [OF i]
  have h: "holders (goto_op t None u) = holders u" using t by (auto simp: holders_def goto_op_def)
  show ?thesis
    by (rule client_invI [OF d(1-3)]) (use d k h running_not_waiting [OF d(1) k(1)] in \<open>auto simp: goto_op_def\<close>)
qed

lemma client_enter:
  assumes i: "client_inv L k v A u" and own: "owns_sem L (kern u) k" and t: "t = current (kern u)" "pc u t = None"
  shows "client_inv L k v A (goto_op t (Some 0) u)"
proof -
  note d = client_invD [OF i] and o = owns_semD [OF client_invD(1) [OF i] own]
  have rel: "sched_rel L (kern u) A" using d(1) by (simp add: kernel_inv_def)
  have h: "holders (goto_op t (Some 0) u) = holders u" using t(2) by (auto simp: holders_def goto_op_def)
  show ?thesis
    by (rule client_invI [OF d(1-3)])
      (use d t h o(6) running_not_waiting [OF d(1) o(1)] not_queuedD [OF sched_relD(5) [OF rel], of "freequeue L"] sched_relD(4) [OF rel]
        in \<open>auto simp: goto_op_def\<close>)
qed

section \<open>The calls on the semaphore\<close>

lemma sem_calls_count:
  assumes "kernel_inv L s A" "owns_sem L s i"
  shows "sems (snd (sys_semWait L (int i) s)) (sem_of L i) = (sems s (sem_of L i))\<lparr>count := wrap32 (count (sems s (sem_of L i)) - 1)\<rparr>"
    and "sems (snd (sys_semSignal L (int i) s)) (sem_of L i) = (sems s (sem_of L i))\<lparr>count := wrap32 (count (sems s (sem_of L i)) + 1)\<rparr>"
  using owns_semD [OF assms] by (simp_all add: sys_semWait_def sys_semSignal_def Let_def)

lemma finite_holders: "client_inv L k v A u \<Longrightarrow> finite (holders u)"
  by (rule finite_subset [of _ "tasks_of L"]) (auto simp: holders_def tasks_of_def dest!: client_invD(5))

lemma client_owns:
  assumes "client_inv L k v A u" "k < NUM_SEM" "current (kern u) \<noteq> idle_task (kern u)" "pc u (current (kern u)) = Some n"
  shows "owns_sem L (kern u) k"
  using assms client_invD(3) [OF assms(1)] client_invD(5) [OF assms(1) domI [where m = "pc u", OF assms(4)]] by (auto simp: owns_sem_def)

lemma client_wait:
  assumes L: "symtab_ok L" and k: "k < NUM_SEM" and i: "client_inv L k v A u"
    and t: "t = current (kern u)" "pc u t = Some 1" "t \<noteq> idle_task (kern u)"
  shows "\<exists>A'. client_inv L k v A' (goto_op t (Some 2) (u\<lparr>kern := snd (sys_semWait L (int k) (kern u))\<rparr>))"
proof -
  let ?s = "kern u" and ?s' = "snd (sys_semWait L (int k) (kern u))"
  let ?u = "goto_op t (Some 2) (u\<lparr>kern := ?s'\<rparr>)" and ?c = "count (sems (kern u) (sem_of L k))"
  note d = client_invD [OF i]
  have own: "owns_sem L ?s k" using client_owns [OF i k] t by auto
  note S = sem_calls_count(1) [OF d(1) own]
  have c32: "int32 ?c" using d(2) by (simp add: counts_ok_def)
  have "int (length (a_queue A (sem_queue L k))) \<le> 10" using sem_waiting_bound [OF L d(1) k] by (simp add: NR_TASKS_def)
  then have "-10 \<le> ?c" using sem_invD [OF d(1) own] by linarith
  then have w: "int32 (?c - 1)" using c32 by (simp add: int32_def)
  have h: "holders ?u = insert t (holders u)" "t \<notin> holders u" using t(2) by (auto simp: holders_def goto_op_def)
  have "count (sems ?s' (sem_of L k)) = ?c - 1" using wrap32_id [OF w] by (simp add: S)
  then have keep: "semid (sems ?s' (sem_of L k)) = int k" "count (sems ?s' (sem_of L k)) = v - int (card (holders ?u))"
    using d(3,4) finite_holders [OF i] by (simp_all add: S h)
  have old: "u' \<in> tasks_of L \<and> u' \<notin> set (a_queue A (freequeue L)) \<and> the (pc ?u u') < 10 \<and>
      PID (tasks ?s' u') = sem_PID (sems ?s' (sem_of L k))" if "u' \<in> dom (pc ?u)" for u'
    using that d(5) [of u'] t by (auto simp: goto_op_def sem_calls_other S split: if_splits)
  have go: "\<exists>A'. client_inv L k v A' ?u" if "kernel_inv L ?s' A'" "a_queue A' (freequeue L) = a_queue A (freequeue L)"
    "set (a_queue A' (sem_queue L k)) \<subseteq> insert t (set (a_queue A (sem_queue L k)))" for A'
  proof
    show "client_inv L k v A' ?u"
      by (rule client_invI [OF that(1) sem_counts(1) [OF d(2)] keep])
        (use old that(2,3) d(6) in \<open>auto simp: goto_op_def\<close>)
  qed
  show ?thesis
  proof (cases "0 < ?c")
    case True
    have "kernel_inv L ?s' A" using sys_semWait_passes [OF L d(1) own True c32] by blast
    then show ?thesis by (rule go) auto
  next
    case False
    then have "kernel_inv L ?s' (a_block L (idle_task ?s) k A)" using sys_semWait_blocks [OF L d(1) own _ w] by simp
    then show ?thesis
      by (rule go) (use L k t(1) sched_relD(3) [of L ?s A] d(1) in \<open>auto simp: a_block_def a_next_def kernel_inv_def\<close>)
  qed
qed

lemma client_signal:
  assumes L: "symtab_ok L" and k: "k < NUM_SEM" and i: "client_inv L k v A u" and v: "int32 v"
    and t: "t = current (kern u)" "pc u t = Some 7" "t \<noteq> idle_task (kern u)"
  shows "\<exists>A'. client_inv L k v A' (goto_op t (Some 8) (u\<lparr>kern := snd (sys_semSignal L (int k) (kern u))\<rparr>))"
proof -
  let ?s = "kern u" and ?s' = "snd (sys_semSignal L (int k) (kern u))"
  let ?u = "goto_op t (Some 8) (u\<lparr>kern := ?s'\<rparr>)" and ?c = "count (sems (kern u) (sem_of L k))"
  note d = client_invD [OF i]
  have own: "owns_sem L ?s k" using client_owns [OF i k] t by auto
  note S = sem_calls_count(2) [OF d(1) own]
  have c32: "int32 ?c" using d(2) by (simp add: counts_ok_def)
  have h: "holders ?u = holders u - {t}" "t \<in> holders u" using t(2) by (auto simp: holders_def goto_op_def)
  have card: "card (holders u) = Suc (card (holders ?u))" using card.remove [OF finite_holders [OF i] h(2)] by (simp add: h(1))
  have w: "int32 (?c + 1)" using c32 v card d(4) by (simp add: int32_def)
  have "count (sems ?s' (sem_of L k)) = ?c + 1" using wrap32_id [OF w] by (simp add: S)
  then have keep: "semid (sems ?s' (sem_of L k)) = int k" "count (sems ?s' (sem_of L k)) = v - int (card (holders ?u))"
    using d(3,4) card by (simp_all add: S)
  have old: "u' \<in> tasks_of L \<and> u' \<notin> set (a_queue A (freequeue L)) \<and> the (pc ?u u') < 10 \<and>
      PID (tasks ?s' u') = sem_PID (sems ?s' (sem_of L k))" if "u' \<in> dom (pc ?u)" for u'
    using that d(5) [of u'] t by (auto simp: goto_op_def sem_calls_other S split: if_splits)
  have nt: "t \<notin> set (a_queue A (sem_queue L k))" using running_not_waiting [OF d(1) k] t(1) by simp
  have go: "\<exists>A'. client_inv L k v A' ?u" if "kernel_inv L ?s' A'" "a_queue A' (freequeue L) = a_queue A (freequeue L)"
    "set (a_queue A' (sem_queue L k)) \<subseteq> set (a_queue A (sem_queue L k))" for A'
  proof
    show "client_inv L k v A' ?u"
      by (rule client_invI [OF that(1) sem_counts(2) [OF d(2)] keep])
        (use old that(2,3) d(6) nt in \<open>auto simp: goto_op_def\<close>)
  qed
  show ?thesis
  proof (cases "?c < 0")
    case True
    from sys_semSignal_wakes [OF L d(1) own True c32] obtain q ts where q: "a_queue A (sem_queue L k) = q # ts"
      "kernel_inv L ?s' \<lparr>a_queue = (a_queue A)(sem_queue L k := ts, readyqueue L := q # a_queue A (readyqueue L)), a_cur = a_cur A\<rparr>" by blast
    from q(2) show ?thesis by (rule go) (use L k q(1) in auto)
  next
    case False
    have "kernel_inv L ?s' A" by (rule sys_semSignal_counts [OF L d(1) own _ w, THEN conjunct2]) (use False in simp)
    then show ?thesis by (rule go) auto
  qed
qed

section \<open>Every step\<close>

text \<open>The operations of a thread.\<close>

lemma thread_op_cases:
  assumes "n < 10"
  obtains (call) nr ebx edx where "thread_function (of_nat k) ! n = Call nr ebx edx" "n \<in> {0, 2, 8, 9}" "nr = (if n = 9 then 27 else 4)"
    | (wait) "n = 1" "thread_function (of_nat k) ! n = Call 29 (of_nat k) 0"
    | (signal) "n = 7" "thread_function (of_nat k) ! n = Call 30 (of_nat k) 0"
    | (read) "n = 3" "thread_function (of_nat k) ! n = Read_contador"
    | (increment) "n = 4" "thread_function (of_nat k) ! n = Increment"
    | (store) "n = 5" "thread_function (of_nat k) ! n = Write_contador"
    | (delay) "n = 6" "thread_function (of_nat k) ! n = Delay"
proof -
  have "n = 0 \<or> n = 1 \<or> n = 2 \<or> n = 3 \<or> n = 4 \<or> n = 5 \<or> n = 6 \<or> n = 7 \<or> n = 8 \<or> n = 9" using assms by presburger
  then show thesis by (elim disjE) (auto simp: thread_function_def intro: that)
qed

lemma client_kernel_entry:
  assumes L: "symtab_ok L" and k: "k < NUM_SEM" and i: "client_inv L k v A u"
  shows "\<exists>A'. client_inv L k v A' (u\<lparr>kern := kernel_entry (kern u)\<rparr>)" and "current (kernel_entry (kern u)) = current (kern u)"
proof -
  have ok: "kernel_ok L (kern u)" using client_invD(1,2) [OF i] by (auto simp: kernel_ok_def)
  note e = kernel_entry_ok [OF L ok]
  show "\<exists>A'. client_inv L k v A' (u\<lparr>kern := kernel_entry (kern u)\<rparr>)"
    using client_frame [OF i e(1) insertI1, of "{}"] by simp
  show "current (kernel_entry (kern u)) = current (kern u)" by (rule e(2))
qed

lemma goto_op_simps [simp]:
  "kern (goto_op t m u) = kern u" "pc (goto_op t m u) = (pc u)(t := m)" "contador (goto_op t m u) = contador u"
  "valor_actual (goto_op t m u) = valor_actual u" "writes (goto_op t m u) = writes u" "disturbed (goto_op t m u) = disturbed u"
  by (simp_all add: goto_op_def)

lemma client_thread_step:
  assumes L: "symtab_ok L" and k: "k < NUM_SEM" and i: "client_inv L k v A u" and v: "int32 v"
    and t: "t = current (kern u)" "pc u t = Some n" "t \<noteq> idle_task (kern u)"
    and s: "thread_step L (of_nat k) localbuffer ecx t n u = Some u'"
  shows "\<exists>A'. client_inv L k v A' u'"
proof -
  have ok: "kernel_ok L (kern u)" using client_invD(1,2) [OF i] by (auto simp: kernel_ok_def)
  have n: "n < 10" using client_invD(5) [OF i domI [where m = "pc u", OF t(2)]] t(2) by simp
  have here: "\<exists>A'. client_inv L k v A' w" if "kern w = kern u" "pc w = (pc u)(t := Some (Suc n))" "n \<in> {3, 4, 5, 6}" for w
    by (rule exI, rule client_inv_cong [OF client_goto [OF i k t(1,2), of "Suc n"]]) (use that in auto)
  from n show ?thesis
  proof (cases rule: thread_op_cases [of n k])
    case (call nr ebx edx)
    let ?m = "if n = 9 then None else Some (Suc n)"
    obtain r s' where s': "system_call_handler L localbuffer nr ebx ecx edx (kern u) = Some (r, s')"
      "u' = (goto_op t ?m u)\<lparr>kern := s'\<rparr>"
      using s call by (auto simp: thread_step_defs goto_op_def split: if_splits)
    have g: "client_inv L k v A (goto_op t ?m u)"
      using client_leave [OF i t(2) _ k t(1)] client_goto [OF i k t(1,2), of "Suc n"] call(2) by auto
    have f: "frame L (untouched L nr ebx (kern u)) (exiting nr (kern u)) (kern u) s'"
      by (rule system_call_handler_frame [OF L ok _ _ s'(1)]) (use t call(2,3) in \<open>auto simp: allowed_def\<close>)
    show ?thesis unfolding s'(2)
      by (rule client_frame [OF g]) (use f k t call(2,3) in \<open>auto simp: untouched_def exiting_def\<close>)
  next
    case wait
    obtain A1 where i1: "client_inv L k v A1 (u\<lparr>kern := kernel_entry (kern u)\<rparr>)" using client_kernel_entry(1) [OF L k i] by blast
    have "u' = goto_op t (Some 2) (u\<lparr>kern := snd (sys_semWait L (int k) (kernel_entry (kern u)))\<rparr>)"
      using s wait by (simp add: thread_step_defs system_call_handler_def sys_call_table_def int_of_dword_sem [OF k] Let_def split_def numeral_2_eq_2)
    with client_wait [OF L k i1, of t] t wait client_kernel_entry(2) [OF L k i] show ?thesis by (simp add: kernel_entry_def)
  next
    case signal
    obtain A1 where i1: "client_inv L k v A1 (u\<lparr>kern := kernel_entry (kern u)\<rparr>)" using client_kernel_entry(1) [OF L k i] by blast
    have "u' = goto_op t (Some 8) (u\<lparr>kern := snd (sys_semSignal L (int k) (kernel_entry (kern u)))\<rparr>)"
      using s signal by (simp add: thread_step_defs system_call_handler_def sys_call_table_def int_of_dword_sem [OF k] Let_def split_def)
    with client_signal [OF L k i1 v, of t] t signal client_kernel_entry(2) [OF L k i] show ?thesis by (simp add: kernel_entry_def)
  qed (use s in \<open>auto simp: thread_step_defs intro!: here\<close>)
qed

text \<open>A call that is not refused is by a task of the process; one that is refused leaves the semaphore alone.\<close>

lemma system_call_handler_refused:
  assumes L: "symtab_ok L" and ok: "kernel_ok L s" and ni: "current s \<noteq> idle_task s" and k: "k < NUM_SEM"
    and nr: "nr \<in> {29, 30, 31}" "int_of_dword ebx = int k" "\<not> owns_sem L s k"
    and c: "system_call_handler L lb nr ebx ecx edx s = Some (r, s')"
  shows "s' = kernel_entry s" "r = -1"
proof -
  let ?s = "kernel_entry s"
  note e = kernel_entry_ok [OF L ok]
  obtain A where A: "kernel_inv L ?s A" using frame_ok [OF e(1) ok] by (auto simp: kernel_ok_def)
  have ni': "current ?s \<noteq> idle_task ?s" and own: "\<not> owns_sem L ?s k"
    using ni nr(3) e(2) by (auto simp: owns_sem_def kernel_entry_def)
  have "int k \<noteq> 10" using k by (simp add: NUM_SEM_def)
  from A ni' this have "r = -1 \<and> s' = ?s"
    by (cases rule: sem_calls_cases) (use c nr own in \<open>auto simp: system_call_handler_def sys_call_table_def Let_def\<close>)
  then show "s' = ?s" "r = -1" by simp_all
qed

lemma client_other:
  assumes L: "symtab_ok L" and k: "k < NUM_SEM" and i: "client_inv L k v A u"
    and t: "current (kern u) \<noteq> idle_task (kern u)" "pc u (current (kern u)) = None"
    and c: "allowed L nr ebx (kernel_entry (kern u))" "\<not> disturbs L k nr ebx (kern u)"
      "system_call_handler L localbuffer nr ebx ecx edx (kern u) = Some (r, s')"
  shows "\<exists>A'. client_inv L k v A' (u\<lparr>kern := s'\<rparr>)"
proof -
  have ok: "kernel_ok L (kern u)" using client_invD(1,2) [OF i] by (auto simp: kernel_ok_def)
  show ?thesis
  proof (cases "nr \<in> {29, 30, 31} \<and> int_of_dword ebx = int k")
    case True
    then have "s' = kernel_entry (kern u)"
      using c(2) by (intro system_call_handler_refused(1) [OF L ok t(1) k _ _ _ c(3)]) (auto simp: disturbs_def)
    then show ?thesis using client_kernel_entry(1) [OF L k i] by simp
  next
    case False
    have "\<not> sem_free L (kern u) k" using client_invD(3) [OF i] by (simp add: sem_free_def)
    then have "k \<in> untouched L nr ebx (kern u)" using False k c(2) by (auto simp: untouched_def disturbs_def)
    moreover have "exiting nr (kern u) \<inter> dom (pc u) = {}" using t(2) by (auto simp: exiting_def)
    ultimately show ?thesis by (rule client_frame [OF i system_call_handler_frame [OF L ok t(1) c(1,3)]])
  qed
qed

lemma thread_step_disturbed: "thread_step L arg localbuffer ecx t n u = Some u' \<Longrightarrow> disturbed u' = disturbed u"
  by (auto simp: thread_step_def split: thread_op.splits)

text \<open>Nobody undoes the interference.\<close>

lemma user_step_disturbed: "user_step L k u u' \<Longrightarrow> disturbed u \<Longrightarrow> disturbed u'"
  by (induction rule: user_step.induct) (auto dest: thread_step_disturbed)

lemma user_step_inv:
  assumes "user_step L k u u'" "symtab_ok L" "k < NUM_SEM" "client_inv L k v A u" "int32 v" "\<not> disturbed u'"
  shows "\<exists>A'. client_inv L k v A' u'"
  using assms
proof (induction rule: user_step.induct)
  case (clock e u show_clock)
  have "frame L {..<NUM_SEM} {} (kern u) (clock_handler L show_clock ((kern u)\<lparr>esp := e\<rparr>))"
    by (rule frame_trans'(1) [OF esp_frame [OF clock.hyps] clock_handler_frame [OF clock.prems(1)]])
  from client_frame [OF clock.prems(3) this] clock.prems(2) show ?case by simp
next
  case (keyboard u beyond c)
  from client_frame [OF keyboard.prems(3) keeps_frame [OF keyboard_handler_keeps] insertI1, of "{}"] show ?case by simp
next
  case (thread u n localbuffer ecx u')
  show ?case by (rule client_thread_step [OF thread.prems(1-4) refl thread.hyps(2,1,3)])
next
  case (enter u)
  from enter.hyps(1) enter.prems(5) have "owns_sem L (kern u) k" by simp
  from client_enter [OF enter.prems(3) this refl enter.hyps(2)] show ?case ..
next
  case (other u nr ebx localbuffer ecx edx r s')
  from other.prems(5) have nd: "\<not> disturbs L k nr ebx (kern u)" by simp
  obtain A' where "client_inv L k v A' (u\<lparr>kern := s'\<rparr>)"
    using client_other [OF other.prems(1-3) other.hyps(1-3) nd other.hyps(4)] by blast
  then have "client_inv L k v A' (u\<lparr>kern := s', disturbed := disturbed u \<or> disturbs L k nr ebx (kern u)\<rparr>)"
    by (rule client_inv_cong) simp_all
  then show ?case ..
qed

text \<open>The states in which nobody runs \<open>thread_function\<close> yet and semaphore \<open>k\<close> was created with value \<open>v\<close>.\<close>

definition client_start :: "symtab \<Rightarrow> nat \<Rightarrow> int \<Rightarrow> users \<Rightarrow> bool" where
  "client_start L k v u \<longleftrightarrow> kernel_ok L (kern u) \<and> k < NUM_SEM \<and> semid (sems (kern u) (sem_of L k)) = int k \<and>
     count (sems (kern u) (sem_of L k)) = v \<and> 0 \<le> v \<and> pc u = (\<lambda>_. None) \<and> \<not> disturbed u"

lemma client_start_inv:
  assumes "client_start L k v u"
  shows "\<exists>A. client_inv L k v A u" "int32 v" "k < NUM_SEM"
proof -
  note s = assms [unfolded client_start_def]
  obtain A where A: "kernel_inv L (kern u) A" "counts_ok (kern u)" using s by (auto simp: kernel_ok_def)
  have "sem_ok k (sems (kern u) (sem_of L k)) (a_queue A (sem_queue L k))"
    using A(1) s by (simp add: kernel_inv_def sem_inv_def)
  then have "a_queue A (sem_queue L k) = []" using s by (auto simp: sem_ok_def)
  then show "\<exists>A. client_inv L k v A u" using A s by (auto simp: client_inv_def holders_def)
  show "int32 v" "k < NUM_SEM" using A(2) s by (auto simp: counts_ok_def)
qed

lemma reachable_client_inv:
  assumes "symtab_ok L" "client_start L k v u0" "(user_step L k)\<^sup>*\<^sup>* u0 u" "\<not> disturbed u"
  shows "\<exists>A. client_inv L k v A u"
  using assms(3,4)
proof (induction rule: rtranclp_induct)
  case base
  show ?case by (rule client_start_inv(1) [OF assms(2)])
next
  case (step u u')
  have "\<not> disturbed u" using user_step_disturbed [OF step.hyps(2)] step.prems by blast
  then obtain A where "client_inv L k v A u" using step.IH by blast
  from user_step_inv [OF step.hyps(2) assms(1) client_start_inv(3) [OF assms(2)] this client_start_inv(2) [OF assms(2)] step.prems]
  show ?case .
qed

section \<open>The section\<close>

text \<open>At most \<open>v\<close> holders do not wait.\<close>

lemma free_holders:
  assumes k: "k < NUM_SEM" and i: "client_inv L k v A u" and v: "0 \<le> v"
  shows "int (card (holders u - set (a_queue A (sem_queue L k)))) \<le> v"
proof -
  note d = client_invD [OF i]
  let ?q = "set (a_queue A (sem_queue L k))"
  have q: "queues L (links (kern u)) (a_queue A)" using d(1) by (simp add: kernel_inv_def sched_rel_def tasks_placed_def)
  have qh: "?q \<subseteq> holders u" using d(6) by (auto simp: holders_def)
  have "sem_ok k (sems (kern u) (sem_of L k)) (a_queue A (sem_queue L k))" using d(1) k by (simp add: kernel_inv_def sem_inv_def)
  then have "int (length (a_queue A (sem_queue L k))) = max 0 (- count (sems (kern u) (sem_of L k)))" using d(3) by (auto simp: sem_ok_def)
  moreover have "card ?q = length (a_queue A (sem_queue L k))" using queues_distinct [OF q, of "sem_queue L k"] k by (simp add: distinct_card)
  moreover have "card (holders u - ?q) = card (holders u) - card ?q"
    by (rule card_Diff_subset [OF finite_subset [OF qh finite_holders [OF i]] qh])
  moreover have "card ?q \<le> card (holders u)" by (rule card_mono [OF finite_holders [OF i] qh])
  ultimately show ?thesis using d(4) v by linarith
qed

lemma section_card:
  assumes k: "k < NUM_SEM" and i: "client_inv L k v A u" and v: "0 \<le> v"
  shows "int (card {t. in_section u t}) \<le> v"
proof -
  have "tasks_placed L (kern u) (a_queue A)" using client_invD(1) [OF i] by (simp add: kernel_inv_def sched_rel_def)
  then have "state (tasks (kern u) t) = ST_BLOCKED" if "t \<in> set (a_queue A (sem_queue L k))" for t
    using that k by (auto simp: tasks_placed_def)
  then have "{t. in_section u t} \<subseteq> holders u - set (a_queue A (sem_queue L k))"
    by (auto simp: in_section_def holders_def split: option.splits)
  with card_mono [OF _ this] finite_holders [OF i] free_holders [OF k i v] show ?thesis by fastforce
qed

text \<open>With value 1 two threads past \<open>semWait\<close> are the same.\<close>

lemma section_unique:
  assumes k: "k < NUM_SEM" and i: "client_inv L k 1 A u"
    and t: "pc u t = Some n" "3 \<le> n" "n \<le> 7" "pc u t' = Some n'" "3 \<le> n'" "n' \<le> 7"
  shows "t = t'"
proof -
  have "card {t, t'} \<le> card (holders u - set (a_queue A (sem_queue L k)))"
    by (rule card_mono) (use finite_holders [OF i] t client_invD(6) [OF i] in \<open>auto simp: holders_def\<close>)
  then show ?thesis using free_holders [OF k i] by (auto simp: card_insert_if split: if_splits)
qed

text \<open>The shared variable counts the writes, and a thread inside has its value or the next one.\<close>

definition data_inv :: "int \<Rightarrow> users \<Rightarrow> bool" where
  "data_inv c u \<longleftrightarrow> contador u = wrap32 (c + int (writes u)) \<and>
     (\<forall>t. (pc u t = Some 4 \<longrightarrow> valor_actual u t = contador u) \<and> (pc u t = Some 5 \<longrightarrow> valor_actual u t = wrap32 (contador u + 1)))"

lemma data_inv_cong:
  assumes "data_inv c u" "contador u' = contador u" "writes u' = writes u" "valor_actual u' = valor_actual u"
    "\<And>t. pc u' t = pc u t \<or> pc u' t = None \<or> the (pc u' t) \<notin> {4, 5}"
  shows "data_inv c u'"
proof -
  have "pc u t = Some n" if "pc u' t = Some n" "n \<in> {4, 5}" for t n using assms(5) [of t] that by auto
  then show ?thesis using assms(1-4) by (auto simp: data_inv_def)
qed

lemma wrap32_add: "wrap32 (wrap32 a + b) = wrap32 (a + b)"
  unfolding wrap32_def using signed_take_bit_add [of 31 "signed_take_bit 31 a" b] signed_take_bit_add [of 31 a b] by simp

lemma thread_step_data:
  assumes k: "k < NUM_SEM" and i: "client_inv L k 1 A u" and di: "data_inv c u"
    and t: "pc u t = Some n" and s: "thread_step L (of_nat k) localbuffer ecx t n u = Some u'"
  shows "data_inv c u'"
proof -
  have "n < 10" using client_invD(5) [OF i domI [where m = "pc u", OF t]] t by simp
  then show ?thesis
  proof (cases rule: thread_op_cases [of n k])
    case store
    then have u': "u' = goto_op t (Some 6) (u\<lparr>contador := valor_actual u t, writes := Suc (writes u)\<rparr>)" using s by (simp add: thread_step_defs)
    have "pc u t' \<noteq> Some 4 \<and> pc u t' \<noteq> Some 5" if "t' \<noteq> t" for t'
      using section_unique [OF k i, of t 5 t' 4] section_unique [OF k i, of t 5 t' 5] t store that by auto
    moreover have "valor_actual u t = wrap32 (contador u + 1)" "contador u = wrap32 (c + int (writes u))" using di t store by (auto simp: data_inv_def)
    moreover have "wrap32 (wrap32 (c + int (writes u)) + 1) = wrap32 (c + int (Suc (writes u)))"
      using wrap32_add [of "c + int (writes u)" 1] by (simp add: ac_simps)
    ultimately show ?thesis by (auto simp: u' data_inv_def)
  next
    case read
    then show ?thesis using s di by (auto simp: thread_step_defs data_inv_def)
  next
    case increment
    then show ?thesis using s di t by (auto simp: thread_step_defs data_inv_def)
  qed (use s t di in \<open>auto simp: thread_step_defs intro: data_inv_cong split: if_splits\<close>)
qed

lemma user_step_data:
  assumes "user_step L k u u'" "k < NUM_SEM" "client_inv L k 1 A u" "data_inv c u"
  shows "data_inv c u'"
  using assms
proof (induction rule: user_step.induct)
  case (thread u n localbuffer ecx u')
  show ?case by (rule thread_step_data [OF thread.prems thread.hyps(2,3)])
next
  case (enter u)
  show ?case by (rule data_inv_cong [OF enter.prems(3)]) auto
qed (auto intro: data_inv_cong)

text \<open>The bound ends with the semaphore: \<open>sys_semDestroy\<close> makes every thread that waits ready, and each of them goes on
  from \<open>semWait\<close> with the value 0, as if it had got the semaphore; those in the section stay there.\<close>

lemma sem_wake_all_state:
  assumes "sem_wake_all L i s = Some s'"
  shows "state (tasks s' u) = state (tasks s u) \<or> state (tasks s' u) = ST_READY"
proof (rule sem_wake_all.raw_induct [where P = "\<lambda>L i s s'. state (tasks s' u) = state (tasks s u) \<or> state (tasks s' u) = ST_READY", OF _ assms], goal_cases)
  case (1 f L i s s')
  show ?case using 1(2) by (auto simp: Let_def split: if_splits dest!: 1(1))
qed

lemma sys_semDestroy_state:
  assumes "sys_semDestroy L i s = Some (r, s')"
  shows "state (tasks s' u) = state (tasks s u) \<or> state (tasks s' u) = ST_READY"
  using assms by (auto simp: sys_semDestroy_def Let_def split: if_splits bind_splits dest: sem_wake_all_state [of _ _ _ _ u])

lemma destroy_lets_all_in:
  assumes L: "symtab_ok L" and k: "k < NUM_SEM" and i: "client_inv L k v A u" and own: "owns_sem L (kern u) k"
  shows "\<exists>ts s'. list_for_each (sem_queue L k) (links (kern u)) = Some (map tnode ts) \<and> distinct ts \<and>
    int (length ts) = max 0 (- count (sems (kern u) (sem_of L k))) \<and>
    system_call_handler L localbuffer 31 (of_nat k) ecx edx (kern u) = Some (0, s') \<and>
    {t. in_section u t} \<union> set ts \<subseteq> {t. in_section (u\<lparr>kern := s'\<rparr>) t}"
proof -
  let ?s = "kernel_entry (kern u)"
  obtain A1 where A1: "client_inv L k v A1 (u\<lparr>kern := ?s\<rparr>)" using client_kernel_entry(1) [OF L k i] by blast
  note d = client_invD [OF A1] and c = client_kernel_entry(2) [OF L k i]
  have own': "owns_sem L ?s k" using own c by (simp add: owns_sem_def) (simp add: kernel_entry_def)
  define ts where "ts = a_queue A1 (sem_queue L k)"
  let ?A = "\<lparr>a_queue = (a_queue A1)(sem_queue L k := [], readyqueue L := a_queue A1 (readyqueue L) @ ts), a_cur = a_cur A1\<rparr>"
  obtain s' where s': "sys_semDestroy L (int k) ?s = Some (0, s')" "kernel_inv L s' ?A"
    using sys_semDestroy_found [OF L _ own', of A1] d(1) unfolding ts_def by auto
  then have "system_call_handler L localbuffer 31 (of_nat k) ecx edx (kern u) = Some (0, s')"
    by (simp add: system_call_handler_def sys_call_table_def int_of_dword_sem [OF k] Let_def)
  moreover have q: "queues L (links ?s) (a_queue A1)" using d(1) by (simp add: kernel_inv_def sched_rel_def tasks_placed_def)
  have "list_for_each (sem_queue L k) (links ?s) = Some (map tnode ts)"
    unfolding ts_def using queuesD(1) [OF q, of "sem_queue L k"] k by (simp add: list_for_each_dlist)
  then have "list_for_each (sem_queue L k) (links (kern u)) = Some (map tnode ts)" by (simp add: kernel_entry_def)
  moreover have "distinct ts" unfolding ts_def using queues_distinct [OF q, of "sem_queue L k"] k by simp
  moreover have "int (length ts) = max 0 (- count (sems (kern u) (sem_of L k)))"
    unfolding ts_def using sem_invD [OF _ own', of A1] d(1) by (simp add: kernel_entry_def)
  moreover have "in_section (u\<lparr>kern := s'\<rparr>) t" if "in_section u t" for t
    using that sys_semDestroy_state [OF s'(1), of t] by (auto simp: in_section_def kernel_entry_def split: option.splits)
  moreover have "in_section (u\<lparr>kern := s'\<rparr>) t" if t: "t \<in> set ts" for t
  proof -
    have "tasks_placed L s' (a_queue ?A)" using s'(2) by (simp add: kernel_inv_def sched_rel_def)
    then have "state (tasks s' t) = ST_READY" using t by (auto simp: tasks_placed_def)
    then show ?thesis using d(6) [of t] t by (simp add: ts_def in_section_def)
  qed
  ultimately show ?thesis by blast
qed

section \<open>Properties\<close>

text \<open>The first process after its \<open>semCreate\<close>, and the same process in \<open>thread_function\<close>.\<close>

definition test_start :: "int \<Rightarrow> users" where
  "test_start v = \<lparr>kern = sem_booted v, pc = \<lambda>_. None, valor_actual = \<lambda>_. 0, contador = 0, writes = 0, disturbed = False\<rparr>"

lemma sem_booted_ok:
  assumes "0 \<le> v" "int32 v"
  shows "kernel_ok example_symtab (sem_booted v)"
proof -
  have "counts_ok booted" using boot_ok [OF example_symtab_ok zero_counts_ok] by (simp add: kernel_ok_def booted_def zero_kstate_def)
  then have "counts_ok (sem_booted v)" using sem_counts(3) assms(2) by (simp add: sem_booted_def)
  then show ?thesis using sem_booted_inv(1) [OF assms(1)] by (auto simp: kernel_ok_def)
qed

lemma test_start: "0 \<le> v \<Longrightarrow> int32 v \<Longrightarrow> client_start example_symtab 0 v (test_start v)"
  using sem_booted_ok [of v] sem_booted_inv [of v] owns_semD(5) [OF sem_booted_inv(1,2), of v]
  by (simp add: client_start_def test_start_def NUM_SEM_def)

text \<open>This process has come to operation \<open>n\<close>, alone, with the given counter and number of writes.\<close>

definition test_at :: "nat \<Rightarrow> int \<Rightarrow> nat \<Rightarrow> users \<Rightarrow> bool" where
  "test_at n c w u \<longleftrightarrow> (user_step example_symtab 0)\<^sup>*\<^sup>* (test_start 1) u \<and> pc u (current (kern u)) = Some n \<and>
     current (kern u) \<noteq> idle_task (kern u) \<and> count (sems (kern u) (sem_of example_symtab 0)) = c \<and> writes u = w \<and> \<not> disturbed u"

lemma test_at_inv: "test_at n c w u \<Longrightarrow> \<exists>A. client_inv example_symtab 0 1 A u"
  unfolding test_at_def using reachable_client_inv [OF example_symtab_ok test_start, of 1 u] by (simp add: int32_def)

lemma test_enter: "\<exists>u. test_at 0 1 0 u"
proof -
  have "user_step example_symtab 0 (test_start 1) (goto_op (current (sem_booted 1)) (Some 0) (test_start 1))"
    using user_step.enter [of example_symtab "test_start 1" 0] sem_booted_inv(2) [of 1] by (simp add: test_start_def)
  then have "test_at 0 1 0 (goto_op (current (sem_booted 1)) (Some 0) (test_start 1))"
    using sem_booted_inv(2,3) [of 1] by (simp add: test_at_def) (simp add: test_start_def owns_sem_def)
  then show ?thesis ..
qed

lemma test_at_step:
  assumes "test_at n c w u" "thread_step example_symtab (of_nat 0) localbuffer ecx (current (kern u)) n u = Some u'"
    "pc u' (current (kern u')) = Some m" "current (kern u') \<noteq> idle_task (kern u')" "count (sems (kern u') (sem_of example_symtab 0)) = c'" "writes u' = w'"
  shows "\<exists>u. test_at m c' w' u"
proof -
  have "\<not> disturbed u'" using assms(1,2) thread_step_disturbed by (fastforce simp: test_at_def)
  have "user_step example_symtab 0 u u'" using assms(1,2) by (intro user_step.thread) (simp_all add: test_at_def)
  with assms(1) have "(user_step example_symtab 0)\<^sup>*\<^sup>* (test_start 1) u'"
    by (auto simp: test_at_def intro: rtranclp.rtrancl_into_rtrancl)
  with \<open>\<not> disturbed u'\<close> have "test_at m c' w' u'" using assms(3-6) by (simp add: test_at_def)
  then show ?thesis ..
qed

text \<open>With a bad address \<open>sys_write\<close> returns at once.\<close>

lemma test_write:
  assumes u: "test_at n c w u" and n: "n = 0 \<or> n = 2"
  shows "\<exists>u. test_at (Suc n) c w u"
proof -
  obtain A where A: "client_inv example_symtab 0 1 A u" using test_at_inv [OF u] by blast
  have ok: "kernel_ok example_symtab (kern u)" using client_invD(1,2) [OF A] by (auto simp: kernel_ok_def)
  have "system_call_handler example_symtab 0 4 1 0 x (kern u) = Some (- EFAULT, kernel_entry (kern u))" if "x = 12 \<or> x = 15" for x
    using that by (auto simp: system_call_handler_def sys_call_table_def sys_write_def check_fd_def access_ok_def VERIFY_READ_def VERIFY_WRITE_def
        ESCRIPTURA_def int_of_dword_def layout_consts Let_def)
  then have "thread_step example_symtab (of_nat 0) 0 0 (current (kern u)) n u =
      Some (goto_op (current (kern u)) (Some (Suc n)) (u\<lparr>kern := kernel_entry (kern u)\<rparr>))"
    using n by (auto simp: thread_step_defs thread_function_def)
  from test_at_step [OF u this] show ?thesis
    using kernel_entry_ok(2) [OF example_symtab_ok ok] u by (simp add: test_at_def) (simp add: kernel_entry_def)
qed

lemma test_wait:
  assumes u: "test_at 1 1 0 u"
  shows "\<exists>u. test_at 2 0 0 u"
proof -
  obtain A where A: "client_inv example_symtab 0 1 A u" using test_at_inv [OF u] by blast
  let ?k = "kernel_entry (kern u)" and ?f = "\<lambda>S. S\<lparr>count := count S - 1\<rparr>"
  note e = client_kernel_entry [OF example_symtab_ok _ A]
  obtain A1 where A1: "client_inv example_symtab 0 1 A1 (u\<lparr>kern := ?k\<rparr>)" using e(1) by (auto simp: NUM_SEM_def)
  have c: "current ?k = current (kern u)" using e(2) by (simp add: NUM_SEM_def)
  have own: "owns_sem example_symtab ?k 0"
    using client_owns [OF A1] u c by (simp add: NUM_SEM_def test_at_def) (simp add: kernel_entry_def)
  have n: "count (sems ?k (sem_of example_symtab 0)) = 1" using u by (simp add: test_at_def kernel_entry_def)
  have "sys_semWait example_symtab 0 ?k = (0, upd_sem (sem_of example_symtab 0) ?f ?k)"
    using sys_semWait_passes [OF example_symtab_ok _ own, of A1] client_invD(1) [OF A1] n by (simp add: int32_def)
  then have "thread_step example_symtab (of_nat 0) 0 0 (current (kern u)) 1 u =
      Some (goto_op (current (kern u)) (Some 2) (u\<lparr>kern := upd_sem (sem_of example_symtab 0) ?f ?k\<rparr>))"
    by (simp add: thread_step_defs thread_function_def system_call_handler_def sys_call_table_def int_of_dword_def Let_def numeral_2_eq_2)
  from test_at_step [OF u this] show ?thesis using c n u by (simp add: test_at_def) (simp add: kernel_entry_def)
qed

lemma test_local:
  assumes u: "test_at n c w u" and n: "n = 3 \<or> n = 4 \<or> n = 5"
  shows "\<exists>u. test_at (Suc n) c (if n = 5 then Suc w else w) u"
proof -
  obtain u' where s: "thread_step example_symtab (of_nat 0) 0 0 (current (kern u)) n u = Some u'" "kern u' = kern u"
    "pc u' = (pc u)(current (kern u) := Some (Suc n))" "writes u' = (if n = 5 then Suc (writes u) else writes u)"
    using n by (auto simp: thread_step_defs thread_function_def)
  show ?thesis by (rule test_at_step [OF u s(1)]) (use u s(2-4) in \<open>simp_all add: test_at_def\<close>)
qed

lemma test_section: "\<exists>u. test_at 2 0 0 u" "\<exists>u. test_at 6 0 1 u"
proof -
  obtain u where "test_at 0 1 0 u" using test_enter ..
  from test_write [OF this] obtain u1 where "test_at 1 1 0 u1" by auto
  from test_wait [OF this] show *: "\<exists>u. test_at 2 0 0 u" .
  then obtain u2 where "test_at 2 0 0 u2" ..
  from test_write [OF this] obtain u3 where u3: "test_at 3 0 0 u3" by auto
  from test_local [OF this] obtain u4 where u4: "test_at 4 0 0 u4" by auto
  from test_local [OF this] obtain u5 where u5: "test_at 5 0 0 u5" by auto
  from test_local [OF this] show "\<exists>u. test_at 6 0 1 u" by simp
qed

text \<open>C3: Mutual exclusion for the threads of the test, and where it ends. From a state in which the semaphore was just
  created with value \<open>v\<close>, the clock, the keyboard, the threads and other tasks with any calls that keep the kernel sound
  take steps in any order. As long as no task outside \<open>thread_function\<close> has forked (which resets all semaphores) or called
  \<open>semWait\<close>, \<open>semSignal\<close> or \<open>semDestroy\<close> on the semaphore without being refused, at most \<open>v\<close> threads are between the
  return of \<open>semWait\<close> and their \<open>semSignal\<close>. In each of these states \<open>semDestroy\<close> by a task of the process, which is what
  \<open>main\<close> does while threads wait, succeeds and ends this: the threads inside stay, and all those in the queue of the
  semaphore, as many as its counter is below zero, enter at once.\<close>

theorem semaphore_limits_section:
  assumes "symtab_ok L" and "client_start L k v u0" and "(user_step L k)\<^sup>*\<^sup>* u0 u" and "\<not> disturbed u"
  shows "int (card {t. in_section u t}) \<le> v \<and>
    (owns_sem L (kern u) k \<longrightarrow>
       (\<exists>ts s'. list_for_each (sem_queue L k) (links (kern u)) = Some (map tnode ts) \<and> distinct ts \<and>
          int (length ts) = max 0 (- count (sems (kern u) (sem_of L k))) \<and>
          system_call_handler L localbuffer 31 (of_nat k) ecx edx (kern u) = Some (0, s') \<and>
          {t. in_section u t} \<union> set ts \<subseteq> {t. in_section (u\<lparr>kern := s'\<rparr>) t}))"
proof -
  obtain A where A: "client_inv L k v A u" using reachable_client_inv [OF assms] by blast
  note s = client_start_inv(3) [OF assms(2)]
  have "int (card {t. in_section u t}) \<le> v" by (rule section_card [OF s A]) (use assms(2) in \<open>simp add: client_start_def\<close>)
  then show ?thesis using destroy_lets_all_in [OF assms(1) s A] by blast
qed

theorem semaphore_limits_section_witness:
  "\<exists>u t s'. (user_step example_symtab 0)\<^sup>*\<^sup>* (test_start 1) u \<and> in_section u t \<and> card {t. in_section u t} \<le> 1 \<and>
     system_call_handler example_symtab 0 31 0 0 0 (kern u) = Some (0, s') \<and> in_section (u\<lparr>kern := s'\<rparr>) t"
proof -
  obtain u where u: "test_at 2 0 0 u" using test_section(1) ..
  then obtain A where A: "client_inv example_symtab 0 1 A u" using test_at_inv by blast
  then have "state (tasks (kern u) (current (kern u))) = ST_RUN"
    using client_invD(1) [of example_symtab 0 1 A u] sched_relD(7) [of example_symtab "kern u" A] by (simp add: kernel_inv_def)
  then have t: "in_section u (current (kern u))" using u by (simp add: test_at_def in_section_def)
  have "owns_sem example_symtab (kern u) 0" using client_owns [OF A] u by (simp add: test_at_def NUM_SEM_def)
  then show ?thesis
    using semaphore_limits_section [OF example_symtab_ok test_start, of 1 u 0 0 0] u t by (auto simp: test_at_def int32_def)
qed

text \<open>C4: No update is lost while the semaphore protects it. The semaphore is created with value 1, and no task outside
  \<open>thread_function\<close> has forked since, or called \<open>semWait\<close>, \<open>semSignal\<close> or \<open>semDestroy\<close> on it without being refused; all
  else may happen in any order. Then \<open>contador\<close> is its first value plus the number of times a thread has written it
  (modulo \<open>2 ^ 32\<close>), although a thread reads it, adds one and writes it back in separate steps. Once the semaphore is
  destroyed several threads are in the section and the property makes no claim.\<close>

theorem no_update_lost:
  assumes "symtab_ok L" and "client_start L k 1 u0" and "writes u0 = 0" and "int32 (contador u0)" and "(user_step L k)\<^sup>*\<^sup>* u0 u"
    and "\<not> disturbed u"
  shows "contador u = wrap32 (contador u0 + int (writes u))"
proof -
  have "data_inv (contador u0) u"
    using assms(5,6)
  proof (induction rule: rtranclp_induct)
    case base
    show ?case using assms(2-4) by (simp add: data_inv_def client_start_def)
  next
    case (step u u')
    have nd: "\<not> disturbed u" using user_step_disturbed [OF step.hyps(2)] step.prems by blast
    then obtain A where "client_inv L k 1 A u" using reachable_client_inv [OF assms(1,2) step.hyps(1)] by blast
    from user_step_data [OF step.hyps(2) client_start_inv(3) [OF assms(2)] this step.IH [OF nd]] show ?case .
  qed
  then show ?thesis by (simp add: data_inv_def)
qed

theorem no_update_lost_witness:
  "\<exists>u. (user_step example_symtab 0)\<^sup>*\<^sup>* (test_start 1) u \<and> writes u = 1 \<and> contador u = 1"
proof -
  obtain u where u: "test_at 6 0 1 u" using test_section(2) ..
  then have "contador u = wrap32 (contador (test_start 1) + int (writes u))"
    by (intro no_update_lost [OF example_symtab_ok test_start]) (simp_all add: test_at_def test_start_def int32_def)
  then show ?thesis using u by (auto simp: test_at_def test_start_def int32_def)
qed

end
