(* ===== verification/Zeos_Wrappers.thy ===== *)
theory Zeos_Wrappers
  imports Zeos_Kernel Zeos_Early_Sys
begin

text \<open>
  The user side of the system calls: the stubs of \<open>user-utils.S\<close> and, for the earlier kernel, of \<open>wrappers.S\<close>,
  instruction by instruction, on the registers and the words of the user stack, and what the entry and exit code of
  the kernel does to the registers. The kernel is the function \<open>K\<close>, with \<open>eax\<close>, \<open>ebx\<close>, \<open>ecx\<close>, \<open>edx\<close> and its
  state; \<open>system_call_handler\<close> and \<open>syscall_handler_sysenter\<close> are instances. The stack is a store of words of its
  own: a call that writes user memory is taken not to write the frames of its own stub.
\<close>

unbundle bit_operations_syntax

section \<open>Registers and stack\<close>

record 'k ucpu =
  r_eax :: DWord
  r_ebx :: DWord
  r_ecx :: DWord
  r_edx :: DWord
  r_esi :: DWord
  r_edi :: DWord
  r_ebp :: DWord
  r_esp :: DWord
  r_eip :: DWord
  stk :: "ptr \<Rightarrow> DWord"
  errno :: int
  krnl :: 'k

type_synonym 'k kcall = "int \<Rightarrow> DWord \<Rightarrow> DWord \<Rightarrow> DWord \<Rightarrow> 'k \<Rightarrow> (int \<times> 'k) option"

definition push :: "DWord \<Rightarrow> 'k ucpu \<Rightarrow> 'k ucpu" where
  "push v u = u\<lparr>r_esp := r_esp u - 4, stk := (stk u)(r_esp u - 4 := v)\<rparr>"

definition top_word :: "'k ucpu \<Rightarrow> DWord" where
  "top_word u = stk u (r_esp u)"

definition drop_word :: "'k ucpu \<Rightarrow> 'k ucpu" where
  "drop_word u = u\<lparr>r_esp := r_esp u + 4\<rparr>"

definition pop_ebx :: "'k ucpu \<Rightarrow> 'k ucpu" where
  "pop_ebx u = drop_word (u\<lparr>r_ebx := top_word u\<rparr>)"

definition pop_ecx :: "'k ucpu \<Rightarrow> 'k ucpu" where
  "pop_ecx u = drop_word (u\<lparr>r_ecx := top_word u\<rparr>)"

definition pop_edx :: "'k ucpu \<Rightarrow> 'k ucpu" where
  "pop_edx u = drop_word (u\<lparr>r_edx := top_word u\<rparr>)"

definition pop_ebp :: "'k ucpu \<Rightarrow> 'k ucpu" where
  "pop_ebp u = drop_word (u\<lparr>r_ebp := top_word u\<rparr>)"

definition ret :: "'k ucpu \<Rightarrow> 'k ucpu" where
  "ret u = drop_word (u\<lparr>r_eip := top_word u\<rparr>)"

text \<open>
  \<open>sysenter\<close> and the code of \<open>entry.S\<close> around the call: the stack of the user is found through \<open>ebp\<close>, the address
  to return to is the word above it, and \<open>sysexit\<close> takes them from \<open>ecx\<close> and \<open>edx\<close>; the other registers are those
  saved, with the result in \<open>eax\<close>.
\<close>

definition sysenter :: "'k kcall \<Rightarrow> 'k ucpu \<Rightarrow> 'k ucpu option" where
  "sysenter K u =
     map_option (\<lambda>(res, k). u\<lparr>r_eax := dword_of_int res, r_edx := stk u (r_ebp u + 4), r_ecx := r_ebp u,
         r_eip := stk u (r_ebp u + 4), r_esp := r_ebp u, krnl := k\<rparr>)
       (K (int_of_dword (r_eax u)) (r_ebx u) (r_ecx u) (r_edx u) (krnl u))"

section \<open>user-utils.S\<close>

text \<open>\<open>syscall_sysenter\<close>; \<open>R\<close> is the address of \<open>SYSENTER_RETURN\<close>. The code goes on only if the kernel returns there.\<close>

definition syscall_sysenter :: "'k kcall \<Rightarrow> ptr \<Rightarrow> 'k ucpu \<Rightarrow> 'k ucpu option" where
  "syscall_sysenter K R u =
     (let u = push (r_ecx u) u;
          u = push (r_edx u) u;
          u = push R u;
          u = push (r_ebp u) u;
          u = u\<lparr>r_ebp := r_esp u\<rparr>
      in Option.bind (sysenter K u) (\<lambda>u.
        if r_eip u \<noteq> R then None else Some (ret (pop_ecx (pop_edx (pop_edx (pop_ebp u)))))))"

text \<open>\<open>call syscall_sysenter\<close> from an instruction followed by the one at \<open>ra\<close>.\<close>

definition call_syscall :: "'k kcall \<Rightarrow> ptr \<Rightarrow> ptr \<Rightarrow> 'k ucpu \<Rightarrow> 'k ucpu option" where
  "call_syscall K R ra u =
     Option.bind (syscall_sysenter K R (push ra u)) (\<lambda>u. if r_eip u \<noteq> ra then None else Some u)"

definition enter_stub :: "'k ucpu \<Rightarrow> 'k ucpu" where
  "enter_stub u = (let u = push (r_ebp u) u in u\<lparr>r_ebp := r_esp u\<rparr>)"

definition leave_stub :: "'k ucpu \<Rightarrow> 'k ucpu" where
  "leave_stub u = ret (pop_ebp u)"

definition nok :: "'k ucpu \<Rightarrow> 'k ucpu" where
  "nok u =
     (let u = u\<lparr>r_eax := - r_eax u\<rparr>;
          u = u\<lparr>errno := int_of_dword (r_eax u)\<rparr>;
          u = u\<lparr>r_eax := -1\<rparr>
      in leave_stub u)"

definition test_result :: "'k ucpu \<Rightarrow> 'k ucpu" where
  "test_result u = (if int_of_dword (r_eax u) < 0 then nok u else leave_stub u)"

text \<open>The arguments of the stub, above the saved \<open>ebp\<close> and the return address.\<close>

definition arg :: "nat \<Rightarrow> 'k ucpu \<Rightarrow> DWord" where
  "arg i u = stk u (r_ebp u + of_nat (4 + 4 * i))"

definition load_args :: "nat \<Rightarrow> 'k ucpu \<Rightarrow> 'k ucpu" where
  "load_args n u =
     (let u = (if 1 \<le> n then u\<lparr>r_ebx := arg 1 u\<rparr> else u);
          u = (if 2 \<le> n then u\<lparr>r_ecx := arg 2 u\<rparr> else u)
      in if 3 \<le> n then u\<lparr>r_edx := arg 3 u\<rparr> else u)"

text \<open>The shapes of the stubs: with arguments, without, and without a test of the result.\<close>

definition arg_stub :: "int \<Rightarrow> nat \<Rightarrow> 'k kcall \<Rightarrow> ptr \<Rightarrow> ptr \<Rightarrow> 'k ucpu \<Rightarrow> 'k ucpu option" where
  "arg_stub nr n K R ra u =
     (let u = enter_stub u;
          u = push (r_ebx u) u;
          u = u\<lparr>r_eax := dword_of_int nr\<rparr>;
          u = load_args n u
      in map_option (\<lambda>u. test_result (pop_ebx u)) (call_syscall K R ra u))"

definition fork_stub :: "'k kcall \<Rightarrow> ptr \<Rightarrow> ptr \<Rightarrow> 'k ucpu \<Rightarrow> 'k ucpu option" where
  "fork_stub K R ra u =
     (let u = enter_stub u;
          u = u\<lparr>r_eax := 2\<rparr>
      in map_option test_result (call_syscall K R ra u))"

definition plain_stub :: "int \<Rightarrow> 'k kcall \<Rightarrow> ptr \<Rightarrow> ptr \<Rightarrow> 'k ucpu \<Rightarrow> 'k ucpu option" where
  "plain_stub nr K R ra u =
     (let u = enter_stub u;
          u = u\<lparr>r_eax := dword_of_int nr\<rparr>
      in map_option leave_stub (call_syscall K R ra u))"

definition write_stub :: "'k kcall \<Rightarrow> ptr \<Rightarrow> ptr \<Rightarrow> 'k ucpu \<Rightarrow> 'k ucpu option" where
  "write_stub = arg_stub 4 3"

definition get_stats_stub :: "'k kcall \<Rightarrow> ptr \<Rightarrow> ptr \<Rightarrow> 'k ucpu \<Rightarrow> 'k ucpu option" where
  "get_stats_stub = arg_stub 35 2"

definition getKey_stub :: "'k kcall \<Rightarrow> ptr \<Rightarrow> ptr \<Rightarrow> 'k ucpu \<Rightarrow> 'k ucpu option" where
  "getKey_stub = arg_stub 21 1"

definition sbrk_stub :: "'k kcall \<Rightarrow> ptr \<Rightarrow> ptr \<Rightarrow> 'k ucpu \<Rightarrow> 'k ucpu option" where
  "sbrk_stub = arg_stub 22 1"

definition gotoXY_stub :: "'k kcall \<Rightarrow> ptr \<Rightarrow> ptr \<Rightarrow> 'k ucpu \<Rightarrow> 'k ucpu option" where
  "gotoXY_stub = arg_stub 23 2"

definition SetColor_stub :: "'k kcall \<Rightarrow> ptr \<Rightarrow> ptr \<Rightarrow> 'k ucpu \<Rightarrow> 'k ucpu option" where
  "SetColor_stub = arg_stub 24 2"

definition spritePut_stub :: "'k kcall \<Rightarrow> ptr \<Rightarrow> ptr \<Rightarrow> 'k ucpu \<Rightarrow> 'k ucpu option" where
  "spritePut_stub = arg_stub 25 3"

definition threadCreate_stub :: "'k kcall \<Rightarrow> ptr \<Rightarrow> ptr \<Rightarrow> 'k ucpu \<Rightarrow> 'k ucpu option" where
  "threadCreate_stub = arg_stub 26 3"

definition semCreate_stub :: "'k kcall \<Rightarrow> ptr \<Rightarrow> ptr \<Rightarrow> 'k ucpu \<Rightarrow> 'k ucpu option" where
  "semCreate_stub = arg_stub 28 1"

definition semWait_stub :: "'k kcall \<Rightarrow> ptr \<Rightarrow> ptr \<Rightarrow> 'k ucpu \<Rightarrow> 'k ucpu option" where
  "semWait_stub = arg_stub 29 1"

definition semSignal_stub :: "'k kcall \<Rightarrow> ptr \<Rightarrow> ptr \<Rightarrow> 'k ucpu \<Rightarrow> 'k ucpu option" where
  "semSignal_stub = arg_stub 30 1"

definition semDestroy_stub :: "'k kcall \<Rightarrow> ptr \<Rightarrow> ptr \<Rightarrow> 'k ucpu \<Rightarrow> 'k ucpu option" where
  "semDestroy_stub = arg_stub 31 1"

definition gettime_stub :: "'k kcall \<Rightarrow> ptr \<Rightarrow> ptr \<Rightarrow> 'k ucpu \<Rightarrow> 'k ucpu option" where
  "gettime_stub = plain_stub 10"

definition getpid_stub :: "'k kcall \<Rightarrow> ptr \<Rightarrow> ptr \<Rightarrow> 'k ucpu \<Rightarrow> 'k ucpu option" where
  "getpid_stub = plain_stub 20"

definition exit_stub :: "'k kcall \<Rightarrow> ptr \<Rightarrow> ptr \<Rightarrow> 'k ucpu \<Rightarrow> 'k ucpu option" where
  "exit_stub = plain_stub 1"

definition yield_stub :: "'k kcall \<Rightarrow> ptr \<Rightarrow> ptr \<Rightarrow> 'k ucpu \<Rightarrow> 'k ucpu option" where
  "yield_stub = plain_stub 13"

text \<open>\<open>threadExit\<close> has the call twice and a \<open>popl %ebx\<close> without its push.\<close>

definition threadExit_stub :: "'k kcall \<Rightarrow> ptr \<Rightarrow> ptr \<Rightarrow> ptr \<Rightarrow> 'k ucpu \<Rightarrow> 'k ucpu option" where
  "threadExit_stub K R ra ra' u =
     (let u = enter_stub u;
          u = u\<lparr>r_eax := 27\<rparr>
      in Option.bind (call_syscall K R ra u) (\<lambda>u.
         map_option (\<lambda>u. test_result (pop_ebx u)) (call_syscall K R ra' u)))"

text \<open>The registers saved in the array \<open>REGS\<close> of \<open>libc.c\<close>.\<close>

definition SAVE_REGS :: "ptr \<Rightarrow> 'k ucpu \<Rightarrow> 'k ucpu" where
  "SAVE_REGS REGS u =
     (let u = push (r_eax u) u;
          u = u\<lparr>stk := (stk u)(REGS := r_eax u)\<rparr>;
          u = u\<lparr>r_eax := REGS\<rparr>;
          u = u\<lparr>stk := (stk u)(r_eax u + 4 := r_ebp u)\<rparr>;
          u = u\<lparr>stk := (stk u)(r_eax u + 8 := r_edi u)\<rparr>;
          u = u\<lparr>stk := (stk u)(r_eax u + 12 := r_esi u)\<rparr>;
          u = u\<lparr>stk := (stk u)(r_eax u + 16 := r_edx u)\<rparr>;
          u = u\<lparr>stk := (stk u)(r_eax u + 20 := r_ecx u)\<rparr>;
          u = u\<lparr>stk := (stk u)(r_eax u + 24 := r_ebx u)\<rparr>
      in ret (drop_word (u\<lparr>r_eax := top_word u\<rparr>)))"

definition RESTORE_REGS :: "ptr \<Rightarrow> 'k ucpu \<Rightarrow> 'k ucpu" where
  "RESTORE_REGS REGS u =
     (let u = u\<lparr>r_eax := REGS\<rparr>;
          u = u\<lparr>r_ebp := stk u (r_eax u + 4)\<rparr>;
          u = u\<lparr>r_edi := stk u (r_eax u + 8)\<rparr>;
          u = u\<lparr>r_esi := stk u (r_eax u + 12)\<rparr>;
          u = u\<lparr>r_edx := stk u (r_eax u + 16)\<rparr>;
          u = u\<lparr>r_ecx := stk u (r_eax u + 20)\<rparr>;
          u = u\<lparr>r_ebx := stk u (r_eax u + 24)\<rparr>;
          u = u\<lparr>r_eax := stk u (r_eax u)\<rparr>
      in ret u)"

lemmas stack_ops = push_def top_word_def drop_word_def pop_ebx_def pop_ecx_def pop_edx_def pop_ebp_def ret_def

lemma call_syscall_eq:
  "call_syscall K R ra u =
     map_option (\<lambda>(res, k). u\<lparr>r_eax := dword_of_int res, r_eip := ra, krnl := k,
         stk := (stk u)(r_esp u - 4 := ra, r_esp u - 8 := r_ecx u, r_esp u - 12 := r_edx u, r_esp u - 16 := R, r_esp u - 20 := r_ebp u)\<rparr>)
       (K (int_of_dword (r_eax u)) (r_ebx u) (r_ecx u) (r_edx u) (krnl u))"
  by (cases "K (int_of_dword (r_eax u)) (r_ebx u) (r_ecx u) (r_edx u) (krnl u)")
    (auto simp: call_syscall_def syscall_sysenter_def sysenter_def stack_ops Let_def)

text \<open>\<open>SAVE_REGS\<close> keeps every register, and \<open>RESTORE_REGS\<close> brings back what it saved as long as the array is not
  written in between, when the array is apart from the word \<open>SAVE_REGS\<close> pushes.\<close>

lemma SAVE_REGS_eq:
  assumes "\<And>i. i \<le> 6 \<Longrightarrow> r_esp u - 4 \<noteq> R + of_nat (4 * i)" "\<And>i. i \<le> 6 \<Longrightarrow> r_esp u \<noteq> R + of_nat (4 * i)"
  shows "SAVE_REGS R u = u\<lparr>r_esp := r_esp u + 4, r_eip := stk u (r_esp u), stk := (stk u)(r_esp u - 4 := r_eax u, R := r_eax u,
    R + 4 := r_ebp u, R + 8 := r_edi u, R + 12 := r_esi u, R + 16 := r_edx u, R + 20 := r_ecx u, R + 24 := r_ebx u)\<rparr>"
proof -
  let ?m = "(stk u)(r_esp u - 4 := r_eax u, R := r_eax u,
    R + 4 := r_ebp u, R + 8 := r_edi u, R + 12 := r_esi u, R + 16 := r_edx u, R + 20 := r_ecx u, R + 24 := r_ebx u)"
  have upd: "(f(R := a0, R + 4 := a1, R + 8 := a2, R + 12 := a3, R + 16 := a4, R + 20 := a5, R + 24 := a6)) x = f x"
    if "\<And>i. i \<le> 6 \<Longrightarrow> x \<noteq> R + of_nat (4 * i)" for f :: "ptr \<Rightarrow> DWord" and x a0 a1 a2 a3 a4 a5 a6
    using that [of 0] that [of 1] that [of 2] that [of 3] that [of 4] that [of 5] that [of 6] by simp
  have m: "?m (r_esp u - 4) = r_eax u" by (subst upd [OF assms(1)]) simp_all
  have r: "?m (r_esp u) = stk u (r_esp u)" by (subst upd [OF assms(2)]) simp_all
  have "SAVE_REGS R u = (let v = u\<lparr>r_esp := r_esp u - 4, stk := ?m, r_eax := R\<rparr> in ret (drop_word (v\<lparr>r_eax := top_word v\<rparr>)))"
    by (cases u) (simp only: SAVE_REGS_def push_def Let_def ucpu.simps)
  then show ?thesis using m r by (simp add: stack_ops Let_def del: fun_upd_apply)
qed

lemma RESTORE_SAVE_REGS:
  assumes "\<And>i. i \<le> 6 \<Longrightarrow> r_esp u - 4 \<noteq> R + of_nat (4 * i)" "\<And>i. i \<le> 6 \<Longrightarrow> r_esp u \<noteq> R + of_nat (4 * i)"
    and "\<And>i. i \<le> 6 \<Longrightarrow> stk w (R + of_nat (4 * i)) = stk (SAVE_REGS R u) (R + of_nat (4 * i))"
  defines "w' \<equiv> RESTORE_REGS R w"
  shows "r_eax w' = r_eax u" "r_ebx w' = r_ebx u" "r_ecx w' = r_ecx u" "r_edx w' = r_edx u" "r_esi w' = r_esi u" "r_edi w' = r_edi u" "r_ebp w' = r_ebp u"
proof -
  have e: "stk (SAVE_REGS R u) = (stk u)(r_esp u - 4 := r_eax u, R := r_eax u,
    R + 4 := r_ebp u, R + 8 := r_edi u, R + 12 := r_esi u, R + 16 := r_edx u, R + 20 := r_ecx u, R + 24 := r_ebx u)"
    by (subst SAVE_REGS_eq) (fact assms(1), fact assms(2), simp)
  note m = assms(3) [of 0] assms(3) [of 1] assms(3) [of 2] assms(3) [of 3] assms(3) [of 4] assms(3) [of 5] assms(3) [of 6]
  show "r_eax w' = r_eax u" "r_ebx w' = r_ebx u" "r_ecx w' = r_ecx u" "r_edx w' = r_edx u" "r_esi w' = r_esi u" "r_edi w' = r_edi u" "r_ebp w' = r_ebp u"
    using m by (simp_all add: e w'_def RESTORE_REGS_def stack_ops Let_def)
qed

text \<open>The value a stub leaves in \<open>eax\<close> and \<open>errno\<close> for a result of the kernel.\<close>

definition checked :: "DWord \<Rightarrow> 'k ucpu \<Rightarrow> 'k ucpu" where
  "checked w u = (if int_of_dword w < 0 then u\<lparr>r_eax := -1, errno := int_of_dword (- w)\<rparr> else u\<lparr>r_eax := w\<rparr>)"

text \<open>After a call the stack pointer is above the return address, control is at the return address, and below it
  the stack has the frames of the stub and of \<open>syscall_sysenter\<close>.\<close>

definition returned :: "'k ucpu \<Rightarrow> (ptr \<Rightarrow> DWord) \<Rightarrow> 'k \<Rightarrow> 'k ucpu" where
  "returned u m k = u\<lparr>r_esp := r_esp u + 4, r_eip := stk u (r_esp u), stk := m, krnl := k\<rparr>"

definition stack_below :: "nat \<Rightarrow> 'k ucpu \<Rightarrow> (ptr \<Rightarrow> DWord) \<Rightarrow> bool" where
  "stack_below n u m \<longleftrightarrow> (\<forall>a. (\<forall>i \<in> {1..n}. a \<noteq> r_esp u - of_nat (4 * i)) \<longrightarrow> m a = stk u a)"

lemma stack_belowI: "(\<And>a. (\<forall>i \<in> {1..n}. a \<noteq> r_esp u - of_nat (4 * i)) \<Longrightarrow> m a = stk u a) \<Longrightarrow> stack_below n u m"
  by (simp add: stack_below_def)

lemma set_upto: "{Suc 0..6} = {1, 2, 3, 4, 5, 6}" "{Suc 0..7} = {1, 2, 3, 4, 5, 6, 7}" "{Suc 0..8} = {1, 2, 3, 4, 5, 6, 7, 8}"
  by auto

lemma esp_comm: "4 + r_esp u = r_esp u + 4" "8 + r_esp u = r_esp u + 8" "12 + r_esp u = r_esp u + 12"
  by (rule add.commute)+

lemma load_args_eq:
  "load_args n u = u\<lparr>r_ebx := if 1 \<le> n then arg 1 u else r_ebx u, r_ecx := if 2 \<le> n then arg 2 u else r_ecx u,
     r_edx := if 3 \<le> n then arg 3 u else r_edx u\<rparr>"
  by (cases u) (simp add: load_args_def arg_def Let_def)

lemma arg_stub_eq:
  fixes n :: nat and u :: "'k ucpu"
  assumes b: "b = (if 1 \<le> n then stk u (r_esp u + 4) else r_ebx u)" and c: "c = (if 2 \<le> n then stk u (r_esp u + 8) else r_ecx u)"
    and d: "d = (if 3 \<le> n then stk u (r_esp u + 12) else r_edx u)"
    and K: "K (int_of_dword (dword_of_int nr)) b c d (krnl u) = Some (res, k)"
  shows "\<exists>m. stack_below 7 u m \<and> arg_stub nr n K R ra u = Some (checked (dword_of_int res) ((returned u m k)\<lparr>r_ecx := c, r_edx := d\<rparr>))"
proof -
  let ?e = "r_esp u"
  let ?m = "(stk u)(?e - 4 := r_ebp u, ?e - 8 := r_ebx u, ?e - 12 := ra, ?e - 16 := c, ?e - 20 := d, ?e - 24 := R, ?e - 28 := ?e - 4)"
  let ?u = "u\<lparr>r_ebp := ?e - 4, r_esp := ?e - 8, stk := (stk u)(?e - 4 := r_ebp u, ?e - 8 := r_ebx u), r_eax := dword_of_int nr\<rparr>"
  have "stack_below 7 u ?m" by (rule stack_belowI) (simp add: set_upto)
  moreover have l: "load_args n ?u = ?u\<lparr>r_ebx := b, r_ecx := c, r_edx := d\<rparr>"
    unfolding load_args_eq b c d by (simp add: arg_def esp_comm)
  have s: "arg_stub nr n K R ra u = map_option (\<lambda>u. test_result (pop_ebx u)) (call_syscall K R ra (load_args n ?u))"
    by (simp add: arg_stub_def enter_stub_def stack_ops Let_def)
  have "arg_stub nr n K R ra u = Some (checked (dword_of_int res) ((returned u ?m k)\<lparr>r_ecx := c, r_edx := d\<rparr>))"
    unfolding s l using K by (simp add: call_syscall_eq stack_ops test_result_def nok_def leave_stub_def checked_def returned_def Let_def)
  ultimately show ?thesis by blast
qed

lemma plain_stub_eq:
  assumes K: "K (int_of_dword (dword_of_int nr)) (r_ebx u) (r_ecx u) (r_edx u) (krnl u) = Some (res, k)"
  shows "\<exists>m. stack_below 6 u m \<and> plain_stub nr K R ra u = Some ((returned u m k)\<lparr>r_eax := dword_of_int res\<rparr>)"
proof -
  let ?e = "r_esp u"
  let ?m = "(stk u)(?e - 4 := r_ebp u, ?e - 8 := ra, ?e - 12 := r_ecx u, ?e - 16 := r_edx u, ?e - 20 := R, ?e - 24 := ?e - 4)"
  have "stack_below 6 u ?m" by (rule stack_belowI) (simp add: set_upto)
  moreover have "plain_stub nr K R ra u = Some ((returned u ?m k)\<lparr>r_eax := dword_of_int res\<rparr>)"
    using K by (simp add: plain_stub_def enter_stub_def call_syscall_eq stack_ops Let_def leave_stub_def returned_def)
  ultimately show ?thesis by blast
qed

lemma fork_stub_eq:
  assumes K: "K 2 (r_ebx u) (r_ecx u) (r_edx u) (krnl u) = Some (res, k)"
  shows "\<exists>m. stack_below 6 u m \<and> fork_stub K R ra u = Some (checked (dword_of_int res) (returned u m k))"
proof -
  let ?e = "r_esp u"
  let ?m = "(stk u)(?e - 4 := r_ebp u, ?e - 8 := ra, ?e - 12 := r_ecx u, ?e - 16 := r_edx u, ?e - 20 := R, ?e - 24 := ?e - 4)"
  have "stack_below 6 u ?m" by (rule stack_belowI) (simp add: set_upto)
  moreover have "int_of_dword 2 = 2" by (simp add: int_of_dword_def)
  then have "fork_stub K R ra u = Some (checked (dword_of_int res) (returned u ?m k))"
    using K by (simp add: fork_stub_def enter_stub_def call_syscall_eq stack_ops Let_def
        test_result_def nok_def leave_stub_def checked_def returned_def)
  ultimately show ?thesis by blast
qed

section \<open>wrappers.S\<close>

text \<open>
  The stubs of the earlier kernel load the first argument into \<open>edx\<close>, the second into \<open>ecx\<close> and the third into
  \<open>ebx\<close>, as its \<open>entry.S\<close> passes them, and save these registers. On a negative result they store its complement,
  not its negation, in \<open>errno\<close>.
\<close>

definition fake_link :: "'k kcall \<Rightarrow> ptr \<Rightarrow> 'k ucpu \<Rightarrow> 'k ucpu option" where
  "fake_link K R u =
     (let u = push R u;
          u = push (r_ebp u) u;
          u = u\<lparr>r_ebp := r_esp u\<rparr>
      in Option.bind (sysenter K u) (\<lambda>u.
        if r_eip u \<noteq> R then None
        else let u = pop_ebp u;
                 u = drop_word u;
                 u = pop_edx u;
                 u = pop_ecx u
             in Some u))"

definition leave_early :: "'k ucpu \<Rightarrow> 'k ucpu" where
  "leave_early u = ret (pop_ebp (u\<lparr>r_esp := r_ebp u\<rparr>))"

definition trat_error :: "'k ucpu \<Rightarrow> 'k ucpu" where
  "trat_error u =
     (let u = u\<lparr>r_eax := NOT (r_eax u)\<rparr>;
          u = u\<lparr>errno := int_of_dword (r_eax u)\<rparr>;
          u = u\<lparr>r_eax := -1\<rparr>;
          u = u\<lparr>r_esp := r_esp u + 8\<rparr>
      in leave_early u)"

definition test_early :: "'k ucpu \<Rightarrow> 'k ucpu" where
  "test_early u = (if int_of_dword (r_eax u) < 0 then trat_error u else leave_early u)"

definition write_early :: "'k kcall \<Rightarrow> ptr \<Rightarrow> 'k ucpu \<Rightarrow> 'k ucpu option" where
  "write_early K R u =
     (let u = enter_stub u;
          u = push (r_ebx u) u;
          u = push (r_ecx u) u;
          u = push (r_edx u) u;
          u = u\<lparr>r_eax := 4\<rparr>;
          u = u\<lparr>r_edx := arg 1 u\<rparr>;
          u = u\<lparr>r_ecx := arg 2 u\<rparr>;
          u = u\<lparr>r_ebx := arg 3 u\<rparr>
      in map_option (\<lambda>u. test_early (pop_ebx u)) (fake_link K R u))"

definition unblock_early :: "'k kcall \<Rightarrow> ptr \<Rightarrow> 'k ucpu \<Rightarrow> 'k ucpu option" where
  "unblock_early K R u =
     (let u = enter_stub u;
          u = u\<lparr>r_eax := 13\<rparr>;
          u = push (r_ecx u) u;
          u = push (r_edx u) u;
          u = u\<lparr>r_edx := arg 1 u\<rparr>
      in map_option test_early (fake_link K R u))"

text \<open>\<open>getpid\<close> and \<open>fork\<close>; and \<open>gettime\<close>, \<open>exit\<close> and \<open>block\<close>, which do not test the result (\<open>gettime\<close> also copies
  \<open>ebp\<close> to \<open>esp\<close> after the call, where \<open>sysexit\<close> left the same value).\<close>

definition tested_early :: "int \<Rightarrow> 'k kcall \<Rightarrow> ptr \<Rightarrow> 'k ucpu \<Rightarrow> 'k ucpu option" where
  "tested_early nr K R u =
     (let u = enter_stub u;
          u = u\<lparr>r_eax := dword_of_int nr\<rparr>;
          u = push (r_ecx u) u;
          u = push (r_edx u) u
      in map_option test_early (fake_link K R u))"

definition plain_early :: "int \<Rightarrow> 'k kcall \<Rightarrow> ptr \<Rightarrow> 'k ucpu \<Rightarrow> 'k ucpu option" where
  "plain_early nr K R u =
     (let u = enter_stub u;
          u = u\<lparr>r_eax := dword_of_int nr\<rparr>;
          u = push (r_ecx u) u;
          u = push (r_edx u) u
      in map_option leave_early (fake_link K R u))"

definition checked_early :: "DWord \<Rightarrow> 'k ucpu \<Rightarrow> 'k ucpu" where
  "checked_early w u = (if int_of_dword w < 0 then u\<lparr>r_eax := -1, errno := int_of_dword (NOT w)\<rparr> else u\<lparr>r_eax := w\<rparr>)"

lemma fake_link_eq:
  "fake_link K R u =
     map_option (\<lambda>(res, k). u\<lparr>r_eax := dword_of_int res, r_eip := R, krnl := k, r_esp := r_esp u + 8, r_edx := stk u (r_esp u),
         r_ecx := stk u (r_esp u + 4), stk := (stk u)(r_esp u - 4 := R, r_esp u - 8 := r_ebp u)\<rparr>)
       (K (int_of_dword (r_eax u)) (r_ebx u) (r_ecx u) (r_edx u) (krnl u))"
  by (cases "K (int_of_dword (r_eax u)) (r_ebx u) (r_ecx u) (r_edx u) (krnl u)")
    (auto simp: fake_link_def sysenter_def stack_ops Let_def esp_comm)

lemma write_early_eq:
  defines "a \<equiv> \<lambda>i u. stk u (r_esp u + of_nat (4 * i))"
  assumes K: "K 4 (a 3 u) (a 2 u) (a 1 u) (krnl u) = Some (res, k)"
  shows "\<exists>m. stack_below 6 u m \<and> write_early K R u = Some (checked_early (dword_of_int res) (returned u m k))"
proof -
  let ?e = "r_esp u"
  let ?m = "(stk u)(?e - 4 := r_ebp u, ?e - 8 := r_ebx u, ?e - 12 := r_ecx u, ?e - 16 := r_edx u, ?e - 20 := R, ?e - 24 := ?e - 4)"
  have "stack_below 6 u ?m" by (rule stack_belowI) (simp add: set_upto)
  moreover have "int_of_dword 4 = 4" by (simp add: int_of_dword_def)
  then have "write_early K R u = Some (checked_early (dword_of_int res) (returned u ?m k))"
    using K by (simp add: write_early_def enter_stub_def fake_link_eq stack_ops Let_def arg_def a_def esp_comm
        test_early_def trat_error_def leave_early_def checked_early_def returned_def)
  ultimately show ?thesis by blast
qed

lemma unblock_early_eq:
  assumes K: "K 13 (r_ebx u) (r_ecx u) (stk u (r_esp u + 4)) (krnl u) = Some (res, k)"
  shows "\<exists>m. stack_below 6 u m \<and> unblock_early K R u = Some (checked_early (dword_of_int res) (returned u m k))"
proof -
  let ?e = "r_esp u"
  let ?m = "(stk u)(?e - 4 := r_ebp u, ?e - 8 := r_ecx u, ?e - 12 := r_edx u, ?e - 16 := R, ?e - 20 := ?e - 4)"
  have "stack_below 6 u ?m" by (rule stack_belowI) (simp add: set_upto)
  moreover have "int_of_dword 13 = 13" by (simp add: int_of_dword_def)
  then have "unblock_early K R u = Some (checked_early (dword_of_int res) (returned u ?m k))"
    using K by (simp add: unblock_early_def enter_stub_def fake_link_eq stack_ops Let_def arg_def esp_comm
        test_early_def trat_error_def leave_early_def checked_early_def returned_def)
  ultimately show ?thesis by blast
qed

lemma no_arg_early_eq:
  assumes K: "K (int_of_dword (dword_of_int nr)) (r_ebx u) (r_ecx u) (r_edx u) (krnl u) = Some (res, k)"
  shows "\<exists>m. stack_below 6 u m \<and> tested_early nr K R u = Some (checked_early (dword_of_int res) (returned u m k)) \<and>
    plain_early nr K R u = Some ((returned u m k)\<lparr>r_eax := dword_of_int res\<rparr>)"
proof -
  let ?e = "r_esp u"
  let ?m = "(stk u)(?e - 4 := r_ebp u, ?e - 8 := r_ecx u, ?e - 12 := r_edx u, ?e - 16 := R, ?e - 20 := ?e - 4)"
  have "stack_below 6 u ?m" by (rule stack_belowI) (simp add: set_upto)
  moreover have "tested_early nr K R u = Some (checked_early (dword_of_int res) (returned u ?m k))"
    "plain_early nr K R u = Some ((returned u ?m k)\<lparr>r_eax := dword_of_int res\<rparr>)"
    using K by (simp_all add: tested_early_def plain_early_def enter_stub_def fake_link_eq stack_ops Let_def
        test_early_def trat_error_def leave_early_def checked_early_def returned_def)
  ultimately show ?thesis by blast
qed

text \<open>\<open>suma.S\<close>: the sum of two arguments.\<close>

definition suma :: "'k ucpu \<Rightarrow> 'k ucpu" where
  "suma u =
     (let u = enter_stub u;
          u = u\<lparr>r_edx := arg 1 u\<rparr>;
          u = u\<lparr>r_eax := arg 2 u\<rparr>;
          u = u\<lparr>r_eax := r_eax u + r_edx u\<rparr>
      in leave_stub u)"

lemma suma_eq:
  "suma u = u\<lparr>r_eax := stk u (r_esp u + 8) + stk u (r_esp u + 4), r_edx := stk u (r_esp u + 4), r_esp := r_esp u + 4, r_eip := stk u (r_esp u),
     stk := (stk u)(r_esp u - 4 := r_ebp u)\<rparr>"
  by (simp add: suma_def enter_stub_def leave_stub_def arg_def stack_ops Let_def esp_comm)

section \<open>Properties\<close>

lemma neg_dword: "int32 r \<Longrightarrow> int32 (- r) \<Longrightarrow> int_of_dword (- dword_of_int r) = - r"
  using int_of_dword_of_int [of "- r"] by (simp add: dword_of_int_def)

lemma not_dword: "int32 r \<Longrightarrow> int_of_dword (NOT (dword_of_int r)) = - r - 1"
  using int_of_dword_of_int [of "- r - 1"] by (simp add: dword_of_int_def int32_def not_eq_complement)

lemma checked_simps:
  "r_eip (checked w u) = r_eip u" "r_esp (checked w u) = r_esp u" "r_ebx (checked w u) = r_ebx u" "r_ebp (checked w u) = r_ebp u"
  "stk (checked w u) = stk u" "krnl (checked w u) = krnl u"
  "r_eip (checked_early w u) = r_eip u" "r_esp (checked_early w u) = r_esp u" "r_ebx (checked_early w u) = r_ebx u"
  "r_ecx (checked_early w u) = r_ecx u" "r_edx (checked_early w u) = r_edx u" "r_ebp (checked_early w u) = r_ebp u"
  "stk (checked_early w u) = stk u" "krnl (checked_early w u) = krnl u"
  by (simp_all add: checked_def checked_early_def)

text \<open>The stubs with arguments, with the number and the count of arguments of the call.\<close>

definition user_stubs :: "(('k kcall \<Rightarrow> ptr \<Rightarrow> ptr \<Rightarrow> 'k ucpu \<Rightarrow> 'k ucpu option) \<times> int \<times> nat) list" where
  "user_stubs =
     [(write_stub, 4, 3), (get_stats_stub, 35, 2), (getKey_stub, 21, 1), (sbrk_stub, 22, 1), (gotoXY_stub, 23, 2),
      (SetColor_stub, 24, 2), (spritePut_stub, 25, 3), (threadCreate_stub, 26, 3), (semCreate_stub, 28, 1),
      (semWait_stub, 29, 1), (semSignal_stub, 30, 1), (semDestroy_stub, 31, 1)]"

lemma user_stubs_arg: "(f, nr, n) \<in> set user_stubs \<Longrightarrow> f = arg_stub nr n \<and> n \<le> 3 \<and> int32 nr"
  by (auto simp: user_stubs_def int32_def write_stub_def get_stats_stub_def getKey_stub_def sbrk_stub_def gotoXY_stub_def SetColor_stub_def
      spritePut_stub_def threadCreate_stub_def semCreate_stub_def semWait_stub_def semSignal_stub_def semDestroy_stub_def)

text \<open>C32: Every stub with arguments hands the words the caller pushed to the kernel as the arguments of its call, in order,
  and comes back to its caller with the stack popped, \<open>ebx\<close> and \<open>ebp\<close> as they were and nothing above its frame
  written; it returns the result, or -1 with the negated result in \<open>errno\<close> when it is negative.\<close>

theorem user_stubs_call_kernel:
  assumes "(f, nr, n) \<in> set user_stubs"
    and "system_call_handler L localbuffer nr (stk u (r_esp u + 4)) (if 2 \<le> n then stk u (r_esp u + 8) else r_ecx u)
      (if 3 \<le> n then stk u (r_esp u + 12) else r_edx u) (krnl u) = Some (res, s)"
    and "int32 res" and "int32 (- res)"
  shows "\<exists>u'. f (system_call_handler L localbuffer) R ra u = Some u' \<and> krnl u' = s \<and>
    r_eip u' = stk u (r_esp u) \<and> r_esp u' = r_esp u + 4 \<and> r_ebx u' = r_ebx u \<and> r_ebp u' = r_ebp u \<and> stack_below 7 u (stk u') \<and>
    (if res < 0 then r_eax u' = -1 \<and> errno u' = - res else int_of_dword (r_eax u') = res \<and> errno u' = errno u)"
proof -
  note f = user_stubs_arg [OF assms(1)]
  have n: "1 \<le> n" using assms(1) by (auto simp: user_stubs_def)
  let ?c = "if 2 \<le> n then stk u (r_esp u + 8) else r_ecx u" and ?d = "if 3 \<le> n then stk u (r_esp u + 12) else r_edx u"
  have K: "system_call_handler L localbuffer (int_of_dword (dword_of_int nr)) (stk u (r_esp u + 4)) ?c ?d (krnl u) = Some (res, s)"
    using assms(2) f by (simp del: if_split)
  have b: "stk u (r_esp u + 4) = (if 1 \<le> n then stk u (r_esp u + 4) else r_ebx u)" using n by simp
  obtain m where "stack_below 7 u m" "arg_stub nr n (system_call_handler L localbuffer) R ra u =
      Some (checked (dword_of_int res) ((returned u m s)\<lparr>r_ecx := ?c, r_edx := ?d\<rparr>))"
    using arg_stub_eq [where K = "system_call_handler L localbuffer", OF b refl refl K, where ra = ra and R = R] by blast
  then show ?thesis
    using f assms(3,4) neg_dword [OF assms(3,4)] by (simp add: checked_simps) (auto simp: returned_def checked_def)
qed

text \<open>A caller at the end of its stack frame, with arguments on the stack.\<close>

definition example_caller :: "(ptr \<Rightarrow> DWord) \<Rightarrow> 'k \<Rightarrow> 'k ucpu" where
  "example_caller m k = \<lparr>r_eax = 0, r_ebx = 1, r_ecx = 2, r_edx = 3, r_esi = 4, r_edi = 5, r_ebp = 0x11c800, r_esp = 0x11c700, r_eip = 0x100200, stk = m, errno = 0, krnl = k\<rparr>"

theorem user_stubs_call_kernel_witness:
  "\<exists>u'. semWait_stub (system_call_handler example_symtab 0x30000) 0x100010 0x100180 (example_caller (\<lambda>a. if a = 0x11c704 then 11 else 0x100204) booted) = Some u' \<and>
     r_eip u' = 0x100204 \<and> r_eax u' = -1 \<and> errno u' = 1"
proof -
  let ?u = "example_caller (\<lambda>a. if a = 0x11c704 then 11 else 0x100204) booted :: kstate ucpu"
  have "int_of_dword 11 = 11" by (simp add: int_of_dword_def)
  then have K: "system_call_handler example_symtab 0x30000 29 11 2 3 booted = Some (-1, kernel_entry booted)"
    by (simp add: system_call_handler_def sys_call_table_def sys_semWait_def Let_def)
  have "\<exists>u'. semWait_stub (system_call_handler example_symtab 0x30000) 0x100010 0x100180 ?u = Some u' \<and> krnl u' = kernel_entry booted \<and>
    r_eip u' = stk ?u (r_esp ?u) \<and> r_esp u' = r_esp ?u + 4 \<and> r_ebx u' = r_ebx ?u \<and> r_ebp u' = r_ebp ?u \<and> stack_below 7 ?u (stk u') \<and>
    (if (-1 :: int) < 0 then r_eax u' = -1 \<and> errno u' = - (-1) else int_of_dword (r_eax u') = -1 \<and> errno u' = errno ?u)"
    by (rule user_stubs_call_kernel [where n = 1 and nr = 29]) (use K in \<open>simp_all add: user_stubs_def example_caller_def int32_def\<close>)
  then show ?thesis by (simp add: example_caller_def) blast
qed

text \<open>C33: The stubs of the earlier kernel hand their arguments over and restore all registers of the caller, but for a
  call that fails \<open>errno\<close> is one less than the number of the error, since the result is complemented instead of
  negated: \<open>write\<close> to a bad descriptor leaves 8, not \<open>EBADF\<close>.\<close>

theorem early_stubs_errno:
  assumes "sys_write_early E (int_of_dword (stk u (r_esp u + 4))) (stk u (r_esp u + 8)) (int_of_dword (stk u (r_esp u + 12)))
      (kernel_entry_early (krnl u)) = Some (res, s)" and "int32 res"
  shows "\<exists>u'. write_early (syscall_handler_sysenter E) R u = Some u' \<and> krnl u' = s \<and>
    r_eip u' = stk u (r_esp u) \<and> r_esp u' = r_esp u + 4 \<and> r_ebx u' = r_ebx u \<and> r_ecx u' = r_ecx u \<and> r_edx u' = r_edx u \<and>
    r_ebp u' = r_ebp u \<and> stack_below 6 u (stk u') \<and>
    (if res < 0 then r_eax u' = -1 \<and> errno u' = - res - 1 else int_of_dword (r_eax u') = res \<and> errno u' = errno u)"
proof -
  have "syscall_handler_sysenter E 4 (stk u (r_esp u + of_nat (4 * 3))) (stk u (r_esp u + of_nat (4 * 2))) (stk u (r_esp u + of_nat (4 * 1))) (krnl u) =
      Some (res, s)"
    using assms(1) by (simp add: syscall_handler_sysenter_def sys_call_table_early_def Let_def)
  from write_early_eq [where K = "syscall_handler_sysenter E", OF this, of R] obtain m where "stack_below 6 u m"
    "write_early (syscall_handler_sysenter E) R u = Some (checked_early (dword_of_int res) (returned u m s))" by blast
  then show ?thesis
    using assms(2) not_dword [OF assms(2)] by (simp add: checked_simps) (auto simp: returned_def checked_early_def)
qed

theorem early_stubs_errno_witness:
  "\<exists>u'. write_early (syscall_handler_sysenter example_early) 0x100010 (example_caller (\<lambda>a. if a = 0x11c704 then 2 else 0x100204) zero_early) = Some u' \<and>
     r_eip u' = 0x100204 \<and> r_eax u' = -1 \<and> errno u' = 8"
proof -
  let ?u = "example_caller (\<lambda>a. if a = 0x11c704 then 2 else 0x100204) zero_early :: early_state ucpu"
  have "int_of_dword 2 = 2" by (simp add: int_of_dword_def)
  then have "sys_write_early example_early (int_of_dword (stk ?u (r_esp ?u + 4))) (stk ?u (r_esp ?u + 8)) (int_of_dword (stk ?u (r_esp ?u + 12)))
      (kernel_entry_early (krnl ?u)) = Some (-9, kernel_entry_early zero_early)"
    by (simp add: example_caller_def sys_write_early_def check_fd_early_def Let_def)
  from early_stubs_errno [OF this, where R = "0x100010"] show ?thesis by (simp add: example_caller_def int32_def) blast
qed

end
