(* ===== verification/Spec2Isabelle.thy ===== *)
theory Spec2Isabelle
  imports Zeos_Prelude Zeos_List Zeos_Utils Zeos_Mm Zeos_Io Zeos_Kstate Zeos_Sched Zeos_Sem Zeos_Keyboard
    Zeos_Queues Zeos_Memory Zeos_Sys Zeos_Process Zeos_Fork Zeos_Thread Zeos_Kernel Zeos_Machine Zeos_Libc Zeos_User
    Zeos_Build Zeos_Early Zeos_Early_Sys Zeos_Early_Fork Zeos_Early_Machine Zeos_Client Zeos_Wrappers
begin

text \<open>
  Verification of ZeOS, a teaching kernel for 32-bit x86 in C and assembly. The repository holds two trees: the final kernel
  \<open>src/ZeOSSysenter/zeos\<close>, with threads, semaphores, a heap and a console with sprites, and an earlier stage of it,
  \<open>src/zeOSpparri\<close>, with block and unblock of processes. Names of definitions are those of the source; definitions of the earlier
  tree end in \<open>_early\<close> where the name exists in both.

  \<^bold>\<open>The program.\<close> A builder on the development machine joins boot sector, kernel and user program to one image. The boot
  sector loads it and jumps to \<open>main\<close> of \<open>system.c\<close>, which sets the segment and interrupt tables, the page tables and the
  first two tasks, copies the user program to its address space and enters user mode. From then on the kernel runs only in
  its handlers (\<open>entry.S\<close>): the clock, which counts and schedules; the keyboard, which fills a ring buffer; and the system
  calls. Tasks are linked into queues (free, ready, one per semaphore, or blocked) through a node inside the task structure.

  \<^bold>\<open>State and operations.\<close> The state of the kernel is the record \<open>kstate\<close>: the store of list nodes, the task structures
  and semaphores by address, the kernel stacks, memory (page-table entries by address, the byte map of frames, \<open>cr3\<close>), the
  bytes of user memory, the console, the keyboard buffer, the counters and the registers the scheduler uses (stack pointer,
  \<open>tss.esp0\<close>, the \<open>sysenter\<close> stack). Each C function is one definition that returns the new state, its loops are recursive
  functions, its error returns are values. A page fault in the kernel and a loop that does not end are \<open>None\<close>. Pointers and
  unsigned values are words of their width; a C \<open>int\<close> is an integer with \<open>wrap32\<close> at the operations that may overflow.

  \<^bold>\<open>Theories of the final kernel.\<close>
  \<^item> \<open>Zeos_Prelude\<close>: machine types, C integers, error numbers, layout of the address space, generic lemmas.
  \<^item> \<open>Zeos_List\<close> (\<open>list.c\<close>): the circular doubly linked lists on a store of nodes, in the order of the code's assignments;
    the sequence a head represents (\<open>dlist\<close>) and what insertion and deletion do to it; the locale \<open>linked_queue\<close>.
  \<^item> \<open>Zeos_Queues\<close>: families of disjoint queues over one node per task; the locale \<open>queue_family\<close>, instantiated by both kernels.
  \<^item> \<open>Zeos_Utils\<close> (\<open>utils.c\<close>, \<open>p_stats.c\<close>): copy loops, proved once in the locale \<open>byte_memory\<close>; \<open>access_ok\<close>; division; ticks.
  \<^item> \<open>Zeos_Mm\<close> (\<open>mm.c\<close>): page tables, permissions, the frame allocator; the locale \<open>frame_pool\<close>.
  \<^item> \<open>Zeos_Io\<close> (\<open>io.c\<close>, \<open>devices.c\<close>): console and sprites; range of cursor and colours in every reachable state.
  \<^item> \<open>Zeos_Kstate\<close> (\<open>sched.h\<close>, \<open>stats.h\<close>): the kernel state and the queues of tasks.
  \<^item> \<open>Zeos_Sched\<close> (\<open>sched.c\<close>): boot of the tasks, the round-robin scheduler as a refinement of operations on abstract queues
    (\<open>sched_rel\<close>), the task switch on the stacks, the accounting.
  \<^item> \<open>Zeos_Memory\<close>: the page walk of the processor and memory seen through it; what allocation and mapping do to an address space.
  \<^item> \<open>Zeos_Sem\<close>, \<open>Zeos_Sys\<close>, \<open>Zeos_Process\<close>, \<open>Zeos_Fork\<close>, \<open>Zeos_Thread\<close> (\<open>sys.c\<close>): every system call, on every branch; the
    invariant of the semaphores; \<open>sys_fork\<close> and the threads down to the bytes of memory and the words of the stacks, and
    the first run of a child through \<open>ret_from_fork\<close> to user mode.
  \<^item> \<open>Zeos_Keyboard\<close> (\<open>interrupt.c\<close>, \<open>io.c\<close>): the ring buffer as a bounded queue; the locale \<open>bounded_fifo\<close>.
  \<^item> \<open>Zeos_Kernel\<close> (\<open>entry.S\<close>, \<open>sys_call_table.S\<close>): the handlers, the step relation \<open>kernel_step\<close> and the preservation of the
    kernel invariant by every step; \<open>frame\<close> is what a handler leaves to the tasks and semaphores it is not about.
  \<^item> \<open>Zeos_Client\<close> (\<open>user.c\<close>, \<open>wrappersito_func.c\<close>): the threads of the semaphore test on the kernel, preempted anywhere; the
    bound on the threads in the section and the updates of their shared variable, by an invariant that adds the counter of the
    semaphore and the threads past \<open>semWait\<close> to its initial value. Both hold until a task outside \<open>thread_function\<close> forks or
    waits on, signals or destroys the semaphore (\<open>disturbed\<close>), as \<open>main\<close> of the test does in the end; what its \<open>semDestroy\<close>
    does to the threads that wait is part of the first property.
  \<^item> \<open>Zeos_Machine\<close> (\<open>hardware.c\<close>, \<open>interrupt.c\<close>, \<open>mm.c\<close>, \<open>system.c\<close>): descriptors, gates, the task state segment, and \<open>main\<close>
    from the loaded image to the first user instruction.
  \<^item> \<open>Zeos_Build\<close> (\<open>build.c\<close> of both trees): the image builder and its end-to-end property with \<open>main\<close>.
  \<^item> \<open>Zeos_Libc\<close>, \<open>Zeos_User\<close> (\<open>libc.c\<close>, \<open>user.c\<close>): number printing, delay, and the screens of the user program.

  \<^bold>\<open>Theories of the earlier kernel.\<close> \<open>Zeos_Early\<close> (\<open>sched.c\<close>, \<open>mm.c\<close>, \<open>msr_func.S\<close>): tasks with a list of children, boot, and the scheduler as
  a refinement of the same abstract queues. \<open>Zeos_Early_Sys\<close> (\<open>sys.c\<close>, \<open>io.c\<close>, \<open>interrupt.c\<close>, \<open>entry.S\<close>): its system calls, console and
  interrupt routines; block and unblock; what \<open>sys_write\<close> prints. \<open>Zeos_Early_Fork\<close>: \<open>sys_fork\<close> and the list of children it leaves.
  \<open>Zeos_Early_Machine\<close> (\<open>interrupt.c\<close>, \<open>msr_func.S\<close>, \<open>libc.c\<close>): its interrupt table and the messages of \<open>perror\<close>.

  \<^bold>\<open>The user side.\<close> \<open>Zeos_Wrappers\<close> (\<open>user-utils.S\<close> and, of the earlier tree, \<open>wrappers.S\<close>, \<open>suma.S\<close>): the stubs of the system calls of
  both kernels on registers and stack, with \<open>sysenter\<close>: arguments, registers kept, result and \<open>errno\<close>.

  \<^bold>\<open>This theory\<close> holds the properties of the kernel as a whole: in every state reachable from boot by clock ticks, keys and
  system calls the invariant holds. The calls \<open>allowed\<close> excludes are those whose flaws break it; each is a lemma or a remark of
  its own theory (\<open>sys_fork\<close> while a thread waits on a semaphore, a yield with nobody ready before the first switch, semaphores
  created negative or counted to the limit, index 10, a thread beyond the last page).

  \<^bold>\<open>Parameters.\<close> The addresses the linker gives to the kernel's objects are the records \<open>symtab\<close> and \<open>early_symtab\<close>; \<open>symtab_ok\<close> and
  \<open>early_ok\<close> say that they are aligned, inside the kernel and disjoint, and \<open>example_symtab\<close> and \<open>example_early\<close> satisfy them.
  \<open>set_handlers\<close> and \<open>zeos_show_clock\<close> come from a library without source and are arguments: the first writes the interrupt table only,
  the second the screen. Bytes read from ports and memory beyond an array are arguments too.

  \<^bold>\<open>Loops and fuel.\<close> No definition uses fuel. Loops that end by their own measure are total; those whose end depends on pointers
  (list traversals, the heap loops, waking all threads of a semaphore, \<open>strlen\<close>) are partial functions into an option type, and
  the properties state that they return, or, for the list of children of the earlier kernel, that they do not.

  \<^bold>\<open>Abstractions.\<close> Kernel objects are typed values at their addresses, and \<open>ram\<close> holds the user pages and the buffers the kernel
  copies through. A kernel stack is a store of words: fork and thread
  creation copy and write it, a first run reads it; the words that \<open>SAVE_ALL\<close> and the calls of C functions push are not written by the
  model, so the user registers in it are whatever the store holds, and nested C frames take no space. In \<open>Zeos_Wrappers\<close> a call
  that blocks or switches returns at once, with the state the kernel leaves, and the user stack of the stubs is a store of its own. The processor's
  translation cache is not modelled: every access walks the tables. Interrupts are disabled in the handlers, as the gates have it,
  so handlers do not interleave.

  \<^bold>\<open>Not modelled.\<close> The boot sector (16-bit assembly on BIOS calls); the two \<open>main\<close> functions of \<open>user.c\<close>, sequences of calls that end in
  an endless loop, except as the calls other tasks make in \<open>Zeos_Client\<close>; \<open>cpu_idle\<close>, a loop without effect; \<open>inb\<close>, an instruction;
  and the files of the earlier tree that repeat the later ones (\<open>list.c\<close>, \<open>hardware.c\<close>, the frame
  allocator).
\<close>

section \<open>The kernel as a whole\<close>

text \<open>C1: From the state the boot code leaves, whatever the initial contents of memory, and after any sequence of
  clock interrupts, key interrupts and system calls (other than those \<open>allowed\<close> excludes, each a flaw of the code), the
  invariant of the kernel holds: the queues are intact, every task is in its place, the semaphore counters agree with
  the number of threads that wait, and the hardware points to the stack and the page directory of the running task.\<close>

theorem kernel_reachable_inv:
  assumes "symtab_ok L" "counts_ok s0" "(kernel_step L)\<^sup>*\<^sup>* (kernel_entry (init_kernel L s0)) s"
  shows "\<exists>A. kernel_inv L s A \<and> counts_ok s"
  using reachable_ok [OF assms] by (auto simp: kernel_ok_def)

theorem kernel_reachable_inv_witness:
  "\<exists>A. kernel_inv example_symtab
     (clock_handler example_symtab id ((keyboard_handler (\<lambda>_. 0) 30 booted)\<lparr>esp := esp booted\<rparr>)) A \<and>
   counts_ok (clock_handler example_symtab id ((keyboard_handler (\<lambda>_. 0) 30 booted)\<lparr>esp := esp booted\<rparr>))"
  using kernel_reachable_inv [OF example_symtab_ok zero_counts_ok first_key_and_tick [unfolded booted_def]]
  unfolding booted_def by simp

text \<open>C2: In every state the kernel can reach, the running task is a task of the array in state \<open>ST_RUN\<close>; a traversal
  of each queue ends and visits distinct nodes of tasks; every task but the running and the idle one is in exactly one
  queue; and the state of a task agrees with its queue.\<close>

theorem kernel_reachable_queues:
  assumes L: "symtab_ok L" and "counts_ok s0" "(kernel_step L)\<^sup>*\<^sup>* (kernel_entry (init_kernel L s0)) s"
  shows "current s \<in> tasks_of L \<and> state (tasks s (current s)) = ST_RUN \<and>
    (\<exists>Q. (\<forall>q \<in> heads L. list_for_each q (links s) = Some (map tnode (Q q)) \<and> distinct (Q q) \<and> set (Q q) \<subseteq> tasks_of L - {current s}) \<and>
      (\<forall>t \<in> tasks_of L - {current s, idle_task s}. \<exists>!q. q \<in> heads L \<and> t \<in> set (Q q)) \<and>
      (\<forall>t \<in> set (Q (readyqueue L)). state (tasks s t) = ST_READY) \<and>
      (\<forall>i < NUM_SEM. \<forall>t \<in> set (Q (sem_queue L i)). state (tasks s t) = ST_BLOCKED))"
proof -
  obtain A where "kernel_inv L s A" using reachable_ok [OF assms] by (auto simp: kernel_ok_def)
  then have rel: "sched_rel L s A" by (simp add: kernel_inv_def)
  note r = sched_relD [OF rel] and q = queuesD [OF sched_relD(2) [OF rel]]
  have d: "distinct (Q q)" if "dlist (links s) q (map tnode (Q q))" for Q :: "ptr \<Rightarrow> ptr list" and q
    using that by (auto simp: dlist_def distinct_map)
  have one: "\<exists>!q. q \<in> heads L \<and> t \<in> set (a_queue A q)" if "t \<in> tasks_of L - {current s, idle_task s}" for t
    using that r(6) q(3) by (auto simp: queued_unfold)
  have "set (a_queue A q) \<subseteq> tasks_of L - {current s}" if "q \<in> heads L" for q
    using q(2) [OF that] r(5) that by (auto simp: queued_unfold)
  then show ?thesis using r(1,4,7) one d q(1) list_for_each_dlist
    by (intro conjI exI [of _ "a_queue A"]) (auto simp: tasks_placed_def)
qed

theorem kernel_reachable_queues_witness:
  "current booted \<in> tasks_of example_symtab \<and> state (tasks booted (current booted)) = ST_RUN"
  using kernel_reachable_queues [OF example_symtab_ok zero_counts_ok rtranclp.rtrancl_refl]
  unfolding booted_def by simp

end
